(* ===== verification/Prelude.thy ===== *)
theory Prelude
  imports Main "HOL-Library.Word" "HOL-Library.Char_ord" "HOL-Library.List_Lexorder"
begin

text \<open>
  What every component shares: C++ exceptions and undefined behaviour as values,
  sequencing of fallible code, \<open>std::string\<close> as a list of bytes with the operations
  the sources call, decimal printing and parsing, machine integers, and generic
  facts on lists.
\<close>

section \<open>Exceptions, undefined behaviour and sequencing\<close>

text \<open>
  A C++ expression that throws, or whose behaviour is undefined, is a left value of
  the result type. The exceptions are the classes the sources throw or let escape;
  the string is the message (where the message is not built from run-time data it is
  the literal of the source, otherwise its fixed prefix).
\<close>

datatype ub =
    OutOfBounds        \<comment> \<open>element access outside a string or vector\<close>
  | UninitPointer      \<comment> \<open>use of a pointer that was never assigned\<close>
  | NullPointer        \<comment> \<open>use of a null pointer\<close>
  | SignedOverflow     \<comment> \<open>overflow of signed arithmetic\<close>
  | DivByZero          \<comment> \<open>integer division by zero\<close>
  | Indeterminate      \<comment> \<open>use of a variable that was never assigned\<close>
  | FloatToInteger     \<comment> \<open>conversion of a floating-point value outside the range of the integer type\<close>
  | DoubleDelete       \<comment> \<open>\<open>delete\<close> of an object that was deleted\<close>
  | DeadObject         \<comment> \<open>access to an object after the end of its lifetime\<close>
  | BrokenOrder        \<comment> \<open>use of an ordered container whose keys are no longer in its order\<close>

datatype cxx_error =
    InvalidArgument string
  | RuntimeError string
  | OutOfRange
  | LengthError
  | BadVariantGet
  | DecodingError string
  | Undefined ub
  | Aborted            \<comment> \<open>a failed \<open>assert\<close>\<close>
  | Blocks             \<comment> \<open>the call waits for ever (nothing more arrives)\<close>
  | Diverges           \<comment> \<open>a loop in the call never ends\<close>
  | OutOfFuel          \<comment> \<open>no C++ counterpart: the bound of a modelled recursion\<close>

type_synonym 'a res = "cxx_error + 'a"

definition rbind :: "'a res \<Rightarrow> ('a \<Rightarrow> 'b res) \<Rightarrow> 'b res" where
  "rbind r f = (case r of Inl e \<Rightarrow> Inl e | Inr x \<Rightarrow> f x)"

lemma rbind_simps [simp]:
  "rbind (Inl e) f = Inl e"
  "rbind (Inr x) f = f x"
  by (simp_all add: rbind_def)

lemma rbind_cong [fundef_cong]:
  "r = r' \<Longrightarrow> (\<And>x. r' = Inr x \<Longrightarrow> f x = f' x) \<Longrightarrow> rbind r f = rbind r' f'"
  by (cases r') (auto simp: rbind_def)

lemma rbind_Inr_iff: "rbind r f = Inr y \<longleftrightarrow> (\<exists>x. r = Inr x \<and> f x = Inr y)"
  by (cases r) auto

lemma rbind_Inl_iff: "rbind r f = Inl e \<longleftrightarrow> r = Inl e \<or> (\<exists>x. r = Inr x \<and> f x = Inl e)"
  by (cases r) auto

lemma rbind_InrE:
  assumes "rbind r f = Inr y"
  obtains x where "r = Inr x" and "f x = Inr y"
  using assms by (auto simp: rbind_Inr_iff)

lemma rbind_assoc: "rbind (rbind r f) g = rbind r (\<lambda>x. rbind (f x) g)"
  by (cases r) auto

lemma rbind_Inr_right [simp]: "rbind r Inr = r"
  by (cases r) auto

definition is_ok :: "'a res \<Rightarrow> bool" where
  "is_ok r = (case r of Inl _ \<Rightarrow> False | Inr _ \<Rightarrow> True)"

lemma is_ok_simps [simp]: "is_ok (Inr x)" "\<not> is_ok (Inl e)"
  by (simp_all add: is_ok_def)

lemma is_ok_iff: "is_ok r \<longleftrightarrow> (\<exists>x. r = Inr x)"
  by (cases r) auto

text \<open>
  What \<open>catch (std::exception&)\<close> catches: every exception, and neither undefined
  behaviour nor a call that does not return.
\<close>

fun is_exception :: "cxx_error \<Rightarrow> bool" where
  "is_exception (Undefined u) = False"
| "is_exception Aborted = False"
| "is_exception Blocks = False"
| "is_exception Diverges = False"
| "is_exception OutOfFuel = False"
| "is_exception e = True"

section \<open>Bytes and strings\<close>

text \<open>
  A \<open>std::string\<close> is a list of bytes, here \<open>string\<close>: a HOL \<open>char\<close> is one byte and
  \<open>of_char\<close> its unsigned value. \<open>substr s p n\<close> is \<open>s.substr(p, n)\<close>, which throws
  \<open>out_of_range\<close> when \<open>p\<close> is past the end and stops at the end of the string.
\<close>

type_synonym bytes = string

abbreviation byte_val :: "char \<Rightarrow> nat" where
  "byte_val c \<equiv> of_char c"

definition isdigit :: "char \<Rightarrow> bool" where
  "isdigit c \<longleftrightarrow> 48 \<le> byte_val c \<and> byte_val c \<le> 57"

definition substr :: "string \<Rightarrow> nat \<Rightarrow> nat \<Rightarrow> string res" where
  "substr s p n = (if length s < p then Inl OutOfRange else Inr (take n (drop p s)))"

definition substr_from :: "string \<Rightarrow> nat \<Rightarrow> string res" where
  "substr_from s p = (if length s < p then Inl OutOfRange else Inr (drop p s))"

text \<open>\<open>s.find_first_of(c)\<close>: the first position of a byte, \<open>None\<close> for \<open>npos\<close>.\<close>

fun find_char :: "char \<Rightarrow> string \<Rightarrow> nat option" where
  "find_char c [] = None"
| "find_char c (x # xs) = (if x = c then Some 0 else map_option Suc (find_char c xs))"

lemma find_char_Some: "find_char c s = Some i \<Longrightarrow> i < length s \<and> s ! i = c"
  by (induction s arbitrary: i) (auto split: if_splits)

lemma find_char_append:
  "c \<notin> set xs \<Longrightarrow> find_char c (xs @ c # ys) = Some (length xs)"
  by (induction xs) auto

lemma find_char_None: "find_char c s = None \<longleftrightarrow> c \<notin> set s"
  by (induction s) auto

section \<open>Decimal numerals\<close>

text \<open>
  \<open>std::to_string\<close> of a natural number and of a signed one, and the value of a
  string of digits (what \<open>std::stoi\<close> and stream extraction compute on digits).
\<close>

definition digit_char :: "nat \<Rightarrow> char" where
  "digit_char d = char_of (48 + d)"

fun dec_nat :: "nat \<Rightarrow> string" where
  "dec_nat n = (if n < 10 then [digit_char n] else dec_nat (n div 10) @ [digit_char (n mod 10)])"

declare dec_nat.simps [simp del]

definition dec_int :: "int \<Rightarrow> string" where
  "dec_int i = (if i < 0 then CHR ''-'' # dec_nat (nat (- i)) else dec_nat (nat i))"

definition digit_val :: "char \<Rightarrow> nat" where
  "digit_val c = byte_val c - 48"

definition dec_val :: "string \<Rightarrow> nat" where
  "dec_val s = foldl (\<lambda>acc c. 10 * acc + digit_val c) 0 s"

lemma byte_val_digit_char: "d < 10 \<Longrightarrow> byte_val (digit_char d) = 48 + d"
  by (simp add: digit_char_def)

lemma digit_char_numeral [simp]:
  "digit_char 0 = CHR ''0''" "digit_char (Suc 0) = CHR ''1''" "digit_char 1 = CHR ''1''"
  "digit_char (Suc (Suc 0)) = CHR ''2''" "digit_char 2 = CHR ''2''" "digit_char 3 = CHR ''3''" "digit_char 4 = CHR ''4''"
  "digit_char 5 = CHR ''5''" "digit_char 6 = CHR ''6''" "digit_char 7 = CHR ''7''"
  "digit_char 8 = CHR ''8''" "digit_char 9 = CHR ''9''"
  by (simp_all add: digit_char_def char_of_def bit_0)

lemma isdigit_digit_char [simp]: "d < 10 \<Longrightarrow> isdigit (digit_char d)"
  by (simp add: isdigit_def byte_val_digit_char)

lemma digit_val_digit_char [simp]: "d < 10 \<Longrightarrow> digit_val (digit_char d) = d"
  by (simp add: digit_val_def byte_val_digit_char)

lemma dec_nat_digits: "c \<in> set (dec_nat n) \<Longrightarrow> isdigit c"
  by (induction n rule: dec_nat.induct) (subst (asm) (2) dec_nat.simps, auto split: if_splits)

lemma dec_nat_nonempty [simp]: "dec_nat n \<noteq> []"
  by (subst dec_nat.simps) simp

lemma dec_val_snoc: "dec_val (xs @ [c]) = 10 * dec_val xs + digit_val c"
  by (simp add: dec_val_def)

lemma dec_val_dec_nat [simp]: "dec_val (dec_nat n) = n"
proof (induction n rule: dec_nat.induct)
  case (1 n)
  show ?case
  proof (cases "n < 10")
    case True
    then show ?thesis by (subst dec_nat.simps) (simp add: dec_val_def)
  next
    case False
    with 1 show ?thesis by (subst dec_nat.simps) (simp add: dec_val_snoc)
  qed
qed

lemma dec_nat_inject [simp]: "dec_nat m = dec_nat n \<longleftrightarrow> m = n"
  by (metis dec_val_dec_nat)

lemma dec_nat_hd_digit: "isdigit (hd (dec_nat n))"
  by (rule dec_nat_digits) (rule hd_in_set, rule dec_nat_nonempty)

lemma not_isdigit [simp]:
  "\<not> isdigit (CHR ''e'')" "\<not> isdigit (CHR '':'')" "\<not> isdigit (CHR ''i'')"
  "\<not> isdigit (CHR ''l'')" "\<not> isdigit (CHR ''d'')" "\<not> isdigit (CHR ''-'')"
  by (simp_all add: isdigit_def)

lemma not_in_dec_nat [simp]:
  "CHR ''e'' \<notin> set (dec_nat n)" "CHR '':'' \<notin> set (dec_nat n)"
  using dec_nat_digits not_isdigit by blast+

text \<open>The leading run of digits of a string, used by the length prefixes.\<close>

lemma takeWhile_dec_nat:
  "\<not> isdigit c \<Longrightarrow> takeWhile isdigit (dec_nat n @ c # s) = dec_nat n"
  by (simp add: takeWhile_append dec_nat_digits)

section \<open>Machine integers\<close>

text \<open>
  \<open>int\<close> is 32 bits, \<open>long\<close>, \<open>size_t\<close> and \<open>time_t\<close> are 64 bits (the Linux targets of
  the build). Values are words where a conversion or an overflow is visible, and
  \<open>nat\<close> or \<open>int\<close> where the code stays in range; \<open>int_max\<close> is \<open>INT_MAX\<close>.
\<close>

type_synonym cint = "32 word"
type_synonym cull = "64 word"

definition int_max :: nat where
  "int_max = 2147483647"

lemma int_max_eq: "int_max = 2 ^ 31 - 1"
  by (simp add: int_max_def)

section \<open>Facts collections and generic list lemmas\<close>

text \<open>
  \<open>wf_intros\<close> collects the preservation lemmas of the components' well-formedness
  invariants, \<open>op_simps\<close> the equations of their operations branch by branch.
\<close>

named_theorems wf_intros
named_theorems op_simps

lemma distinct_set_filter_ne:
  "distinct xs \<Longrightarrow> set (filter (\<lambda>y. y \<noteq> x) xs) = set xs - {x}"
  by auto

lemma length_concat_const:
  "(\<And>x. x \<in> set xs \<Longrightarrow> length (f x) = k) \<Longrightarrow> length (concat (map f xs)) = k * length xs"
  by (induction xs) auto

lemma find_Some_in: "find P xs = Some x \<Longrightarrow> x \<in> set xs \<and> P x"
  by (auto simp: find_Some_iff)

end
