(* ===== verification/StdMap.thy ===== *)
theory StdMap
  imports Prelude
begin

text \<open>
  \<open>std::map\<close>: the ordered map the sources use for bencoded dictionaries
  (\<open>ValueDictionary\<close>, \<open>BDictionary\<close>), for the peers of the \<open>PieceManager\<close> and for the
  candidate count of \<open>getRarestPiece\<close>. Iteration is in ascending key order, which is
  what makes the encoders canonical, so the model is an association list with
  strictly ascending keys. Keys of type \<open>std::string\<close> compare bytewise as unsigned
  characters, which is the library's order on \<open>string\<close>.
  The interface is the locale \<open>ordered_map\<close>; its clients use only the laws.
\<close>

type_synonym ('k, 'v) smap = "('k \<times> 'v) list"

definition wf_map :: "('k::linorder, 'v) smap \<Rightarrow> bool" where
  "wf_map m \<longleftrightarrow> sorted_wrt (<) (map fst m)"

text \<open>\<open>m[k] = v\<close>, \<open>m.find(k)\<close> and \<open>m.erase(k)\<close>.\<close>

fun map_set :: "'k::linorder \<Rightarrow> 'v \<Rightarrow> ('k, 'v) smap \<Rightarrow> ('k, 'v) smap" where
  "map_set k v [] = [(k, v)]"
| "map_set k v ((k', v') # m) =
     (if k < k' then (k, v) # (k', v') # m
      else if k = k' then (k, v) # m
      else (k', v') # map_set k v m)"

definition map_get :: "('k::linorder, 'v) smap \<Rightarrow> 'k \<Rightarrow> 'v option" where
  "map_get m k = map_of m k"

definition map_erase :: "'k::linorder \<Rightarrow> ('k, 'v) smap \<Rightarrow> ('k, 'v) smap" where
  "map_erase k m = filter (\<lambda>e. fst e \<noteq> k) m"

text \<open>Two association lists with ascending keys and the same entries are equal.\<close>

lemma sorted_alist_eqI:
  assumes "sorted_wrt (<) (map fst xs)" "sorted_wrt (<) (map fst ys)" "set xs = set ys"
  shows "xs = (ys :: ('k::linorder \<times> 'v) list)"
  using assms
proof (induction xs arbitrary: ys)
  case (Cons x xs)
  then obtain y ys' where ys: "ys = y # ys'" by (cases ys) auto
  have "x = y"
  proof (rule ccontr)
    assume ne: "x \<noteq> y"
    with Cons.prems(3) ys have "x \<in> set ys'" "y \<in> set xs" by auto
    then have "fst y < fst x" "fst x < fst y" using Cons.prems(1,2) ys by auto
    then show False by simp
  qed
  moreover have "x \<notin> set xs" "y \<notin> set ys'" using Cons.prems(1,2) ys by auto
  ultimately have "set xs = set ys'" using Cons.prems(3) ys by auto
  with Cons.IH[of ys'] Cons.prems(1,2) ys \<open>x = y\<close> show ?case by simp
qed simp

section \<open>The interface of an ordered map\<close>

locale ordered_map =
  fixes empty :: "'m"
    and put :: "'k::linorder \<Rightarrow> 'v \<Rightarrow> 'm \<Rightarrow> 'm"
    and get :: "'m \<Rightarrow> 'k \<Rightarrow> 'v option"
    and erase :: "'k \<Rightarrow> 'm \<Rightarrow> 'm"
    and entries :: "'m \<Rightarrow> ('k \<times> 'v) list"
    and invar :: "'m \<Rightarrow> bool"
  assumes invar_empty: "invar empty"
    and invar_put: "invar m \<Longrightarrow> invar (put k v m)"
    and invar_erase: "invar m \<Longrightarrow> invar (erase k m)"
    and get_empty: "get empty k = None"
    and get_put: "invar m \<Longrightarrow> get (put k v m) k' = (if k' = k then Some v else get m k')"
    and get_erase: "invar m \<Longrightarrow> get (erase k m) k' = (if k' = k then None else get m k')"
    and get_entries: "invar m \<Longrightarrow> get m k = map_of (entries m) k"
    and entries_sorted: "invar m \<Longrightarrow> sorted_wrt (<) (map fst (entries m))"
    and entries_inject: "invar m \<Longrightarrow> invar m' \<Longrightarrow> entries m = entries m' \<Longrightarrow> m = m'"
begin

lemma entries_distinct: "invar m \<Longrightarrow> distinct (map fst (entries m))"
  by (drule entries_sorted) (auto simp: strict_sorted_iff)

lemma mem_entries_iff: "invar m \<Longrightarrow> (k, v) \<in> set (entries m) \<longleftrightarrow> get m k = Some v"
  by (simp add: get_entries entries_distinct)

lemma entries_unique:
  assumes "invar m" "invar m'" "\<And>k. get m k = get m' k"
  shows "entries m = entries m'"
proof (rule sorted_alist_eqI)
  show "set (entries m) = set (entries m')"
  proof (rule set_eqI)
    fix e :: "'k \<times> 'v"
    obtain k v where e: "e = (k, v)" by (cases e)
    show "e \<in> set (entries m) \<longleftrightarrow> e \<in> set (entries m')"
      using assms by (simp add: e mem_entries_iff)
  qed
qed (use assms in \<open>simp_all add: entries_sorted\<close>)

lemma map_ext:
  "invar m \<Longrightarrow> invar m' \<Longrightarrow> (\<And>k. get m k = get m' k) \<Longrightarrow> m = m'"
  using entries_inject entries_unique by blast

lemma put_put_same: "invar m \<Longrightarrow> put k v (put k v' m) = put k v m"
  by (rule map_ext) (simp_all add: invar_put get_put)

lemma put_commute: "invar m \<Longrightarrow> k \<noteq> k' \<Longrightarrow> put k v (put k' v' m) = put k' v' (put k v m)"
  by (rule map_ext) (auto simp: invar_put get_put)

lemma put_same: "invar m \<Longrightarrow> get m k = Some v \<Longrightarrow> put k v m = m"
  by (rule map_ext) (auto simp: invar_put get_put)

lemma erase_put: "invar m \<Longrightarrow> get m k = None \<Longrightarrow> erase k (put k v m) = m"
  by (rule map_ext) (auto simp: invar_put invar_erase get_put get_erase)

end

section \<open>Sorted association lists provide it\<close>

lemma wf_map_Nil [simp]: "wf_map []"
  by (simp add: wf_map_def)

lemma wf_map_Cons: "wf_map ((k, v) # m) \<longleftrightarrow> (\<forall>k' \<in> fst ` set m. k < k') \<and> wf_map m"
  by (auto simp: wf_map_def)

lemma keys_map_set: "fst ` set (map_set k v m) = insert k (fst ` set m)"
  by (induction m rule: map_set.induct) auto

lemma wf_map_set: "wf_map m \<Longrightarrow> wf_map (map_set k v m)"
  by (induction m rule: map_set.induct) (auto simp: wf_map_Cons keys_map_set)

lemma wf_map_erase: "wf_map m \<Longrightarrow> wf_map (map_erase k m)"
  by (induction m) (auto simp: wf_map_Cons map_erase_def)

lemma map_of_map_set: "wf_map m \<Longrightarrow> map_of (map_set k v m) k' = (if k' = k then Some v else map_of m k')"
proof (induction m)
  case (Cons e m)
  obtain a b where e: "e = (a, b)" by (cases e)
  have "k < a \<Longrightarrow> map_of m k = None" using Cons.prems by (force simp: e wf_map_Cons map_of_eq_None_iff)
  then show ?case using Cons by (auto simp: e wf_map_Cons)
qed simp

lemma map_of_map_erase: "map_of (map_erase k m) k' = (if k' = k then None else map_of m k')"
  by (induction m) (auto simp: map_erase_def)

lemma map_set_append:
  "\<forall>k' \<in> fst ` set m. k' < k \<Longrightarrow> map_set k v m = m @ [(k, v)]"
  by (induction m) (auto simp: not_less_iff_gr_or_eq)

lemma snd_map_set: "set (map snd (map_set k v m)) \<subseteq> insert v (set (map snd m))"
  by (induction m rule: map_set.induct) auto

interpretation sm: ordered_map "[]" map_set map_get map_erase "\<lambda>m. m" wf_map
  by unfold_locales
    (auto simp: wf_map_set wf_map_erase map_get_def map_of_map_set map_of_map_erase
      wf_map_def[symmetric])

lemmas map_laws = sm.get_put sm.get_erase sm.get_empty sm.invar_put sm.invar_erase

declare wf_map_set [wf_intros] wf_map_erase [wf_intros]

text \<open>
  Inserting the entries of a sorted list one by one rebuilds it: the loop of a parser
  over a dictionary that was printed in order.
\<close>

lemma foldl_map_set_sorted:
  "wf_map (acc @ m) \<Longrightarrow> foldl (\<lambda>a (k, v). map_set k v a) acc m = acc @ m"
proof (induction m arbitrary: acc)
  case (Cons e m)
  obtain k v where e: "e = (k, v)" by (cases e)
  from Cons.prems have "\<forall>k' \<in> fst ` set acc. k' < k"
    by (auto simp: wf_map_def sorted_wrt_append e)
  then have "map_set k v acc = acc @ [e]" by (simp add: map_set_append e)
  with Cons.IH[of "acc @ [e]"] Cons.prems show ?case by (simp add: e)
qed simp

end
