(* ===== verification/Codec.thy ===== *)
theory Codec
  imports Prelude
begin

text \<open>
  The interface between a printer and a parser that reads one item from the front of
  its input: both bencode implementations and the peer-wire framing provide it. The
  parser reports what it read and how many elements it consumed. From the one law
  (the parser undoes the printer in front of any rest) follow unique readability, the
  decoding of a sequence of items, and injectivity up to the printer's view.
\<close>

locale prefix_codec =
  fixes enc :: "'a \<Rightarrow> 'b list"
    and dec :: "'b list \<Rightarrow> ('c \<times> nat) option"
    and view :: "'a \<Rightarrow> 'c"
    and ok :: "'a \<Rightarrow> bool"
  assumes dec_enc: "ok x \<Longrightarrow> dec (enc x @ r) = Some (view x, length (enc x))"
    and enc_nonempty: "ok x \<Longrightarrow> enc x \<noteq> []"
begin

lemma dec_enc_exact: "ok x \<Longrightarrow> dec (enc x) = Some (view x, length (enc x))"
  using dec_enc[of x "[]"] by simp

lemma unique_prefix:
  assumes "ok x" "ok y" "enc x @ r = enc y @ r'"
  shows "view x = view y \<and> enc x = enc y \<and> r = r'"
proof -
  from assms have eq: "(view x, length (enc x)) = (view y, length (enc y))"
    by (metis dec_enc option.inject)
  with assms(3) have "enc x = enc y \<and> r = r'" by (simp add: append_eq_append_conv)
  with eq show ?thesis by simp
qed

lemma prefix_free: "ok x \<Longrightarrow> ok y \<Longrightarrow> enc x = enc y @ r \<Longrightarrow> r = []"
  using unique_prefix[of x y "[]" r] by simp

lemma enc_inj_view: "ok x \<Longrightarrow> ok y \<Longrightarrow> enc x = enc y \<Longrightarrow> view x = view y"
  using unique_prefix[of x y "[]" "[]"] by simp

lemma concat_unique:
  "\<forall>x \<in> set xs. ok x \<Longrightarrow> \<forall>y \<in> set ys. ok y \<Longrightarrow>
   concat (map enc xs) = concat (map enc ys) \<Longrightarrow> map view xs = map view ys"
proof (induction xs arbitrary: ys)
  case Nil
  then show ?case using enc_nonempty by (cases ys) auto
next
  case (Cons x xs)
  then obtain y ys' where ys: "ys = y # ys'" using enc_nonempty by (cases ys) auto
  with Cons.prems have "view x = view y \<and> concat (map enc xs) = concat (map enc ys')"
    using unique_prefix[of x y] by simp
  with Cons ys show ?case by simp
qed

end

end
