(* ===== verification/Transition.thy ===== *)
theory Transition
  imports Prelude
begin

text \<open>
  The interfaces of the state machines: a transition system with an inductive
  invariant, one that a simpler system simulates, and threads that share a state. Every stateful component (the
  shared queue, the piece manager, the peer connection) provides them.
\<close>

locale invariant_system =
  fixes init :: "'s \<Rightarrow> bool"
    and step :: "'s \<Rightarrow> 's \<Rightarrow> bool"
    and inv :: "'s \<Rightarrow> bool"
  assumes inv_init: "init s \<Longrightarrow> inv s"
    and inv_step: "inv s \<Longrightarrow> step s s' \<Longrightarrow> inv s'"
begin

lemma inv_steps: "step\<^sup>*\<^sup>* s s' \<Longrightarrow> inv s \<Longrightarrow> inv s'"
  by (induction rule: rtranclp_induct) (auto intro: inv_step)

lemma inv_reachable: "init s \<Longrightarrow> step\<^sup>*\<^sup>* s s' \<Longrightarrow> inv s'"
  using inv_steps inv_init by blast

lemma monotone_steps:
  assumes "step\<^sup>*\<^sup>* s s'" "inv s"
    and "\<And>t t'. inv t \<Longrightarrow> step t t' \<Longrightarrow> P t t'"
    and "\<And>t. P t t" "\<And>t t' t''. P t t' \<Longrightarrow> P t' t'' \<Longrightarrow> P t t''"
  shows "P s s'"
  using assms(1)
proof (induction rule: rtranclp_induct)
  case (step t t')
  with inv_steps[of s t] assms(2,3,5) show ?case by blast
qed (rule assms(4))

end

locale simulation = invariant_system +
  fixes astep :: "'a \<Rightarrow> 'a \<Rightarrow> bool"
    and abs :: "'s \<Rightarrow> 'a"
  assumes sim_step: "inv s \<Longrightarrow> step s s' \<Longrightarrow> astep\<^sup>*\<^sup>* (abs s) (abs s')"
begin

lemma sim_steps: "step\<^sup>*\<^sup>* s s' \<Longrightarrow> inv s \<Longrightarrow> astep\<^sup>*\<^sup>* (abs s) (abs s')"
proof (induction rule: rtranclp_induct)
  case (step t t')
  with inv_steps[of s t] sim_step[of t t'] show ?case by auto
qed simp

end

text \<open>
  Threads that share a state, after the rely-guarantee method: what a thread promises of the shared state is
  \<open>guar\<close>, and its step does not disturb the assertion of a thread it is \<open>apart\<close> from.
\<close>

locale rely_guarantee =
  fixes step :: "'g \<times> 'l \<Rightarrow> 'g \<times> 'l \<Rightarrow> bool"
    and shared :: "'g \<Rightarrow> bool"
    and own :: "'g \<Rightarrow> 'l \<Rightarrow> bool"
    and guar :: "'g \<Rightarrow> 'g \<Rightarrow> bool"
    and apart :: "'l \<Rightarrow> 'l \<Rightarrow> bool"
  assumes step_ok: "shared g \<Longrightarrow> own g l \<Longrightarrow> step (g, l) (g', l') \<Longrightarrow> shared g' \<and> own g' l' \<and> guar g g'"
    and stable: "shared g \<Longrightarrow> own g l \<Longrightarrow> step (g, l) (g', l') \<Longrightarrow> own g k \<Longrightarrow> apart l k \<Longrightarrow> own g' k"
begin

lemma one_of_many:
  assumes "shared g" "\<forall>k < length ls. own g (ls ! k)" "i < length ls" "step (g, ls ! i) (g', l')"
    and "\<forall>k < length ls. k \<noteq> i \<longrightarrow> apart (ls ! i) (ls ! k)"
  shows "shared g'" "guar g g'" "\<forall>k < length ls. own g' (ls[i := l'] ! k)"
proof -
  have o: "own g (ls ! i)" using assms(2,3) by blast
  show "shared g'" "guar g g'" using step_ok[OF assms(1) o assms(4)] by auto
  show "\<forall>k < length ls. own g' (ls[i := l'] ! k)"
  proof (intro allI impI)
    fix k assume "k < length ls"
    then show "own g' (ls[i := l'] ! k)"
      using step_ok[OF assms(1) o assms(4)] stable[OF assms(1) o assms(4)] assms(2,5) by (cases "k = i") auto
  qed
qed

end

end
