(* ===== verification/Bencode.thy ===== *)
theory Bencode
  imports StdMap Codec
begin

text \<open>
  The bencode values, encoder and decoder of \<open>src/bencode\<close> and
  \<open>includes/valueTypes.h\<close>. The value type is the source's variant; a dictionary is a
  \<open>std::map\<close>, hence a sorted association list (theory StdMap).
  \<open>boost::lexical_cast<unsigned long long>\<close> is not under src/: it is the parameter
  \<open>lc\<close> of the decoder, and what the code relies on is \<open>lexcast_ok\<close>.
  Offsets are \<open>int\<close> in the source and \<open>nat\<close> here; they agree for inputs of at most
  \<open>INT_MAX\<close> bytes, which the properties state as a hypothesis. The one sum of lengths
  that can overflow on short inputs (a huge length prefix) is checked explicitly.
\<close>

datatype bvalue =
    VInt cint
  | VULL cull
  | VStr string
  | VList "bvalue list"
  | VDict "(string, bvalue) smap"

text \<open>\<open>boost::get<T>(&v)\<close>: the alternative of a variant, or a null pointer.\<close>

fun as_int :: "bvalue \<Rightarrow> cint option" where
  "as_int (VInt i) = Some i" | "as_int _ = None"

fun as_ull :: "bvalue \<Rightarrow> cull option" where
  "as_ull (VULL n) = Some n" | "as_ull _ = None"

fun as_str :: "bvalue \<Rightarrow> string option" where
  "as_str (VStr s) = Some s" | "as_str _ = None"

fun as_list :: "bvalue \<Rightarrow> bvalue list option" where
  "as_list (VList vs) = Some vs" | "as_list _ = None"

fun as_dict :: "bvalue \<Rightarrow> (string, bvalue) smap option" where
  "as_dict (VDict d) = Some d" | "as_dict _ = None"

lemma as_alternative_Some [simp]:
  "as_int v = Some i \<longleftrightarrow> v = VInt i" "as_ull v = Some n \<longleftrightarrow> v = VULL n"
  "as_str v = Some s \<longleftrightarrow> v = VStr s" "as_list v = Some vs \<longleftrightarrow> v = VList vs"
  "as_dict v = Some d \<longleftrightarrow> v = VDict d"
  by (cases v; auto)+

section \<open>Encoder\<close>

text \<open>
  \<open>EncodeVisitor\<close>: it has no overload for \<open>unsigned long long\<close>, so such a value is
  converted to \<open>int\<close> (modulo \<open>2 ^ 32\<close>) by overload resolution.
\<close>

definition encode_int :: "cint \<Rightarrow> string res" where
  "encode_int i = Inr (''i'' @ dec_int (sint i) @ ''e'')"

definition encode_str :: "string \<Rightarrow> string res" where
  "encode_str s =
     (if s = [] then Inl (InvalidArgument ''The line is empty'')
      else Inr (dec_nat (length s) @ '':'' @ s))"

fun encode :: "bvalue \<Rightarrow> string res"
  and encode_dict :: "(string, bvalue) smap \<Rightarrow> string res"
  and encode_list :: "bvalue list \<Rightarrow> string res" where
  "encode (VInt i) = encode_int i"
| "encode (VULL n) = encode_int (ucast n)"
| "encode (VStr s) = encode_str s"
| "encode (VDict d) = rbind (encode_dict d) (\<lambda>t. Inr (''d'' @ t @ ''e''))"
| "encode (VList vs) = rbind (encode_list vs) (\<lambda>t. Inr (''l'' @ t @ ''e''))"
| "encode_dict [] = Inr []"
| "encode_dict ((k, v) # d) =
     rbind (encode_str k) (\<lambda>a. rbind (encode v) (\<lambda>b.
     rbind (encode_dict d) (\<lambda>c. Inr (a @ b @ c))))"
| "encode_list [] = Inr []"
| "encode_list (v # vs) =
     rbind (encode v) (\<lambda>a. rbind (encode_list vs) (\<lambda>b. Inr (a @ b)))"

section \<open>Decoder\<close>

type_synonym lexcast = "string \<Rightarrow> cull option"

definition lexcast_ok :: "lexcast \<Rightarrow> bool" where
  "lexcast_ok lc \<longleftrightarrow> (\<forall>n < 2 ^ 64. lc (dec_nat n) = Some (of_nat n))"

fun firstDigit_loop :: "string \<Rightarrow> string \<Rightarrow> string" where
  "firstDigit_loop number [] = number"
| "firstDigit_loop number (ch # str) =
     (if isdigit ch then firstDigit_loop (number @ [ch]) str
      else if number \<noteq> [] then number
      else firstDigit_loop number str)"

definition firstDigit :: "string \<Rightarrow> string" where
  "firstDigit str = firstDigit_loop [] str"

text \<open>\<open>std::stoi\<close> on a non-empty string of digits.\<close>

definition stoi_digits :: "string \<Rightarrow> nat res" where
  "stoi_digits ds = (if dec_val ds \<le> int_max then Inr (dec_val ds) else Inl OutOfRange)"

definition decodeInt :: "lexcast \<Rightarrow> string \<Rightarrow> (cull \<times> nat) res" where
  "decodeInt lc s =
     (case find_char (CHR ''e'') s of
        None \<Rightarrow> Inl (InvalidArgument
                 (''Invalid integer encoding: missing '' @ [CHR 0x27, CHR ''e'', CHR 0x27]))
      | Some eIndex \<Rightarrow>
          rbind (if eIndex = 0 then substr_from s 1 else substr s 1 (eIndex - 1)) (\<lambda>intPart.
          (case lc intPart of
             None \<Rightarrow> Inl (InvalidArgument (''Invalid integer value: '' @ intPart))
           | Some value \<Rightarrow> Inr (value, eIndex + 1))))"

definition decodestring :: "string \<Rightarrow> (string \<times> nat) res" where
  "decodestring s =
     (if s = [] \<or> \<not> isdigit (hd s)
      then Inl (InvalidArgument ''Invalid string encoding: missing length'')
      else
        (let lengthPart = firstDigit s; digitsInString = length lengthPart in
         rbind (stoi_digits lengthPart) (\<lambda>len.
           if length s < digitsInString + 1 \<or> s ! digitsInString \<noteq> CHR '':''
           then Inl (InvalidArgument ''Invalid string encoding: missing colon'')
           else if int_max < digitsInString + 1 + len then Inl (Undefined SignedOverflow)
           else if length s < digitsInString + 1 + len
           then Inl (InvalidArgument ''Invalid string encoding: length exceeds available data'')
           else rbind (substr s (digitsInString + 1) len) (\<lambda>str.
                  Inr (str, digitsInString + 1 + len)))))"

text \<open>
  \<open>_decode\<close> with the loops of \<open>decodeList\<close> and \<open>decodeDict\<close>; the fuel bounds the
  nesting of calls and loop rounds. Neither loop requires the closing \<open>'e'\<close>.
\<close>

fun decode_at :: "lexcast \<Rightarrow> nat \<Rightarrow> string \<Rightarrow> (bvalue \<times> nat) res"
  and decodeList_loop :: "lexcast \<Rightarrow> nat \<Rightarrow> string \<Rightarrow> nat \<Rightarrow> bvalue list \<Rightarrow> (bvalue list \<times> nat) res"
  and decodeDict_loop :: "lexcast \<Rightarrow> nat \<Rightarrow> string \<Rightarrow> nat \<Rightarrow> (string, bvalue) smap
                            \<Rightarrow> ((string, bvalue) smap \<times> nat) res" where
  "decode_at lc 0 s = Inl OutOfFuel"
| "decode_at lc (Suc f) s =
     (if s = [] then Inl (InvalidArgument ''Cannot decode empty string'')
      else if hd s = CHR ''i'' then rbind (decodeInt lc s) (\<lambda>(v, n). Inr (VULL v, n))
      else if hd s = CHR ''l'' then
        rbind (decodeList_loop lc f s 1 []) (\<lambda>(xs, n). Inr (VList xs, n))
      else if hd s = CHR ''d'' then
        rbind (decodeDict_loop lc f s 1 []) (\<lambda>(d, n). Inr (VDict d, n))
      else rbind (decodestring s) (\<lambda>(str, n). Inr (VStr str, n)))"
| "decodeList_loop lc 0 s index xs = Inl OutOfFuel"
| "decodeList_loop lc (Suc f) s index xs =
     (if index < length s then
        if s ! index = CHR ''e'' then Inr (xs, index + 1)
        else rbind (substr_from s index) (\<lambda>t.
             rbind (decode_at lc f t) (\<lambda>(value, offset).
               decodeList_loop lc f s (index + offset) (xs @ [value])))
      else Inr (xs, index))"
| "decodeDict_loop lc 0 s index dict = Inl OutOfFuel"
| "decodeDict_loop lc (Suc f) s index dict =
     (if index < length s then
        if s ! index = CHR ''e'' then Inr (dict, index + 1)
        else rbind (substr_from s index) (\<lambda>t.
             rbind (decode_at lc f t) (\<lambda>(keyValue, keyOffset).
               case as_str keyValue of
                 Some keyStr \<Rightarrow>
                   rbind (substr_from s (index + keyOffset)) (\<lambda>t'.
                   rbind (decode_at lc f t') (\<lambda>(value, valueOffset).
                     decodeDict_loop lc f s (index + keyOffset + valueOffset)
                       (map_set keyStr value dict)))
               | None \<Rightarrow> Inl (InvalidArgument ''Invalid dictionary key: key must be a string'')))
      else Inr (dict, index))"

text \<open>Fuel that suffices for an input of length \<open>n\<close> (proved below).\<close>

definition decode_fuel :: "string \<Rightarrow> nat" where
  "decode_fuel s = 2 * length s + 2"

definition decode_prefix :: "lexcast \<Rightarrow> string \<Rightarrow> (bvalue \<times> nat) res" where
  "decode_prefix lc s = decode_at lc (decode_fuel s) s"

definition decode :: "lexcast \<Rightarrow> string \<Rightarrow> bvalue res" where
  "decode lc s = rbind (decode_prefix lc s) (\<lambda>(v, _). Inr v)"

section \<open>The decoder stops and stays inside its input\<close>

lemma decodeInt_bounds: "decodeInt lc s = Inr (v, n) \<Longrightarrow> 0 < n \<and> n \<le> length s"
  by (auto simp: decodeInt_def rbind_Inr_iff split: option.splits dest!: find_char_Some)

lemma decodestring_bounds: "decodestring s = Inr (v, n) \<Longrightarrow> 0 < n \<and> n \<le> length s"
  by (auto simp: decodestring_def rbind_Inr_iff Let_def split: if_splits)

lemma decode_at_InrE:
  assumes "decode_at lc (Suc f) s = Inr (v, n)"
  obtains (int) x where "s \<noteq> []" "hd s = CHR ''i''" "decodeInt lc s = Inr (x, n)" "v = VULL x"
  | (list) xs where "s \<noteq> []" "hd s = CHR ''l''" "decodeList_loop lc f s 1 [] = Inr (xs, n)" "v = VList xs"
  | (dict) d where "s \<noteq> []" "hd s = CHR ''d''" "decodeDict_loop lc f s 1 [] = Inr (d, n)" "v = VDict d"
  | (str) x where "s \<noteq> []" "hd s \<notin> {CHR ''i'', CHR ''l'', CHR ''d''}"
      "decodestring s = Inr (x, n)" "v = VStr x"
  using assms by (auto simp: rbind_Inr_iff split: if_splits)

lemma decodeList_loop_InrE:
  assumes "decodeList_loop lc (Suc f) s i xs = Inr (ys, n)"
  obtains (stop) "length s \<le> i" "ys = xs" "n = i"
  | (close) "i < length s" "s ! i = CHR ''e''" "ys = xs" "n = i + 1"
  | (item) v k where "i < length s" "s ! i \<noteq> CHR ''e''" "decode_at lc f (drop i s) = Inr (v, k)"
      "decodeList_loop lc f s (i + k) (xs @ [v]) = Inr (ys, n)"
  using assms by (auto simp: rbind_Inr_iff substr_from_def split: if_splits)

lemma decodeDict_loop_InrE:
  assumes "decodeDict_loop lc (Suc f) s i d = Inr (d', n)"
  obtains (stop) "length s \<le> i" "d' = d" "n = i"
  | (close) "i < length s" "s ! i = CHR ''e''" "d' = d" "n = i + 1"
  | (item) key k v m where "i < length s" "s ! i \<noteq> CHR ''e''"
      "decode_at lc f (drop i s) = Inr (VStr key, k)" "i + k \<le> length s"
      "decode_at lc f (drop (i + k) s) = Inr (v, m)"
      "decodeDict_loop lc f s (i + k + m) (map_set key v d) = Inr (d', n)"
  using assms by (auto simp: rbind_Inr_iff substr_from_def split: if_splits option.splits)

lemma decode_bounds:
  "decode_at lc f s = Inr (v, n) \<Longrightarrow> 0 < n \<and> n \<le> length s"
  "decodeList_loop lc f s i xs = Inr (ys, n) \<Longrightarrow> i \<le> length s \<Longrightarrow> i \<le> n \<and> n \<le> length s"
  "decodeDict_loop lc f s i d = Inr (d', n) \<Longrightarrow> i \<le> length s \<Longrightarrow> i \<le> n \<and> n \<le> length s"
proof (induction f arbitrary: s v n i xs ys d d')
  case (Suc f)
  {
    case 1
    then show ?case
      by (cases rule: decode_at_InrE)
        (use decodeInt_bounds decodestring_bounds Suc.IH(2,3)[of s 1] in \<open>force simp: Suc_le_eq\<close>)+
  next
    case 2
    then show ?case
    proof (cases rule: decodeList_loop_InrE)
      case (item v k)
      with Suc.IH(1)[of "drop i s" v k] Suc.IH(2)[of s "i + k"] show ?thesis by fastforce
    qed auto
  next
    case 3
    then show ?case
    proof (cases rule: decodeDict_loop_InrE)
      case (item key k v m)
      with Suc.IH(1)[of "drop i s" "VStr key" k] Suc.IH(1)[of "drop (i + k) s" v m]
        Suc.IH(3)[of s "i + k + m"] show ?thesis by fastforce
    qed auto
  }
qed auto

text \<open>With fuel for the unread part of the input the recursion never runs out.\<close>

lemma decodeInt_fuel: "decodeInt lc s \<noteq> Inl OutOfFuel"
  by (auto simp: decodeInt_def rbind_Inl_iff substr_def substr_from_def split: option.splits)

lemma decodestring_fuel: "decodestring s \<noteq> Inl OutOfFuel"
  by (auto simp: decodestring_def rbind_Inl_iff substr_def stoi_digits_def Let_def)

lemma decode_enough_fuel:
  "0 < f \<Longrightarrow> 2 * length s \<le> f \<Longrightarrow> decode_at lc f s \<noteq> Inl OutOfFuel"
  "i \<le> length s \<Longrightarrow> 2 * (length s - i) < f \<Longrightarrow> decodeList_loop lc f s i xs \<noteq> Inl OutOfFuel"
  "i \<le> length s \<Longrightarrow> 2 * (length s - i) < f \<Longrightarrow> decodeDict_loop lc f s i d \<noteq> Inl OutOfFuel"
proof (induction f arbitrary: s i xs d)
  case (Suc f)
  {
    case 1
    show ?case
    proof (cases "s = []")
      case False
      then have "1 \<le> length s" by (simp add: Suc_le_eq)
      with 1 Suc.IH(2,3)[of 1 s "[]"] show ?thesis
        by (auto simp: rbind_Inl_iff decodeInt_fuel decodestring_fuel)
    qed simp
  next
    case 2
    show ?case
    proof
      assume *: "decodeList_loop lc (Suc f) s i xs = Inl OutOfFuel"
      with 2 have i: "i < length s" by (auto split: if_splits)
      with 2 have "decode_at lc f (drop i s) \<noteq> Inl OutOfFuel"
        by (intro Suc.IH(1)) auto
      with * i obtain v k where v: "decode_at lc f (drop i s) = Inr (v, k)"
        and l: "decodeList_loop lc f s (i + k) (xs @ [v]) = Inl OutOfFuel"
        by (auto simp: rbind_Inl_iff substr_from_def split: if_splits)
      from decode_bounds(1)[OF v] 2 i have "i + k \<le> length s" "2 * (length s - (i + k)) < f" by auto
      with Suc.IH(2) l show False by blast
    qed
  next
    case 3
    show ?case
    proof
      assume *: "decodeDict_loop lc (Suc f) s i d = Inl OutOfFuel"
      with 3 have i: "i < length s" by (auto split: if_splits)
      with 3 have "decode_at lc f (drop i s) \<noteq> Inl OutOfFuel"
        by (intro Suc.IH(1)) auto
      with * i obtain key k where k: "decode_at lc f (drop i s) = Inr (VStr key, k)"
        and r: "rbind (substr_from s (i + k)) (\<lambda>t'. rbind (decode_at lc f t') (\<lambda>(value, m).
             decodeDict_loop lc f s (i + k + m) (map_set key value d))) = Inl OutOfFuel"
        by (auto simp: rbind_Inl_iff substr_from_def split: if_splits option.splits)
      from decode_bounds(1)[OF k] i have ik: "i + k \<le> length s" "0 < k" by auto
      with 3 have "decode_at lc f (drop (i + k) s) \<noteq> Inl OutOfFuel"
        by (intro Suc.IH(1)) auto
      with r ik obtain v m where v: "decode_at lc f (drop (i + k) s) = Inr (v, m)"
        and l: "decodeDict_loop lc f s (i + k + m) (map_set key v d) = Inl OutOfFuel"
        by (auto simp: rbind_Inl_iff substr_from_def)
      from decode_bounds(1)[OF v] ik 3 have "i + k + m \<le> length s" "2 * (length s - (i + k + m)) < f"
        by auto
      with Suc.IH(3) l show False by blast
    qed
  }
qed auto

text \<open>What ends the decoder: one of the source's exceptions, or the overflow of the length of a string.\<close>

definition decode_stops :: "cxx_error \<Rightarrow> bool" where
  "decode_stops e \<longleftrightarrow> is_exception e \<or> e = Undefined SignedOverflow"

lemma decode_stops_exception: "is_exception e \<Longrightarrow> decode_stops e"
  by (simp add: decode_stops_def)

lemma decodeInt_stops: "decodeInt lc s = Inl e \<Longrightarrow> decode_stops e"
  by (auto simp: decodeInt_def decode_stops_def rbind_Inl_iff substr_def substr_from_def split: option.splits if_splits)

lemma decodestring_stops: "decodestring s = Inl e \<Longrightarrow> decode_stops e"
  by (auto simp: decodestring_def decode_stops_def rbind_Inl_iff substr_def stoi_digits_def Let_def split: if_splits)

lemma decode_at_stops:
  "decode_at lc f s = Inl e \<Longrightarrow> e = OutOfFuel \<or> decode_stops e"
  "decodeList_loop lc f s i xs = Inl e \<Longrightarrow> e = OutOfFuel \<or> decode_stops e"
  "decodeDict_loop lc f s i d = Inl e \<Longrightarrow> e = OutOfFuel \<or> decode_stops e"
proof (induction f arbitrary: s i xs d e)
  case (Suc f)
  {
    case 1
    then show ?case
      by (auto simp: rbind_Inl_iff dest: Suc.IH(2,3) decodeInt_stops decodestring_stops intro: decode_stops_exception split: if_splits)
  next
    case 2
    then show ?case
      by (auto simp: rbind_Inl_iff substr_from_def dest: Suc.IH(1,2) intro: decode_stops_exception split: if_splits)
  next
    case 3
    then show ?case
      by (auto simp: rbind_Inl_iff substr_from_def dest: Suc.IH(1,3) intro: decode_stops_exception split: if_splits option.splits)
  }
qed auto

text \<open>More fuel does not change a result, so the fuel is not observable.\<close>

lemma decode_more_fuel:
  "decode_at lc f s = Inr p \<Longrightarrow> decode_at lc (f + k) s = Inr p"
  "decodeList_loop lc f s i xs = Inr q \<Longrightarrow> decodeList_loop lc (f + k) s i xs = Inr q"
  "decodeDict_loop lc f s i d = Inr r \<Longrightarrow> decodeDict_loop lc (f + k) s i d = Inr r"
proof (induction f arbitrary: s p i xs q d r)
  case (Suc f)
  {
    case 1
    then show ?case
      by (auto simp: rbind_Inr_iff dest!: Suc.IH(2,3) split: if_splits)
  next
    case 2
    then show ?case
      by (auto simp: rbind_Inr_iff dest!: Suc.IH(1,2) split: if_splits)
  next
    case 3
    then show ?case
      by (fastforce simp: rbind_Inr_iff dest!: Suc.IH(1,3) split: if_splits option.splits)
  }
qed auto

section \<open>Well-formed values\<close>

fun wfv :: "bvalue \<Rightarrow> bool" where
  "wfv (VList vs) = list_all wfv vs"
| "wfv (VDict d) = (wf_map d \<and> list_all (\<lambda>(k, v). wfv v) d)"
| "wfv _ = True"

lemma wfv_map_set:
  "list_all (\<lambda>(k, v). wfv v) d \<Longrightarrow> wfv v \<Longrightarrow> list_all (\<lambda>(k, v). wfv v) (map_set k v d)"
  by (induction k v d rule: map_set.induct) auto

lemma decode_wfv:
  "decode_at lc f s = Inr (v, n) \<Longrightarrow> wfv v"
  "decodeList_loop lc f s i xs = Inr (ys, n) \<Longrightarrow> list_all wfv xs \<Longrightarrow> list_all wfv ys"
  "decodeDict_loop lc f s i d = Inr (d', n) \<Longrightarrow> wfv (VDict d) \<Longrightarrow> wfv (VDict d')"
proof (induction f arbitrary: s v n i xs ys d d')
  case (Suc f)
  {
    case 1
    then show ?case
      by (cases rule: decode_at_InrE) (auto dest: Suc.IH(2,3))
  next
    case 2
    then show ?case
      by (cases rule: decodeList_loop_InrE) (auto dest!: Suc.IH(1,2))
  next
    case 3
    then show ?case
    proof (cases rule: decodeDict_loop_InrE)
      case (item key k v m)
      from Suc.IH(1)[OF item(5)] 3(2) have "wfv (VDict (map_set key v d))"
        by (simp add: wf_map_set wfv_map_set)
      with Suc.IH(3)[OF item(6)] show ?thesis by simp
    qed auto
  }
qed auto

section \<open>Round trip\<close>

text \<open>
  \<open>encodable\<close>: the values the encoder writes without loss: integers that fit a
  non-negative \<open>int\<close>, and non-empty strings whose length prefix the decoder accepts.
  \<open>normv\<close> is what the decoder reads back: every integer as \<open>unsigned long long\<close>.
\<close>

definition str_ok :: "string \<Rightarrow> bool" where
  "str_ok s \<longleftrightarrow> s \<noteq> [] \<and> length (dec_nat (length s)) + 1 + length s \<le> int_max"

fun encodable :: "bvalue \<Rightarrow> bool" where
  "encodable (VInt i) = (0 \<le> sint i)"
| "encodable (VULL n) = (unat n \<le> int_max)"
| "encodable (VStr s) = str_ok s"
| "encodable (VList vs) = list_all encodable vs"
| "encodable (VDict d) = (wf_map d \<and> list_all (\<lambda>(k, v). str_ok k \<and> encodable v) d)"

fun normv :: "bvalue \<Rightarrow> bvalue" where
  "normv (VInt i) = VULL (ucast i)"
| "normv (VULL n) = VULL n"
| "normv (VStr s) = VStr s"
| "normv (VList vs) = VList (map normv vs)"
| "normv (VDict d) = VDict (map (\<lambda>(k, v). (k, normv v)) d)"

lemma decodeInt_dec:
  assumes "lexcast_ok lc" "n < 2 ^ 64"
  shows "decodeInt lc (CHR ''i'' # dec_nat n @ CHR ''e'' # r) = Inr (of_nat n, length (dec_nat n) + 2)"
proof -
  have "find_char (CHR ''e'') (CHR ''i'' # dec_nat n @ CHR ''e'' # r) = Some (Suc (length (dec_nat n)))"
    by (simp add: find_char_append)
  with assms show ?thesis by (simp add: decodeInt_def substr_def lexcast_ok_def)
qed

lemma firstDigit_loop_number:
  "number \<noteq> [] \<Longrightarrow> firstDigit_loop number str = number @ takeWhile isdigit str"
  by (induction number str rule: firstDigit_loop.induct) auto

lemma firstDigit_eq: "firstDigit str = takeWhile isdigit (dropWhile (\<lambda>c. \<not> isdigit c) str)"
  by (induction str) (auto simp: firstDigit_def firstDigit_loop_number)

lemma decodestring_dec:
  assumes "str_ok s"
  shows "decodestring (dec_nat (length s) @ CHR '':'' # s @ r)
    = Inr (s, length (dec_nat (length s)) + 1 + length s)"
proof -
  let ?d = "dec_nat (length s)"
  have "dropWhile (\<lambda>c. \<not> isdigit c) (?d @ CHR '':'' # s @ r) = ?d @ CHR '':'' # s @ r"
    using dec_nat_hd_digit[of "length s"] by (cases ?d) auto
  then have "firstDigit (?d @ CHR '':'' # s @ r) = ?d"
    by (simp add: firstDigit_eq takeWhile_dec_nat)
  moreover have "hd (?d @ CHR '':'' # s @ r) = hd ?d" by simp
  ultimately show ?thesis
    using assms dec_nat_hd_digit[of "length s"]
    by (simp add: decodestring_def stoi_digits_def str_ok_def substr_def nth_append)
qed

lemma sint_nonneg: "0 \<le> sint (i :: cint) \<Longrightarrow> sint i = uint i"
proof -
  assume "0 \<le> sint i"
  moreover have "sint i < 2 ^ 31" using sint_lt[of i] by simp
  ultimately have "take_bit 32 (sint i) = sint i" by (simp add: take_bit_int_eq_self)
  moreover have "uint i = take_bit LENGTH(32) (sint i)" by (rule uint_sint)
  ultimately show ?thesis by simp
qed

lemma sint_ucast_small: "unat (n :: cull) \<le> int_max \<Longrightarrow> sint (ucast n :: cint) = uint n"
proof -
  assume "unat n \<le> int_max"
  then have "int (unat n) \<le> 2147483647" by (simp only: int_max_def)
  then have "uint n \<le> 2147483647" by simp
  moreover have "- (2 ^ 31) \<le> uint n" by (rule order_trans[of _ 0]) simp_all
  ultimately have "signed_take_bit 31 (uint n) = uint n"
    by (intro signed_take_bit_int_eq_self) simp_all
  then show ?thesis by (simp add: signed_ucast_eq)
qed

lemma unat_ucast_small: "unat (n :: cull) \<le> int_max \<Longrightarrow> unat (ucast n :: cint) = unat n"
  by (simp add: unsigned_ucast_eq take_bit_nat_eq_self int_max_def)

lemma dec_int_uint [simp]: "dec_int (uint w) = dec_nat (unat w)"
  by (simp add: dec_int_def)

lemma dec_int_of_nat [simp]: "dec_int (int n) = dec_nat n"
  by (simp add: dec_int_def)

lemma encode_hd:
  "encode v = Inr t \<Longrightarrow> t \<noteq> [] \<and> hd t \<noteq> CHR ''e''"
  "encode_str s = Inr t \<Longrightarrow> t \<noteq> [] \<and> isdigit (hd t)"
proof -
  show *: "encode_str s = Inr t \<Longrightarrow> t \<noteq> [] \<and> isdigit (hd t)" for s t
    by (auto simp: encode_str_def dec_nat_hd_digit split: if_splits)
  show "encode v = Inr t \<Longrightarrow> t \<noteq> [] \<and> hd t \<noteq> CHR ''e''"
  proof (cases v)
    case (VStr s)
    then show "encode v = Inr t \<Longrightarrow> t \<noteq> [] \<and> hd t \<noteq> CHR ''e''" using *[of s t] by auto
  qed (auto simp: encode_int_def rbind_Inr_iff)
qed

lemma decode_at_str:
  assumes "str_ok s" "encode_str s = Inr t" "0 < f"
  shows "decode_at lc f (t @ r) = Inr (VStr s, length t)"
proof -
  from assms(2) have t: "t = dec_nat (length s) @ CHR '':'' # s"
    by (auto simp: encode_str_def split: if_splits)
  from encode_hd(2)[OF assms(2)] have "isdigit (hd (t @ r))" "t @ r \<noteq> []" by auto
  then have "decode_at lc f (t @ r) = rbind (decodestring (t @ r)) (\<lambda>(str, n). Inr (VStr str, n))"
    using assms(3) by (cases f) auto
  also have "decodestring (t @ r) = Inr (s, length t)"
    using decodestring_dec[OF assms(1), of r] by (simp add: t)
  finally show ?thesis by simp
qed

lemma decode_at_int:
  assumes "lexcast_ok lc" "encode_int i = Inr t" "0 \<le> sint i" "0 < f"
  shows "decode_at lc f (t @ r) = Inr (VULL (of_nat (unat i)), length t)"
proof -
  have "unat i < 2 ^ 64" using unsigned_less[of i, where ?'a = nat] by simp
  with decodeInt_dec[OF assms(1) this, of r] assms(2-) show ?thesis
    by (cases f) (auto simp: encode_int_def sint_nonneg)
qed


lemma decode_encode_gen:
  assumes lc: "lexcast_ok lc"
  shows "encode v = Inr t \<Longrightarrow> encodable v \<Longrightarrow> 0 < f \<Longrightarrow> 2 * length t \<le> f
      \<Longrightarrow> decode_at lc f (t @ r) = Inr (normv v, length t)"
    and "encode_dict d = Inr u \<Longrightarrow> encodable (VDict d) \<Longrightarrow> 2 * length u < f
      \<Longrightarrow> decodeDict_loop lc f (p @ u @ CHR ''e'' # r) (length p) acc
        = Inr (foldl (\<lambda>a (k, v). map_set k v a) acc (map (\<lambda>(k, v). (k, normv v)) d), length (p @ u) + 1)"
    and "encode_list vs = Inr w \<Longrightarrow> list_all encodable vs \<Longrightarrow> 2 * length w < f
      \<Longrightarrow> decodeList_loop lc f (p @ w @ CHR ''e'' # r) (length p) xs
        = Inr (xs @ map normv vs, length (p @ w) + 1)"
proof (induction v and d and vs arbitrary: t f r and u f p r acc and w f p r xs
    rule: encode_encode_dict_encode_list.induct)
  case (1 i)
  then show ?case using decode_at_int[OF lc, of i t f r] by simp
next
  case (2 n)
  then have "0 \<le> sint (ucast n :: cint)" "unat (ucast n :: cint) = unat n"
    by (simp_all add: sint_ucast_small unat_ucast_small)
  with 2 show ?case using decode_at_int[OF lc, of "ucast n" t f r] by simp
next
  case (3 s)
  then show ?case using decode_at_str[of s t f lc r] by simp
next
  case (4 d)
  then obtain u where u: "encode_dict d = Inr u" "t = ''d'' @ u @ ''e''" by (auto simp: rbind_Inr_iff)
  obtain f' where f: "f = Suc f'" using 4 by (cases f) auto
  have wf: "wf_map (map (\<lambda>(k, v). (k, normv v)) d)"
    using "4.prems"(2) by (simp add: wf_map_def case_prod_unfold comp_def)
  have "2 * length u < f'" using "4.prems"(4) u f by simp
  from "4.IH"[OF u(1) "4.prems"(2) this, of "''d''" r "[]"]
  have "decodeDict_loop lc f' (''d'' @ u @ CHR ''e'' # r) 1 []
      = Inr (map (\<lambda>(k, v). (k, normv v)) d, length t)"
    using foldl_map_set_sorted[of "[]" "map (\<lambda>(k, v). (k, normv v)) d"] wf u by simp
  then show ?case by (simp add: u f)
next
  case (5 vs)
  then obtain u where u: "encode_list vs = Inr u" "t = ''l'' @ u @ ''e''" by (auto simp: rbind_Inr_iff)
  obtain f' where f: "f = Suc f'" using 5 by (cases f) auto
  have "2 * length u < f'" using "5.prems"(4) u f by simp
  from "5.IH"[OF u(1) _ this, of "''l''" r "[]"] "5.prems"(2)
  show ?case by (simp add: u f)
next
  case 6
  then show ?case by (cases f) (auto simp: nth_append)
next
  case (7 k v d)
  then obtain a b c where abc: "encode_str k = Inr a" "encode v = Inr b" "encode_dict d = Inr c"
      "u = a @ b @ c" by (auto simp: rbind_Inr_iff)
  obtain f' where f: "f = Suc f'" using "7.prems" by (cases f) auto
  let ?s = "p @ u @ CHR ''e'' # r"
  from "7.prems"(2) have ok: "str_ok k" "encodable v" "encodable (VDict d)"
    by (auto simp: wf_map_def)
  from encode_hd(2)[OF abc(1)] have a: "a \<noteq> []" "?s ! length p \<noteq> CHR ''e''"
    by (auto simp: abc nth_append hd_conv_nth)
  from encode_hd(1)[OF abc(2)] have b: "b \<noteq> []" by simp
  have ka: "decode_at lc f' (drop (length p) ?s) = Inr (VStr k, length a)"
    using decode_at_str[OF ok(1) abc(1), of f' lc] "7.prems"(3) a(1)
    by (cases a) (auto simp: abc f)
  have vb: "decode_at lc f' (drop (length p + length a) ?s) = Inr (normv v, length b)"
    using "7.IH"(1)[OF abc(1,2) ok(2), of f' "c @ CHR ''e'' # r"] "7.prems"(3) a(1) b
    by (cases a) (auto simp: abc f)
  have "decodeDict_loop lc f' ((p @ a @ b) @ c @ CHR ''e'' # r) (length (p @ a @ b))
      (map_set k (normv v) acc)
    = Inr (foldl (\<lambda>a (k, v). map_set k v a) (map_set k (normv v) acc)
        (map (\<lambda>(k, v). (k, normv v)) d), length ((p @ a @ b) @ c) + 1)"
    using "7.IH"(2)[OF abc(1-3) ok(3), of f' "p @ a @ b" r "map_set k (normv v) acc"] "7.prems"(3) a(1)
    by (cases a) (auto simp: abc f)
  with ka vb a show ?case
    by (simp add: f abc substr_from_def add.assoc)
next
  case 8
  then show ?case by (cases f) (auto simp: nth_append)
next
  case (9 v vs)
  then obtain a b where ab: "encode v = Inr a" "encode_list vs = Inr b" "w = a @ b"
    by (auto simp: rbind_Inr_iff)
  obtain f' where f: "f = Suc f'" using "9.prems" by (cases f) auto
  let ?s = "p @ w @ CHR ''e'' # r"
  from encode_hd(1)[OF ab(1)] have a: "a \<noteq> []" "?s ! length p \<noteq> CHR ''e''"
    by (auto simp: ab nth_append hd_conv_nth)
  have va: "decode_at lc f' (drop (length p) ?s) = Inr (normv v, length a)"
    using "9.IH"(1)[OF ab(1), of f' "b @ CHR ''e'' # r"] "9.prems" a(1)
    by (cases a) (auto simp: ab f)
  have "decodeList_loop lc f' ((p @ a) @ b @ CHR ''e'' # r) (length (p @ a)) (xs @ [normv v])
      = Inr ((xs @ [normv v]) @ map normv vs, length ((p @ a) @ b) + 1)"
    using "9.IH"(2)[OF ab(1,2), of f' "p @ a" r "xs @ [normv v]"] "9.prems" a(1)
    by (cases a) (auto simp: ab f)
  with va a show ?case by (simp add: f ab substr_from_def add.assoc)
qed

lemma encodable_encode:
  "encodable v \<Longrightarrow> \<exists>t. encode v = Inr t"
  "encodable (VDict d) \<Longrightarrow> \<exists>t. encode_dict d = Inr t"
  "list_all encodable vs \<Longrightarrow> \<exists>t. encode_list vs = Inr t"
proof (induction v and d and vs rule: encode_encode_dict_encode_list.induct)
  case (7 k v d)
  then have "encodable (VDict d)" "encodable v" "str_ok k" by (auto simp: wf_map_def)
  with 7 show ?case by (fastforce simp: encode_str_def str_ok_def rbind_Inr_iff)
qed (auto simp: encode_int_def encode_str_def str_ok_def rbind_Inr_iff)

text \<open>
  The library cast as an interface: given its documented behaviour on numerals, encoder
  and decoder form a prefix codec. The reference cast instantiates it in the witnesses.
\<close>

definition lexcast_ref :: lexcast where
  "lexcast_ref s = (if s \<noteq> [] \<and> list_all isdigit s \<and> dec_val s < 2 ^ 64
                    then Some (of_nat (dec_val s)) else None)"

lemma lexcast_ref_ok: "lexcast_ok lexcast_ref"
  by (auto simp: lexcast_ok_def lexcast_ref_def list_all_iff dec_nat_digits)

definition encode_bytes :: "bvalue \<Rightarrow> string" where
  "encode_bytes v = (case encode v of Inl _ \<Rightarrow> [] | Inr t \<Rightarrow> t)"

definition decode_opt :: "lexcast \<Rightarrow> string \<Rightarrow> (bvalue \<times> nat) option" where
  "decode_opt lc s = (case decode_prefix lc s of Inl _ \<Rightarrow> None | Inr p \<Rightarrow> Some p)"

locale lexical_cast =
  fixes lc :: lexcast
  assumes cast_ok: "lexcast_ok lc"
begin

lemma decode_prefix_encode:
  assumes "encodable v" "encode v = Inr t"
  shows "decode_prefix lc (t @ r) = Inr (normv v, length t)"
  unfolding decode_prefix_def decode_fuel_def
  by (rule decode_encode_gen(1)[OF cast_ok assms(2,1)]) auto

end

sublocale lexical_cast \<subseteq> codec: prefix_codec encode_bytes "decode_opt lc" normv encodable
proof
  fix v r assume v: "encodable v"
  then obtain t where t: "encode v = Inr t" using encodable_encode(1) by blast
  show "decode_opt lc (encode_bytes v @ r) = Some (normv v, length (encode_bytes v))"
    by (simp add: decode_opt_def encode_bytes_def t decode_prefix_encode[OF v t])
  show "encode_bytes v \<noteq> []" using encode_hd(1)[OF t] by (simp add: encode_bytes_def t)
qed

interpretation ref: lexical_cast lexcast_ref
  by unfold_locales (rule lexcast_ref_ok)

text \<open>Equations that evaluate the decoder on a concrete input.\<close>

lemmas fuel_numeral [simp] =
  decode_at.simps(2)[of _ "pred_numeral k", folded numeral_eq_Suc]
  decodeList_loop.simps(2)[of _ "pred_numeral k", folded numeral_eq_Suc]
  decodeDict_loop.simps(2)[of _ "pred_numeral k", folded numeral_eq_Suc] for k

lemmas decode_eval = decode_def decode_prefix_def decode_fuel_def decodeInt_def decodestring_def
  firstDigit_def stoi_digits_def substr_def substr_from_def lexcast_ref_def dec_val_def
  digit_val_def isdigit_def int_max_def

section \<open>Properties\<close>

text \<open>
  C12. Round trip. Every encodable value (integers that fit a non-negative \<open>int\<close>,
  non-empty strings, sorted dictionaries) is printed, and decoding the printed bytes
  gives the value back, with its integers as \<open>unsigned long long\<close>.
\<close>

theorem decode_encode:
  assumes "lexcast_ok lc" "encodable v"
  shows "\<exists>t. encode v = Inr t \<and> (length t \<le> int_max \<longrightarrow> decode lc t = Inr (normv v))"
proof -
  from assms(2) obtain t where t: "encode v = Inr t" using encodable_encode(1) by blast
  have "decode_prefix lc (t @ []) = Inr (normv v, length t)"
    by (rule lexical_cast.decode_prefix_encode[OF lexical_cast.intro[OF assms(1)] assms(2) t])
  with t show ?thesis by (simp add: decode_def)
qed

lemma decode_encode_witness:
  "encodable (VDict [(''a'', VInt 5), (''b'', VList [VStr ''xy'', VULL 17])])
   \<and> decode lexcast_ref ''d1:ai5e1:bl2:xyi17eee''
     = Inr (VDict [(''a'', VULL 5), (''b'', VList [VStr ''xy'', VULL 17])])"
proof -
  let ?v = "VDict [(''a'', VInt 5), (''b'', VList [VStr ''xy'', VULL 17])]"
  have ok: "encodable ?v"
    by (simp add: str_ok_def dec_nat.simps int_max_def wf_map_def)
  have enc: "encode ?v = Inr ''d1:ai5e1:bl2:xyi17eee''"
    by (simp add: encode_int_def encode_str_def dec_int_def dec_nat.simps)
  from decode_encode[OF lexcast_ref_ok ok] enc
  have "decode lexcast_ref ''d1:ai5e1:bl2:xyi17eee'' = Inr (normv ?v)" by (simp add: int_max_def)
  with ok show ?thesis by simp
qed

text \<open>
  C31. The decoder stops. On any input of at most \<open>INT_MAX\<close> bytes the recursion of
  \<open>_decode\<close>, \<open>decodeList\<close> and \<open>decodeDict\<close> ends, in a value, in an exception, or in undefined behaviour of one kind: the
  overflow of the signed addition that takes the length of a string past \<open>INT_MAX\<close>, as for \<open>2147483647:\<close>. A successful
  call consumes at least one byte and never reads past the end.
\<close>

theorem decode_total:
  assumes "length s \<le> int_max"
  shows "(case decode lc s of Inr _ \<Rightarrow> True | Inl e \<Rightarrow> is_exception e \<or> e = Undefined SignedOverflow)
    \<and> (case decode_prefix lc s of Inl _ \<Rightarrow> True | Inr (v, n) \<Rightarrow> 0 < n \<and> n \<le> length s)
    \<and> decode lc ''2147483647:'' = Inl (Undefined SignedOverflow)"
proof -
  have "decode_stops e" if e: "decode lc s = Inl e" for e
    using e decode_at_stops(1)[of lc "decode_fuel s" s e] decode_enough_fuel(1)[of "decode_fuel s" s lc]
    by (auto simp: decode_def decode_prefix_def decode_fuel_def rbind_Inl_iff)
  moreover have "decode lc ''2147483647:'' = Inl (Undefined SignedOverflow)"
  proof -
    have "dec_val ''2147483647'' = 2147483647" by (simp add: dec_val_def digit_val_def)
    then show ?thesis
      by (simp add: decode_def decode_prefix_def decode_fuel_def decodestring_def Let_def firstDigit_def stoi_digits_def
          isdigit_def int_max_def)
  qed
  ultimately show ?thesis
    using decode_bounds(1)[of lc "decode_fuel s" s] by (auto simp: decode_stops_def decode_prefix_def split: sum.splits)
qed

lemma decode_total_witness:
  "length ''l3:ab'' \<le> int_max \<and>
   (case decode lexcast_ref ''l3:ab'' of Inr _ \<Rightarrow> True | Inl e \<Rightarrow> is_exception e \<or> e = Undefined SignedOverflow)"
proof -
  have "length ''l3:ab'' \<le> int_max" by (simp add: int_max_def)
  with decode_total[OF this, of lexcast_ref] show ?thesis by blast
qed

text \<open>
  What the decoder returns is well formed: every dictionary at every level has its
  keys in strictly ascending order, whatever the order and the duplicates of the input.
\<close>

theorem decode_wf:
  assumes "length s \<le> int_max" "decode lc s = Inr v"
  shows "wfv v"
  using assms(2) by (auto simp: decode_def decode_prefix_def rbind_Inr_iff dest: decode_wfv(1))

lemma decode_wf_witness:
  "decode lexcast_ref ''d1:bi1e1:ai2ee'' = Inr (VDict [(''a'', VULL 2), (''b'', VULL 1)])
   \<and> wfv (VDict [(''a'', VULL 2), (''b'', VULL 1)])"
proof -
  have "decode lexcast_ref ''d1:bi1e1:ai2ee'' = Inr (VDict [(''a'', VULL 2), (''b'', VULL 1)])"
    by (simp add: decode_eval)
  with decode_wf[OF _ this] show ?thesis by (simp add: int_max_def)
qed

lemma dec_int_inject [simp]: "dec_int i = dec_int j \<longleftrightarrow> i = j"
proof -
  have "CHR ''-'' # dec_nat m \<noteq> dec_nat n" for m n
    using dec_nat_hd_digit[of n] by (metis list.sel(1) not_isdigit(6))
  then have "dec_int i \<noteq> dec_int j" if "i < 0" "\<not> j < 0" for i j
    using that by (simp add: dec_int_def)
  then show ?thesis
    by (cases "i < 0"; cases "j < 0") (force simp: dec_int_def eq_nat_nat_iff)+
qed

text \<open>
  Encoding an \<open>unsigned long long\<close> keeps it modulo \<open>2 ^ 32\<close> only: two such values
  have the same encoding exactly when they agree in their low 32 bits.
\<close>

theorem encode_ull_modulo:
  "encode (VULL m) = encode (VULL n) \<longleftrightarrow> unat m mod 2 ^ 32 = unat n mod 2 ^ 32"
proof -
  have "encode (VULL m) = encode (VULL n) \<longleftrightarrow> (ucast m :: cint) = ucast n"
    by (auto simp: encode_int_def dest: signed_word_eqI)
  also have "\<dots> \<longleftrightarrow> unat (ucast m :: cint) = unat (ucast n :: cint)"
    by (simp add: word_unat_eq_iff)
  also have "\<dots> \<longleftrightarrow> unat m mod 2 ^ 32 = unat n mod 2 ^ 32"
    by (simp add: unsigned_ucast_eq take_bit_eq_mod)
  finally show ?thesis .
qed

fun no_empty :: "bvalue \<Rightarrow> bool" where
  "no_empty (VStr s) = (s \<noteq> [])"
| "no_empty (VList vs) = list_all no_empty vs"
| "no_empty (VDict d) = list_all (\<lambda>(k, v). k \<noteq> [] \<and> no_empty v) d"
| "no_empty _ = True"

lemma encode_is_ok:
  "is_ok (encode v) = no_empty v"
  "is_ok (encode_dict d) = no_empty (VDict d)"
  "is_ok (encode_list vs) = list_all no_empty vs"
  by (induction v and d and vs rule: encode_encode_dict_encode_list.induct)
    (auto simp: is_ok_iff rbind_Inr_iff encode_int_def encode_str_def)

lemma encode_error:
  "encode v = Inl e \<Longrightarrow> e = InvalidArgument ''The line is empty''"
  "encode_dict d = Inl e \<Longrightarrow> e = InvalidArgument ''The line is empty''"
  "encode_list vs = Inl e \<Longrightarrow> e = InvalidArgument ''The line is empty''"
  by (induction v and d and vs rule: encode_encode_dict_encode_list.induct)
    (auto simp: rbind_Inl_iff encode_int_def encode_str_def split: if_splits)

text \<open>
  Encoding fails exactly when some string or key in the value is empty.
\<close>

theorem encode_fails_iff:
  "encode v = Inl (InvalidArgument ''The line is empty'') \<longleftrightarrow> \<not> no_empty v"
  using encode_is_ok(1)[of v] encode_error(1)[of v] by (cases "encode v") auto

lemma decodeList_unterminated:
  assumes lc: "lexcast_ok lc"
  shows "encode_list vs = Inr w \<Longrightarrow> list_all encodable vs \<Longrightarrow> 2 * length w < f
     \<Longrightarrow> decodeList_loop lc f (p @ w) (length p) xs = Inr (xs @ map normv vs, length (p @ w))"
proof (induction vs arbitrary: f p w xs)
  case Nil
  then show ?case by (cases f) auto
next
  case (Cons v vs)
  then obtain a b where ab: "encode v = Inr a" "encode_list vs = Inr b" "w = a @ b"
    by (auto simp: rbind_Inr_iff)
  obtain f' where f: "f = Suc f'" using Cons.prems by (cases f) auto
  from encode_hd(1)[OF ab(1)] have a: "a \<noteq> []" "(p @ w) ! length p \<noteq> CHR ''e''"
    by (auto simp: ab nth_append hd_conv_nth)
  have "decode_at lc f' (drop (length p) (p @ w)) = Inr (normv v, length a)"
    using decode_encode_gen(1)[OF lc ab(1), of f' b] Cons.prems a(1) by (cases a) (auto simp: ab f)
  moreover have "decodeList_loop lc f' ((p @ a) @ b) (length (p @ a)) (xs @ [normv v])
      = Inr ((xs @ [normv v]) @ map normv vs, length ((p @ a) @ b))"
    using Cons.IH[OF ab(2), of f' "p @ a"] Cons.prems a(1) by (cases a) (auto simp: ab f)
  ultimately show ?case using a by (simp add: f ab substr_from_def add.assoc)
qed

text \<open>
  The decoder does not require the closing \<open>e\<close> of a list: the printed items without
  it decode to the same list.
\<close>

theorem decode_unterminated_list:
  assumes "lexcast_ok lc" "encodable (VList vs)" "encode (VList vs) = Inr (t @ ''e'')"
    "length t \<le> int_max"
  shows "decode lc t = Inr (VList (map normv vs))"
proof -
  from assms(3) obtain w where w: "encode_list vs = Inr w" "t = ''l'' @ w"
    by (auto simp: rbind_Inr_iff)
  have "decodeList_loop lc (decode_fuel t - 1) (''l'' @ w) (length ''l'') []
      = Inr ([] @ map normv vs, length (''l'' @ w))"
    by (rule decodeList_unterminated[OF assms(1) w(1)])
      (use assms(2) w(2) in \<open>auto simp: decode_fuel_def\<close>)
  then show ?thesis by (simp add: decode_def decode_prefix_def decode_fuel_def w)
qed

lemma decode_unterminated_list_witness:
  "decode lexcast_ref ''li7e1:z'' = Inr (VList [VULL 7, VStr ''z''])"
proof -
  have "encodable (VList [VULL 7, VStr ''z''])"
    by (simp add: str_ok_def dec_nat.simps int_max_def)
  moreover have "encode (VList [VULL 7, VStr ''z'']) = Inr (''li7e1:z'' @ ''e'')"
    by (simp add: encode_int_def encode_str_def dec_int_def dec_nat.simps)
  ultimately show ?thesis
    using decode_unterminated_list[OF lexcast_ref_ok, of "[VULL 7, VStr ''z'']" "''li7e1:z''"]
    by (simp add: int_max_def)
qed

end
