(* ===== verification/NetUtils.thy ===== *)
theory NetUtils
  imports Prelude
begin

unbundle bit_operations_syntax

text \<open>
  The helpers of \<open>src/network_part/utils.cpp\<close>: bit fields of pieces, big-endian
  integers, hexadecimal and URL encodings, the time display. A piece index is \<open>nat\<close>:
  every caller passes a piece's index or the result of \<open>bytesToInt\<close>, which is never
  negative. Reading a string at its length gives the terminating zero; any other
  access outside it is undefined, and so is writing the terminator.
\<close>

section \<open>Bit fields\<close>

definition hasPiece :: "bytes \<Rightarrow> nat \<Rightarrow> bool res" where
  "hasPiece bitField index =
     (let byteIndex = index div 8; offset = index mod 8 in
      if byteIndex < length bitField
      then Inr (drop_bit (7 - offset) (byte_val (bitField ! byteIndex)) AND 1 \<noteq> (0::nat))
      else if byteIndex = length bitField then Inr False
      else Inl (Undefined OutOfBounds))"

definition setPiece :: "bytes \<Rightarrow> nat \<Rightarrow> bytes res" where
  "setPiece bitField index =
     (let byteIndex = index div 8; offset = index mod 8 in
      if byteIndex < length bitField
      then Inr (bitField[byteIndex :=
             char_of (byte_val (bitField ! byteIndex) OR push_bit (7 - offset) (1::nat))])
      else Inl (Undefined OutOfBounds))"

text \<open>The interface the piece manager uses: a set of indices below a capacity.\<close>

locale bit_field =
  fixes has :: "'f \<Rightarrow> nat \<Rightarrow> bool res"
    and set1 :: "'f \<Rightarrow> nat \<Rightarrow> 'f res"
    and cap :: "'f \<Rightarrow> nat"
  assumes has_ok: "i < cap f \<Longrightarrow> is_ok (has f i)"
    and set1_ok: "i < cap f \<Longrightarrow> is_ok (set1 f i)"
    and cap_set1: "set1 f i = Inr f' \<Longrightarrow> cap f' = cap f"
    and has_set1: "set1 f i = Inr f' \<Longrightarrow> j < cap f \<Longrightarrow>
      has f' j = (if j = i then Inr True else has f j)"
begin

fun set_all :: "'f \<Rightarrow> nat list \<Rightarrow> 'f res" where
  "set_all f [] = Inr f"
| "set_all f (i # is) = rbind (set1 f i) (\<lambda>f'. set_all f' is)"

lemma set_all_ok: "\<forall>i \<in> set is. i < cap f \<Longrightarrow> \<exists>f'. set_all f is = Inr f'"
proof (induction "is" arbitrary: f)
  case (Cons i "is")
  then obtain f1 where f1: "set1 f i = Inr f1" using set1_ok[of i f] by (auto simp: is_ok_iff)
  with Cons cap_set1[OF f1] show ?case by simp
qed simp

lemma has_set_all:
  "set_all f is = Inr f' \<Longrightarrow> j < cap f \<Longrightarrow>
   has f' j = (if j \<in> set is then Inr True else has f j)"
proof (induction "is" arbitrary: f)
  case (Cons i "is")
  then obtain f1 where f1: "set1 f i = Inr f1" "set_all f1 is = Inr f'"
    by (auto simp: rbind_Inr_iff)
  with Cons cap_set1[OF f1(1)] has_set1[OF f1(1)] show ?case by auto
qed simp

end

lemma hasPiece_bit:
  "i < 8 * length bf \<Longrightarrow> hasPiece bf i = Inr (bit (byte_val (bf ! (i div 8))) (7 - i mod 8))"
  by (auto simp: hasPiece_def Let_def bit_iff_odd_drop_bit and_one_eq odd_iff_mod_2_eq_one)

lemma setPiece_iff:
  "setPiece bf i = Inr bf' \<longleftrightarrow> i < 8 * length bf \<and>
   bf' = bf[i div 8 := char_of (byte_val (bf ! (i div 8)) OR push_bit (7 - i mod 8) (1::nat))]"
  by (auto simp: setPiece_def Let_def)

lemma bit_or_byte: "k < 8 \<Longrightarrow> bit ((n OR 2 ^ m) mod 256) k \<longleftrightarrow> bit (n :: nat) k \<or> k = m"
proof -
  assume "k < 8"
  have "(n OR 2 ^ m) mod 256 = take_bit 8 (n OR 2 ^ m)" by (simp add: take_bit_eq_mod)
  with \<open>k < 8\<close> show ?thesis by (auto simp: bit_take_bit_iff bit_or_iff bit_exp_iff)
qed

interpretation bf: bit_field hasPiece setPiece "\<lambda>bf. 8 * length bf"
proof
  fix bf bf' :: bytes and i j :: nat
  show "i < 8 * length bf \<Longrightarrow> is_ok (hasPiece bf i)" by (simp add: hasPiece_bit)
  show "i < 8 * length bf \<Longrightarrow> is_ok (setPiece bf i)" by (auto simp: is_ok_iff setPiece_iff)
  show "setPiece bf i = Inr bf' \<Longrightarrow> 8 * length bf' = 8 * length bf" by (simp add: setPiece_iff)
  show "hasPiece bf' j = (if j = i then Inr True else hasPiece bf j)"
    if set: "setPiece bf i = Inr bf'" and j: "j < 8 * length bf"
  proof -
    have len: "length bf' = length bf" using set by (simp add: setPiece_iff)
    show ?thesis
    proof (cases "j div 8 = i div 8")
      case True
      have "7 - j mod 8 = 7 - i mod 8 \<longleftrightarrow> j = i"
      proof -
        have "j mod 8 \<le> 7" "i mod 8 \<le> 7" by simp_all
        then have "7 - j mod 8 = 7 - i mod 8 \<longleftrightarrow> j mod 8 = i mod 8" by linarith
        also have "\<dots> \<longleftrightarrow> j = i" using True by (metis div_mult_mod_eq)
        finally show ?thesis .
      qed
      moreover have "j div 8 < length bf" using j by simp
      ultimately show ?thesis
        using set j len True by (auto simp: hasPiece_bit setPiece_iff bit_or_byte)
    next
      case False
      with set j len show ?thesis by (auto simp: hasPiece_bit setPiece_iff)
    qed
  qed
qed

section \<open>Big-endian integers\<close>

text \<open>
  \<open>bytesToInt\<close> writes every byte as eight binary digits and parses the digits with
  \<open>std::stoi(_, 0, 2)\<close>, which throws on an empty string and on a value above
  \<open>INT_MAX\<close>.
\<close>

definition bitset8 :: "char \<Rightarrow> bool list" where
  "bitset8 c = map (\<lambda>k. bit (byte_val c) k) (rev [0..<8])"

definition stoi2 :: "bool list \<Rightarrow> nat res" where
  "stoi2 ds = (if ds = [] then Inl (InvalidArgument ''stoi'')
     else let n = foldl (\<lambda>a d. 2 * a + of_bool d) 0 ds in
       if n \<le> int_max then Inr n else Inl OutOfRange)"

definition bytesToInt :: "bytes \<Rightarrow> nat res" where
  "bytesToInt bytes = stoi2 (concat (map bitset8 bytes))"

definition be_val :: "bytes \<Rightarrow> nat" where
  "be_val bs = foldl (\<lambda>a c. 256 * a + byte_val c) 0 bs"

text \<open>\<open>htonl\<close> and \<open>memcpy\<close>: the four bytes of a 32-bit value, most significant first.\<close>

definition be32 :: "32 word \<Rightarrow> bytes" where
  "be32 w = map (\<lambda>k. char_of (unat (drop_bit (8 * k) w))) [3, 2, 1, 0]"

lemma foldl_bits:
  "foldl (\<lambda>a d. 2 * a + of_bool d) m (map (bit n) (rev [0..<k])) = 2 ^ k * m + take_bit k (n :: nat)"
  by (induction k arbitrary: m) (simp_all add: take_bit_Suc_from_most algebra_simps)

lemma bitset8_val: "foldl (\<lambda>a d. 2 * a + of_bool d) n (bitset8 c) = 256 * n + byte_val c"
  unfolding bitset8_def foldl_bits by (simp add: take_bit_nat_eq_self)

lemma bitset_concat_val:
  "foldl (\<lambda>a d. 2 * a + of_bool d) n (concat (map bitset8 bs))
    = foldl (\<lambda>a c. 256 * a + byte_val c) n bs"
  by (induction bs arbitrary: n) (simp_all add: bitset8_val)

lemma bytesToInt_be:
  "bytesToInt bs = (if bs = [] then Inl (InvalidArgument ''stoi'')
     else if be_val bs \<le> int_max then Inr (be_val bs) else Inl OutOfRange)"
proof -
  have "concat (map bitset8 bs) = [] \<longleftrightarrow> bs = []" by (cases bs) (auto simp: bitset8_def)
  then show ?thesis
    by (simp add: bytesToInt_def stoi2_def be_val_def bitset_concat_val Let_def)
qed

lemma length_be32 [simp]: "length (be32 w) = 4"
  by (simp add: be32_def)

lemma be_val_nat:
  assumes "n < 2 ^ 32"
  shows "be_val (map (\<lambda>k. char_of (drop_bit (8 * k) (n :: nat))) [3, 2, 1, 0]) = n"
proof -
  define a where "a = n div 256"
  define b where "b = a div 256"
  define c where "c = b div 256"
  have ab: "n div 65536 = b" "n div 16777216 = c" by (simp_all add: a_def b_def c_def div_mult2_eq[symmetric])
  have "c < 256" using assms by (simp add: ab(2)[symmetric] less_mult_imp_div_less)
  have "be_val (map (\<lambda>k. char_of (drop_bit (8 * k) n)) [3, 2, 1, 0])
      = 256 * (256 * (256 * (c mod 256) + b mod 256) + a mod 256) + n mod 256"
    by (simp add: be_val_def drop_bit_eq_div ab a_def)
  also have "\<dots> = n" using \<open>c < 256\<close> unfolding c_def b_def a_def
    by (simp only: mod_less mult_div_mod_eq)
  finally show ?thesis .
qed

lemma be_val_be32 [simp]: "be_val (be32 w) = unat w"
  using be_val_nat[of "unat w"] unsigned_less[of w, where ?'a = nat]
  by (simp only: be32_def unat_drop_bit_eq)  simp

section \<open>Hexadecimal and URL encodings\<close>

definition isspace :: "char \<Rightarrow> bool" where
  "isspace c \<longleftrightarrow> byte_val c = 32 \<or> (9 \<le> byte_val c \<and> byte_val c \<le> 13)"

definition hex_digit_val :: "char \<Rightarrow> nat option" where
  "hex_digit_val c =
     (let n = byte_val c in
      if 48 \<le> n \<and> n \<le> 57 then Some (n - 48)
      else if 65 \<le> n \<and> n \<le> 70 then Some (n - 55)
      else if 97 \<le> n \<and> n \<le> 102 then Some (n - 87)
      else None)"

text \<open>
  \<open>strtol(s, nullptr, 16)\<close> on the strings of at most two characters \<open>hexDecode\<close> passes
  (a prefix \<open>0x\<close> of such a string reads as the digit 0 either way), and \<open>hexDecode\<close>.
\<close>

fun strtol16_digits :: "nat \<Rightarrow> string \<Rightarrow> nat" where
  "strtol16_digits acc [] = acc"
| "strtol16_digits acc (c # cs) =
     (case hex_digit_val c of None \<Rightarrow> acc | Some d \<Rightarrow> strtol16_digits (16 * acc + d) cs)"

definition strtol16 :: "string \<Rightarrow> int" where
  "strtol16 s =
     (case dropWhile isspace s of
        [] \<Rightarrow> 0
      | c # cs \<Rightarrow>
          if c = CHR ''-'' then - int (strtol16_digits 0 cs)
          else if c = CHR ''+'' then int (strtol16_digits 0 cs)
          else int (strtol16_digits 0 (c # cs)))"

fun hexDecode :: "string \<Rightarrow> bytes" where
  "hexDecode [] = []"
| "hexDecode [a] = [char_of (nat (strtol16 [a] mod 256))]"
| "hexDecode (a # b # value) = char_of (nat (strtol16 [a, b] mod 256)) # hexDecode value"

text \<open>Digits: \<open>std::hex\<close> prints lower case, \<open>std::uppercase\<close> and \<open>hexDigits\<close> upper case.\<close>

definition hex_lower :: "nat \<Rightarrow> char" where
  "hex_lower d = (if d < 10 then char_of (48 + d) else char_of (87 + d))"

definition hex_upper :: "nat \<Rightarrow> char" where
  "hex_upper d = (if d < 10 then char_of (48 + d) else char_of (55 + d))"

definition hexEncode :: "bytes \<Rightarrow> string" where
  "hexEncode input = concat (map (\<lambda>c. let n = byte_val c in
     [CHR 0x5C, CHR ''x'', hex_upper (n div 16), hex_upper (n mod 16)]) input)"

text \<open>
  \<open>isalnum\<close> in the C locale. The source passes it a signed \<open>char\<close>; for a byte from 128 on, for which the standard says
  nothing, the answer is no, as in the C libraries.
\<close>

definition isalnum :: "char \<Rightarrow> bool" where
  "isalnum c \<longleftrightarrow> (let n = byte_val c in (48 \<le> n \<and> n \<le> 57) \<or> (65 \<le> n \<and> n \<le> 90) \<or> (97 \<le> n \<and> n \<le> 122))"

definition percent_encoded :: "char \<Rightarrow> string" where
  "percent_encoded c = [CHR ''%'', hex_upper (byte_val c div 16), hex_upper (byte_val c mod 16)]"

definition urlEncode :: "bytes \<Rightarrow> string" where
  "urlEncode value = concat (map (\<lambda>c.
     if isalnum c \<or> c \<in> {CHR ''-'', CHR ''_'', CHR ''.'', CHR ''~''} then [c]
     else percent_encoded c) value)"

text \<open>Percent-decoding as the tracker does it: the specification of \<open>urlEncode\<close>.\<close>

fun urlDecode :: "string \<Rightarrow> bytes option" where
  "urlDecode [] = Some []"
| "urlDecode (c # cs) =
     (if c = CHR ''%'' then
        (case cs of
           a # b # r \<Rightarrow>
             (case (hex_digit_val a, hex_digit_val b) of
                (Some x, Some y) \<Rightarrow> map_option (Cons (char_of (16 * x + y))) (urlDecode r)
              | _ \<Rightarrow> None)
         | _ \<Rightarrow> None)
      else map_option (Cons c) (urlDecode cs))"

lemma hex_digit_val_digit [simp]:
  "d < 16 \<Longrightarrow> hex_digit_val (hex_lower d) = Some d"
  "d < 16 \<Longrightarrow> hex_digit_val (hex_upper d) = Some d"
  by (auto simp: hex_digit_val_def hex_lower_def hex_upper_def Let_def)

lemma hex_not_special [simp]:
  "d < 16 \<Longrightarrow> \<not> isspace (hex_lower d)"
  "d < 16 \<Longrightarrow> hex_lower d \<noteq> CHR ''-''" "d < 16 \<Longrightarrow> hex_lower d \<noteq> CHR ''+''"
proof -
  have *: "byte_val (hex_lower d) \<ge> 48" if "d < 16" for d using that by (auto simp: hex_lower_def)
  show "d < 16 \<Longrightarrow> \<not> isspace (hex_lower d)" using *[of d] by (auto simp: isspace_def)
  show "d < 16 \<Longrightarrow> hex_lower d \<noteq> CHR ''-''" "d < 16 \<Longrightarrow> hex_lower d \<noteq> CHR ''+''" using *[of d] by auto
qed

lemma strtol16_pair: "a < 16 \<Longrightarrow> b < 16 \<Longrightarrow> strtol16 [hex_lower a, hex_lower b] = int (16 * a + b)"
  by (simp add: strtol16_def)

lemma hexDecode_pairs:
  "hexDecode (concat (map (\<lambda>c. [hex_lower (byte_val c div 16), hex_lower (byte_val c mod 16)]) bs)) = bs"
proof (induction bs)
  case (Cons c bs)
  have "byte_val c div 16 < 16" by (simp add: less_mult_imp_div_less)
  with Cons show ?case by (simp add: strtol16_pair nat_mod_distrib)
qed simp

lemma urlDecode_percent [simp]:
  "urlDecode (percent_encoded c @ s) = map_option (Cons c) (urlDecode s)"
  by (simp add: percent_encoded_def less_mult_imp_div_less)

text \<open>
  A tracker that percent-decodes what \<open>urlEncode\<close> wrote gets the original bytes back.
\<close>

theorem urlDecode_urlEncode: "urlDecode (urlEncode s) = Some s"
proof (induction s)
  case (Cons c s)
  have "\<not> isalnum (CHR ''%'')" by (simp add: isalnum_def)
  with Cons show ?case by (auto simp: urlEncode_def)
qed (simp add: urlEncode_def)

section \<open>The time display\<close>

text \<open>
  \<open>std::string(2 - s.length(), '0') + s\<close>: the count is unsigned, so a string of more
  than two characters asks for an impossible length, which throws \<open>length_error\<close>.
\<close>

definition pad2 :: "string \<Rightarrow> string res" where
  "pad2 s = (if 2 < length s then Inl LengthError else Inr (replicate (2 - length s) (CHR ''0'') @ s))"

definition formatTime :: "int \<Rightarrow> string res" where
  "formatTime seconds =
     (if seconds < 0 then Inr ''inf''
      else
        rbind (pad2 (dec_int (seconds div 3600))) (\<lambda>hh.
        rbind (pad2 (dec_int (seconds mod 3600 div 60))) (\<lambda>mm.
        rbind (pad2 (dec_int (seconds mod 60))) (\<lambda>ss.
          if hh \<noteq> ''00'' then Inr (hh @ '':'' @ mm @ '':'' @ ss)
          else Inr (mm @ '':'' @ ss)))))"

definition two_digits :: "nat \<Rightarrow> string" where
  "two_digits n = [digit_char (n div 10), digit_char (n mod 10)]"

lemma dec_nat_small: "n < 10 \<Longrightarrow> dec_nat n = [digit_char n]"
  by (subst dec_nat.simps) simp

lemma dec_nat_two: "10 \<le> n \<Longrightarrow> n < 100 \<Longrightarrow> dec_nat n = two_digits n"
  by (subst dec_nat.simps) (simp add: dec_nat_small two_digits_def)

lemma dec_nat_long: "100 \<le> n \<Longrightarrow> 2 < length (dec_nat n)"
proof -
  assume n: "100 \<le> n"
  have "dec_nat n = dec_nat (n div 10) @ [digit_char (n mod 10)]"
    using n by (subst dec_nat.simps) simp
  moreover have "dec_nat (n div 10) = dec_nat (n div 10 div 10) @ [digit_char (n div 10 mod 10)]"
    using n by (subst dec_nat.simps) simp
  moreover have "0 < length (dec_nat (n div 10 div 10))" by simp
  ultimately show ?thesis by simp
qed

lemma pad2_dec: "pad2 (dec_nat n) = (if n < 100 then Inr (two_digits n) else Inl LengthError)"
proof (cases "n < 10")
  case True
  then show ?thesis by (simp add: pad2_def dec_nat_small two_digits_def)
next
  case False
  then show ?thesis
    using dec_nat_long[of n] dec_nat_two[of n] by (auto simp: pad2_def two_digits_def)
qed

lemma two_digits_zero: "n < 100 \<Longrightarrow> two_digits n = ''00'' \<longleftrightarrow> n = 0"
proof -
  assume "n < 100"
  have inj: "digit_char a = CHR ''0'' \<longleftrightarrow> a = 0" if "a < 10" for a
  proof -
    have "digit_char a = digit_char 0 \<longleftrightarrow> a = 0"
      using that by (metis digit_val_digit_char zero_less_numeral)
    then show ?thesis by simp
  qed
  show ?thesis using \<open>n < 100\<close> by (auto simp: two_digits_def inj)
qed

text \<open>
  the display of a time: \<open>MM:SS\<close> below an hour, \<open>HH:MM:SS\<close> up to 99 hours, and a
  \<open>length_error\<close> from 100 hours on.
\<close>

lemma formatTime_cases:
  "formatTime (int t) =
     (if t < 3600 then Inr (two_digits (t div 60) @ '':'' @ two_digits (t mod 60))
      else if t < 360000
      then Inr (two_digits (t div 3600) @ '':'' @ two_digits (t mod 3600 div 60) @ '':'' @ two_digits (t mod 60))
      else Inl LengthError)"
proof -
  have eqs: "int t div 3600 = int (t div 3600)" "int t mod 3600 div 60 = int (t mod 3600 div 60)"
    "int t mod 60 = int (t mod 60)" by (simp_all add: zdiv_int zmod_int)
  have "t mod 3600 div 60 < 100" "t mod 60 < 100" by (auto intro: less_mult_imp_div_less)
  then show ?thesis
    unfolding formatTime_def eqs
    by (auto simp: dec_int_def pad2_dec two_digits_zero less_mult_imp_div_less div_eq_0_iff)
qed

end
