(* ===== verification/Sha1.thy ===== *)
theory Sha1
  imports NetUtils
begin

text \<open>
  The SHA-1 implementation of \<open>libs/crypto/sha1.cpp\<close>, on which the verification of a
  downloaded piece rests. The class's \<open>uint32\<close> is \<open>unsigned long\<close>, 64 bits on the
  target: its words carry garbage above bit 31, which only the last mask removes. The
  unrolled body of \<open>transform\<close> is a table of its eighty macro calls; the registers
  \<open>a\<close> to \<open>e\<close> are the positions 0 to 4 of a list.
\<close>

type_synonym ulong = "64 word"

record sha1_state =
  digest :: "ulong list"
  buffer :: bytes
  transforms :: ulong

section \<open>The macros and \<open>transform\<close>\<close>

definition SHA1_ROL :: "ulong \<Rightarrow> nat \<Rightarrow> ulong" where
  "SHA1_ROL val bits = push_bit bits val OR drop_bit (32 - bits) (val AND 0xffffffff)"

definition SHA1_BLK :: "nat \<Rightarrow> ulong list \<Rightarrow> ulong list" where
  "SHA1_BLK i block =
     block[i mod 16 := SHA1_ROL (block ! ((i + 13) mod 16) XOR block ! ((i + 8) mod 16)
                          XOR block ! ((i + 2) mod 16) XOR block ! (i mod 16)) 1]"

datatype sha1_round = R0 | R1 | R2 | R3 | R4

text \<open>
  \<open>f\<close> and \<open>K\<close> of a macro; every round but \<open>R0\<close> first stores the new word of the
  message schedule in \<open>block[i & 15]\<close> and uses it.
\<close>

fun round_fun :: "sha1_round \<Rightarrow> ulong \<Rightarrow> ulong \<Rightarrow> ulong \<Rightarrow> ulong" where
  "round_fun R0 w x y = ((w AND (x XOR y)) XOR y)"
| "round_fun R1 w x y = ((w AND (x XOR y)) XOR y)"
| "round_fun R2 w x y = (w XOR x XOR y)"
| "round_fun R3 w x y = (((w OR x) AND y) OR (w AND x))"
| "round_fun R4 w x y = (w XOR x XOR y)"

fun round_const :: "sha1_round \<Rightarrow> ulong" where
  "round_const R0 = 0x5a827999"
| "round_const R1 = 0x5a827999"
| "round_const R2 = 0x6ed9eba1"
| "round_const R3 = 0x8f1bbcdc"
| "round_const R4 = 0xca62c1d6"

type_synonym sha1_call = "sha1_round \<times> nat \<times> nat \<times> nat \<times> nat \<times> nat \<times> nat"

fun exec_call :: "sha1_call \<Rightarrow> ulong list \<times> ulong list \<Rightarrow> ulong list \<times> ulong list" where
  "exec_call (R, v, w, x, y, z, i) (r, block) =
     (let block' = (if R = R0 then block else SHA1_BLK i block);
          m = (if R = R0 then block' ! i else block' ! (i mod 16));
          r1 = r[z := r ! z + (round_fun R (r ! w) (r ! x) (r ! y) + m + round_const R
                               + SHA1_ROL (r ! v) 5)]
      in (r1[w := SHA1_ROL (r1 ! w) 30], block'))"

definition sha1_calls :: "sha1_call list" where
  "sha1_calls =
    [(R0, 0, 1, 2, 3, 4, 0), (R0, 4, 0, 1, 2, 3, 1), (R0, 3, 4, 0, 1, 2, 2), (R0, 2, 3, 4, 0, 1, 3),
     (R0, 1, 2, 3, 4, 0, 4), (R0, 0, 1, 2, 3, 4, 5), (R0, 4, 0, 1, 2, 3, 6), (R0, 3, 4, 0, 1, 2, 7),
     (R0, 2, 3, 4, 0, 1, 8), (R0, 1, 2, 3, 4, 0, 9), (R0, 0, 1, 2, 3, 4, 10), (R0, 4, 0, 1, 2, 3, 11),
     (R0, 3, 4, 0, 1, 2, 12), (R0, 2, 3, 4, 0, 1, 13), (R0, 1, 2, 3, 4, 0, 14), (R0, 0, 1, 2, 3, 4, 15),
     (R1, 4, 0, 1, 2, 3, 16), (R1, 3, 4, 0, 1, 2, 17), (R1, 2, 3, 4, 0, 1, 18), (R1, 1, 2, 3, 4, 0, 19),
     (R2, 0, 1, 2, 3, 4, 20), (R2, 4, 0, 1, 2, 3, 21), (R2, 3, 4, 0, 1, 2, 22), (R2, 2, 3, 4, 0, 1, 23),
     (R2, 1, 2, 3, 4, 0, 24), (R2, 0, 1, 2, 3, 4, 25), (R2, 4, 0, 1, 2, 3, 26), (R2, 3, 4, 0, 1, 2, 27),
     (R2, 2, 3, 4, 0, 1, 28), (R2, 1, 2, 3, 4, 0, 29), (R2, 0, 1, 2, 3, 4, 30), (R2, 4, 0, 1, 2, 3, 31),
     (R2, 3, 4, 0, 1, 2, 32), (R2, 2, 3, 4, 0, 1, 33), (R2, 1, 2, 3, 4, 0, 34), (R2, 0, 1, 2, 3, 4, 35),
     (R2, 4, 0, 1, 2, 3, 36), (R2, 3, 4, 0, 1, 2, 37), (R2, 2, 3, 4, 0, 1, 38), (R2, 1, 2, 3, 4, 0, 39),
     (R3, 0, 1, 2, 3, 4, 40), (R3, 4, 0, 1, 2, 3, 41), (R3, 3, 4, 0, 1, 2, 42), (R3, 2, 3, 4, 0, 1, 43),
     (R3, 1, 2, 3, 4, 0, 44), (R3, 0, 1, 2, 3, 4, 45), (R3, 4, 0, 1, 2, 3, 46), (R3, 3, 4, 0, 1, 2, 47),
     (R3, 2, 3, 4, 0, 1, 48), (R3, 1, 2, 3, 4, 0, 49), (R3, 0, 1, 2, 3, 4, 50), (R3, 4, 0, 1, 2, 3, 51),
     (R3, 3, 4, 0, 1, 2, 52), (R3, 2, 3, 4, 0, 1, 53), (R3, 1, 2, 3, 4, 0, 54), (R3, 0, 1, 2, 3, 4, 55),
     (R3, 4, 0, 1, 2, 3, 56), (R3, 3, 4, 0, 1, 2, 57), (R3, 2, 3, 4, 0, 1, 58), (R3, 1, 2, 3, 4, 0, 59),
     (R4, 0, 1, 2, 3, 4, 60), (R4, 4, 0, 1, 2, 3, 61), (R4, 3, 4, 0, 1, 2, 62), (R4, 2, 3, 4, 0, 1, 63),
     (R4, 1, 2, 3, 4, 0, 64), (R4, 0, 1, 2, 3, 4, 65), (R4, 4, 0, 1, 2, 3, 66), (R4, 3, 4, 0, 1, 2, 67),
     (R4, 2, 3, 4, 0, 1, 68), (R4, 1, 2, 3, 4, 0, 69), (R4, 0, 1, 2, 3, 4, 70), (R4, 4, 0, 1, 2, 3, 71),
     (R4, 3, 4, 0, 1, 2, 72), (R4, 2, 3, 4, 0, 1, 73), (R4, 1, 2, 3, 4, 0, 74), (R4, 0, 1, 2, 3, 4, 75),
     (R4, 4, 0, 1, 2, 3, 76), (R4, 3, 4, 0, 1, 2, 77), (R4, 2, 3, 4, 0, 1, 78), (R4, 1, 2, 3, 4, 0, 79)]"

definition sha1_transform :: "ulong list \<Rightarrow> sha1_state \<Rightarrow> sha1_state" where
  "sha1_transform block st =
     (let r = fst (foldl (\<lambda>s c. exec_call c s) (digest st, block) sha1_calls)
      in st\<lparr>digest := map2 (+) (digest st) r, transforms := transforms st + 1\<rparr>)"

section \<open>The class\<close>

definition buffer_to_block :: "bytes \<Rightarrow> ulong list" where
  "buffer_to_block buf =
     map (\<lambda>i. scast (of_nat (byte_val (buf ! (4*i+3)))
                 OR push_bit 8 (of_nat (byte_val (buf ! (4*i+2))))
                 OR push_bit 16 (of_nat (byte_val (buf ! (4*i+1))))
                 OR push_bit 24 (of_nat (byte_val (buf ! (4*i)))) :: cint)) [0..<16]"

definition sha1_init :: sha1_state where
  "sha1_init = \<lparr>digest = [0x67452301, 0xefcdab89, 0x98badcfe, 0x10325476, 0xc3d2e1f0],
                buffer = [], transforms = 0\<rparr>"

text \<open>
  \<open>read\<close>: up to \<open>n\<close> bytes from the stream; the stream stays good exactly when there were
  \<open>n\<close> bytes. \<open>update\<close> fills the buffer and transforms while the stream is good.
\<close>

definition sha1_read :: "nat \<Rightarrow> bytes \<Rightarrow> bytes \<times> bytes \<times> bool" where
  "sha1_read n is = (take n is, drop n is, n \<le> length is)"

function update_loop :: "sha1_state \<Rightarrow> bytes \<Rightarrow> bool \<Rightarrow> sha1_state" where
  "update_loop st is good =
     (if good then
        (let st1 = sha1_transform (buffer_to_block (buffer st)) st;
             (chunk, is', good') = sha1_read 64 is
         in update_loop (st1\<lparr>buffer := chunk\<rparr>) is' good')
      else st)"
  by pat_completeness auto
termination
  by (relation "measure (\<lambda>(st, is, good). if good then Suc (length is) else 0)")
    (auto simp: sha1_read_def)

definition sha1_update :: "sha1_state \<Rightarrow> bytes \<Rightarrow> sha1_state" where
  "sha1_update st s =
     (let (rest_of_buffer, is, good) = sha1_read (64 - length (buffer st)) s
      in update_loop (st\<lparr>buffer := buffer st @ rest_of_buffer\<rparr>) is good)"

definition hex8 :: "32 word \<Rightarrow> string" where
  "hex8 w = map (\<lambda>k. hex_lower (unat (drop_bit (4 * k) w AND 15))) [7, 6, 5, 4, 3, 2, 1, 0]"

definition sha1_final :: "sha1_state \<Rightarrow> string \<times> sha1_state" where
  "sha1_final st =
     (let total_bits = (transforms st * 64 + of_nat (length (buffer st))) * 8;
          buf = buffer st @ [char_of (0x80::nat)];
          orig_size = length buf;
          buf' = buf @ replicate (64 - length buf) (char_of (0::nat));
          block = buffer_to_block buf';
          (st1, block1) =
            (if 64 - 8 < orig_size
             then (sha1_transform block st, replicate 14 0 @ drop 14 block)
             else (st, block));
          block2 = block1[15 := total_bits, 14 := drop_bit 32 total_bits];
          st2 = sha1_transform block2 st1
      in (concat (map (\<lambda>d. hex8 (ucast d)) (digest st2)), sha1_init))"

definition sha1 :: "bytes \<Rightarrow> string" where
  "sha1 s = fst (sha1_final (sha1_update sha1_init s))"

text \<open>
  \<open>SHA1::from_file\<close>: a file that cannot be opened is a stream that is not good and gives no
  bytes, so that its hash is that of the empty string.
\<close>

definition SHA1_from_file :: "(string \<Rightarrow> bytes option) \<Rightarrow> string \<Rightarrow> string" where
  "SHA1_from_file open_file filename =
     (let checksum = sha1_init;
          checksum = (case open_file filename of
              None \<Rightarrow> update_loop checksum [] False
            | Some stream \<Rightarrow> sha1_update checksum stream)
      in fst (sha1_final checksum))"

lemma SHA1_from_file_eq:
  "SHA1_from_file open_file p = sha1 (case open_file p of None \<Rightarrow> [] | Some c \<Rightarrow> c)"
  by (auto simp: SHA1_from_file_def sha1_def sha1_update_def sha1_read_def sha1_init_def split: option.splits)

end
