(* ===== verification/Sha1_Spec.thy ===== *)
theory Sha1_Spec
  imports Sha1
begin

text \<open>
  SHA-1 as FIPS 180-4 (sections 4.1.1, 4.2.1, 5.1.1, 5.3.1, 6.1.2) defines it, over 32-bit
  words, and the proof that \<open>libs/crypto/sha1.cpp\<close> computes it: the low halves of the
  code's 64-bit words follow the standard's words step by step.
\<close>

type_synonym w32 = "32 word"

definition rotl :: "nat \<Rightarrow> w32 \<Rightarrow> w32" where
  "rotl n x = push_bit n x OR drop_bit (32 - n) x"

definition fips_f :: "nat \<Rightarrow> w32 \<Rightarrow> w32 \<Rightarrow> w32 \<Rightarrow> w32" where
  "fips_f t x y z =
     (if t < 20 then (x AND y) XOR (NOT x AND z)
      else if t < 40 then x XOR y XOR z
      else if t < 60 then (x AND y) XOR (x AND z) XOR (y AND z)
      else x XOR y XOR z)"

definition fips_K :: "nat \<Rightarrow> w32" where
  "fips_K t = (if t < 20 then 0x5a827999 else if t < 40 then 0x6ed9eba1
               else if t < 60 then 0x8f1bbcdc else 0xca62c1d6)"

fun fips_W :: "w32 list \<Rightarrow> nat \<Rightarrow> w32" where
  "fips_W M t =
     (if t < 16 then M ! t
      else rotl 1 (fips_W M (t - 3) XOR fips_W M (t - 8) XOR fips_W M (t - 14) XOR fips_W M (t - 16)))"

declare fips_W.simps [simp del]

type_synonym regs = "w32 \<times> w32 \<times> w32 \<times> w32 \<times> w32"

fun fips_step :: "w32 list \<Rightarrow> nat \<Rightarrow> regs \<Rightarrow> regs" where
  "fips_step M t (a, b, c, d, e) =
     (rotl 5 a + fips_f t b c d + e + fips_K t + fips_W M t, a, rotl 30 b, c, d)"

fun fips_steps :: "w32 list \<Rightarrow> nat \<Rightarrow> regs \<Rightarrow> regs" where
  "fips_steps M 0 s = s"
| "fips_steps M (Suc t) s = fips_step M t (fips_steps M t s)"

fun fips_add :: "regs \<Rightarrow> regs \<Rightarrow> regs" where
  "fips_add (a, b, c, d, e) (a', b', c', d', e') = (a + a', b + b', c + c', d + d', e + e')"

definition fips_compress :: "regs \<Rightarrow> w32 list \<Rightarrow> regs" where
  "fips_compress H M = fips_add (fips_steps M 80 H) H"

definition fips_H0 :: regs where
  "fips_H0 = (0x67452301, 0xefcdab89, 0x98badcfe, 0x10325476, 0xc3d2e1f0)"

text \<open>
  Padding: a one bit, zeros up to 56 modulo 64 bytes, the bit length in eight bytes,
  most significant first; then blocks of sixteen big-endian words.
\<close>

definition be64 :: "64 word \<Rightarrow> bytes" where
  "be64 w = be32 (ucast (drop_bit 32 w)) @ be32 (ucast w)"

definition fips_pad :: "bytes \<Rightarrow> bytes" where
  "fips_pad m =
     m @ [char_of (0x80::nat)] @ replicate ((119 - length m mod 64) mod 64) (char_of (0::nat))
       @ be64 (of_nat (8 * length m))"

definition word_be :: "bytes \<Rightarrow> w32" where
  "word_be bs = of_nat (be_val bs)"

definition fips_words :: "bytes \<Rightarrow> w32 list" where
  "fips_words blk = map (\<lambda>i. word_be (take 4 (drop (4 * i) blk))) [0..<16]"

function fips_blocks :: "bytes \<Rightarrow> bytes list" where
  "fips_blocks m = (if length m < 64 then [] else take 64 m # fips_blocks (drop 64 m))"
  by pat_completeness auto
termination by (relation "measure length") auto

declare fips_blocks.simps [simp del]

fun regs_list :: "regs \<Rightarrow> w32 list" where
  "regs_list (a, b, c, d, e) = [a, b, c, d, e]"

definition fips_sha1 :: "bytes \<Rightarrow> bytes" where
  "fips_sha1 m = concat (map be32
     (regs_list (foldl (\<lambda>H blk. fips_compress H (fips_words blk)) fips_H0 (fips_blocks (fips_pad m)))))"

section \<open>One call of a macro is one step of the standard\<close>

text \<open>\<open>lo\<close> is the value of a 64-bit word as the standard's word: its low half.\<close>

definition lo :: "ulong \<Rightarrow> w32" where
  "lo x = ucast x"

lemma lo_add [simp]: "lo (x + y) = lo x + lo y"
proof -
  have "take_bit 32 (take_bit 64 k + take_bit 64 l) = take_bit 32 (k + l)" for k l :: int
    using take_bit_add[of 32 "take_bit 64 k" "take_bit 64 l"] take_bit_add[of 32 k l]
    by (simp add: take_bit_take_bit)
  then show ?thesis unfolding lo_def by transfer simp
qed

lemma lo_bits [simp]:
  "lo (x AND y) = lo x AND lo y" "lo (x OR y) = lo x OR lo y" "lo (x XOR y) = lo x XOR lo y"
  unfolding lo_def by (rule bit_word_eqI, auto simp: bit_simps)+

lemma ROL_take_bit: "SHA1_ROL x n = push_bit n x OR drop_bit (32 - n) (take_bit 32 x)"
  by (simp add: SHA1_ROL_def take_bit_eq_mask mask_eq_exp_minus_1)

lemma lo_ROL: "0 < n \<Longrightarrow> n < 32 \<Longrightarrow> lo (SHA1_ROL x n) = rotl n (lo x)"
  unfolding lo_def ROL_take_bit rotl_def by (intro bit_word_eqI) (auto simp: bit_simps)

lemma xor_ch: "((x AND (y XOR z)) XOR z) = (x AND y) XOR (NOT x AND (z :: w32))"
  "(y AND (z XOR w)) XOR w = (y AND z) XOR (NOT y AND (w :: w32))"
  by (rule bit_word_eqI, auto simp: bit_simps)+

lemma or_maj: "(((x OR y) AND z) OR (x AND y)) = (x AND y) XOR (x AND z) XOR (y AND (z :: w32))"
  by (rule bit_word_eqI) (auto simp: bit_simps)

definition round_of :: "nat \<Rightarrow> sha1_round" where
  "round_of t = (if t < 16 then R0 else if t < 20 then R1 else if t < 40 then R2
                 else if t < 60 then R3 else R4)"

lemma lo_round: "lo (round_fun (round_of t) x y z) = fips_f t (lo x) (lo y) (lo z)"
  by (auto simp: round_of_def fips_f_def xor_ch or_maj)

lemma lo_const: "lo (round_const (round_of t)) = fips_K t"
  by (auto simp: round_of_def fips_K_def lo_def)

text \<open>
  The role of register \<open>k\<close> before step \<open>t\<close> is played by position \<open>pos k t\<close>: the macros
  rotate the names instead of the values. The table of calls follows that scheme.
\<close>

definition pos :: "nat \<Rightarrow> nat \<Rightarrow> nat" where
  "pos k t = (k + 4 * t) mod 5"

definition call_at :: "nat \<Rightarrow> sha1_call" where
  "call_at t = (round_of t, pos 0 t, pos 1 t, pos 2 t, pos 3 t, pos 4 t, t)"

lemma sha1_calls_eq: "sha1_calls = map call_at [0..<80]"
  by (simp add: sha1_calls_def upt_rec call_at_def pos_def round_of_def)

lemma pos_less [simp]: "pos k t < 5"
  by (simp add: pos_def)

lemma mod5_cancel: "k \<le> l \<Longrightarrow> l < 5 \<Longrightarrow> (k + m) mod 5 = (l + m) mod 5 \<Longrightarrow> k = (l :: nat)"
  using mod_eq_dvd_iff_nat[of "k + m" "l + m" 5] by (auto dest: dvd_imp_le)

lemma pos_inj: "k < 5 \<Longrightarrow> l < 5 \<Longrightarrow> pos k t = pos l t \<longleftrightarrow> k = l"
  using mod5_cancel[of k l "4 * t"] mod5_cancel[of l k "4 * t"] unfolding pos_def by (metis nat_le_linear)

lemma pos_Suc_Suc: "pos (Suc k) (Suc t) = pos k t"
proof -
  have "Suc k + 4 * Suc t = (k + 4 * t) + 5" by simp
  then show ?thesis unfolding pos_def by (metis mod_add_self2)
qed

lemma pos_Suc: "pos 0 (Suc t) = pos 4 t" "pos 1 (Suc t) = pos 0 t" "pos 2 (Suc t) = pos 1 t"
  "pos 3 (Suc t) = pos 2 t" "pos 4 (Suc t) = pos 3 t"
proof -
  show "pos 0 (Suc t) = pos 4 t" by (simp add: pos_def)
  show "pos 1 (Suc t) = pos 0 t" using pos_Suc_Suc[of 0 t] by simp
  show "pos 2 (Suc t) = pos 1 t" using pos_Suc_Suc[of 1 t] by (simp only: Suc_1)
  show "pos 3 (Suc t) = pos 2 t" "pos 4 (Suc t) = pos 3 t"
    using pos_Suc_Suc[of 2 t] pos_Suc_Suc[of 3 t] by simp_all
qed

text \<open>
  The simulation: registers by role, and the sixteen words of the block are the last
  sixteen words of the message schedule.
\<close>

definition window :: "nat \<Rightarrow> nat" where
  "window t = max t 16 - 16"

definition sim :: "w32 list \<Rightarrow> regs \<Rightarrow> nat \<Rightarrow> ulong list \<times> ulong list \<Rightarrow> bool" where
  "sim M H t s \<longleftrightarrow>
     length (fst s) = 5 \<and> length (snd s) = 16 \<and>
     map (\<lambda>k. lo (fst s ! pos k t)) [0, 1, 2, 3, 4] = regs_list (fips_steps M t H) \<and>
     (\<forall>i. window t \<le> i \<and> i < window t + 16 \<longrightarrow> lo (snd s ! (i mod 16)) = fips_W M i)"

lemma sim_block_early:
  assumes "sim M H t (r, b)" "t < 16"
  shows "lo (b ! t) = fips_W M t"
    and "\<forall>i. window (Suc t) \<le> i \<and> i < window (Suc t) + 16 \<longrightarrow> lo (b ! (i mod 16)) = fips_W M i"
  using assms by (auto simp: sim_def window_def dest: spec[of _ t])

lemma sim_block_late:
  assumes "sim M H t (r, b)" "16 \<le> t"
  shows "lo (SHA1_BLK t b ! (t mod 16)) = fips_W M t"
    and "\<forall>i. window (Suc t) \<le> i \<and> i < window (Suc t) + 16 \<longrightarrow> lo (SHA1_BLK t b ! (i mod 16)) = fips_W M i"
proof -
  have w: "window t = t - 16" "window (Suc t) = t - 15" using assms(2) by (auto simp: window_def)
  have len: "length b = 16" using assms(1) by (simp add: sim_def)
  have old: "lo (b ! (i mod 16)) = fips_W M i" if "t - 16 \<le> i" "i < t" for i
    using assms that by (auto simp: sim_def w)
  have shift: "(t + k) mod 16 = (t - (16 - k)) mod 16" if "k \<le> 16" for k
  proof -
    have "t + k = (t - (16 - k)) + 16" using assms(2) that by simp
    then show ?thesis by (metis mod_add_self2)
  qed
  have mods: "(t + 13) mod 16 = (t - 3) mod 16" "(t + 8) mod 16 = (t - 8) mod 16"
    "(t + 2) mod 16 = (t - 14) mod 16" "t mod 16 = (t - 16) mod 16"
    using shift[of 13] shift[of 8] shift[of 2] shift[of 0] by simp_all
  have four: "lo (b ! ((t + 13) mod 16)) = fips_W M (t - 3)" "lo (b ! ((t + 8) mod 16)) = fips_W M (t - 8)"
    "lo (b ! ((t + 2) mod 16)) = fips_W M (t - 14)" "lo (b ! (t mod 16)) = fips_W M (t - 16)"
    using old[of "t - 3"] old[of "t - 8"] old[of "t - 14"] old[of "t - 16"] assms(2)
    by (simp_all add: mods[symmetric])
  show new: "lo (SHA1_BLK t b ! (t mod 16)) = fips_W M t"
    using assms(2) four by (subst fips_W.simps) (simp add: SHA1_BLK_def len lo_ROL)
  show "\<forall>i. window (Suc t) \<le> i \<and> i < window (Suc t) + 16 \<longrightarrow> lo (SHA1_BLK t b ! (i mod 16)) = fips_W M i"
  proof (intro allI impI)
    fix i assume i: "window (Suc t) \<le> i \<and> i < window (Suc t) + 16"
    show "lo (SHA1_BLK t b ! (i mod 16)) = fips_W M i"
    proof (cases "i = t")
      case False
      with i w assms(2) have it: "t - 15 \<le> i" "i < t" by auto
      have "i mod 16 \<noteq> t mod 16"
      proof
        assume "i mod 16 = t mod 16"
        then have "16 dvd t - i" using it by (metis mod_eq_dvd_iff_nat less_imp_le)
        then show False using it assms(2) by (auto dest: dvd_imp_le)
      qed
      moreover have "t - 16 \<le> i" using it by simp
      ultimately show ?thesis using old[of i] it by (simp add: SHA1_BLK_def)
    qed (simp add: new)
  qed
qed

lemma exec_call_regs:
  assumes "distinct [v, w, x, y, z]" "v < 5" "w < 5" "x < 5" "y < 5" "z < 5" "length r = 5"
    and "exec_call (R, v, w, x, y, z, i) (r, b) = (r', b')"
  shows "length r' = 5" "r' ! v = r ! v" "r' ! w = SHA1_ROL (r ! w) 30" "r' ! x = r ! x" "r' ! y = r ! y"
    "r' ! z = r ! z + (round_fun R (r ! w) (r ! x) (r ! y)
        + (if R = R0 then b' ! i else b' ! (i mod 16)) + round_const R + SHA1_ROL (r ! v) 5)"
    "b' = (if R = R0 then b else SHA1_BLK i b)"
  using assms by (auto simp: Let_def)

lemma sim_step:
  assumes s: "sim M H t s"
  shows "sim M H (Suc t) (exec_call (call_at t) s)"
proof -
  obtain r b where rb: "s = (r, b)" by (cases s)
  obtain r' b' where e: "exec_call (call_at t) (r, b) = (r', b')" by fastforce
  have len: "length r = 5" "length b = 16" using s by (simp_all add: sim_def rb)
  note regs = exec_call_regs[OF _ _ _ _ _ _ len(1) e[unfolded call_at_def]]
  have dist: "distinct [pos 0 t, pos 1 t, pos 2 t, pos 3 t, pos 4 t]" by (simp add: pos_inj)
  note regs = regs[OF dist pos_less pos_less pos_less pos_less pos_less]
  obtain a1 a2 a3 a4 a5 where st: "fips_steps M t H = (a1, a2, a3, a4, a5)" by (metis prod_cases5)
  have lo_r: "lo (r ! pos 0 t) = a1" "lo (r ! pos 1 t) = a2" "lo (r ! pos 2 t) = a3"
    "lo (r ! pos 3 t) = a4" "lo (r ! pos 4 t) = a5"
    using s by (simp_all add: sim_def rb st)
  have R: "round_of t = R0 \<longleftrightarrow> t < 16" by (simp add: round_of_def)
  have blk: "\<forall>i. window (Suc t) \<le> i \<and> i < window (Suc t) + 16 \<longrightarrow> lo (b' ! (i mod 16)) = fips_W M i"
    "lo (if round_of t = R0 then b' ! t else b' ! (t mod 16)) = fips_W M t" "length b' = 16"
    using sim_block_early[OF s[unfolded rb]] sim_block_late[OF s[unfolded rb]] regs(7) R len
    by (auto simp: SHA1_BLK_def split: if_splits)
  have "lo (r' ! pos 4 t) = rotl 5 a1 + fips_f t a2 a3 a4 + a5 + fips_K t + fips_W M t"
    unfolding regs(6) lo_add blk(2) lo_round lo_const lo_r by (simp add: lo_ROL lo_r add_ac)
  moreover have "map (\<lambda>k. lo (r' ! pos k (Suc t))) [0, 1, 2, 3, 4]
      = [lo (r' ! pos 4 t), lo (r' ! pos 0 t), lo (r' ! pos 1 t), lo (r' ! pos 2 t), lo (r' ! pos 3 t)]"
    unfolding list.map pos_Suc ..
  moreover have "lo (r' ! pos 1 t) = rotl 30 a2"
    unfolding regs(3) using lo_ROL[of 30 "r ! pos 1 t"] lo_r(2) by simp
  ultimately have "map (\<lambda>k. lo (r' ! pos k (Suc t))) [0, 1, 2, 3, 4] = regs_list (fips_steps M (Suc t) H)"
    using lo_r regs(2,4,5) by (simp add: st)
  with blk regs(1) show ?thesis by (simp add: sim_def rb e)
qed

lemma sim_calls: "sim M H 0 s \<Longrightarrow> sim M H t (foldl (\<lambda>s c. exec_call c s) s (map call_at [0..<t]))"
  by (induction t) (simp_all add: sim_step del: exec_call.simps)

section \<open>The transformation of a block\<close>

definition regs_of :: "ulong list \<Rightarrow> regs" where
  "regs_of d = (lo (d ! 0), lo (d ! 1), lo (d ! 2), lo (d ! 3), lo (d ! 4))"

lemma list5: "length d = 5 \<Longrightarrow> d = [d ! 0, d ! 1, d ! 2, d ! 3, d ! (4::nat)]"
  by (auto simp: numeral_eq_Suc length_Suc_conv)

lemma regs_list_regs_of: "length d = 5 \<Longrightarrow> regs_list (regs_of d) = map lo d"
  by (subst (2) list5) (simp_all add: regs_of_def)

lemma sim_start:
  assumes "length d = 5" "length b = 16"
  shows "sim (map lo b) (regs_of d) 0 (d, b)"
proof -
  have "fips_W (map lo b) i = lo (b ! i)" if "i < 16" for i
    using that assms(2) by (subst fips_W.simps) simp
  then show ?thesis using assms by (simp add: sim_def window_def pos_def regs_of_def)
qed

lemma sha1_transform_step:
  assumes "length (digest st) = 5" "length b = 16"
  shows "length (digest (sha1_transform b st)) = 5"
    and "regs_of (digest (sha1_transform b st)) = fips_compress (regs_of (digest st)) (map lo b)"
    and "buffer (sha1_transform b st) = buffer st"
    and "transforms (sha1_transform b st) = transforms st + 1"
proof -
  define s where "s = foldl (\<lambda>s c. exec_call c s) (digest st, b) sha1_calls"
  have sim: "sim (map lo b) (regs_of (digest st)) 80 s"
    unfolding s_def sha1_calls_eq by (rule sim_calls, rule sim_start, rule assms, rule assms)
  obtain a1 a2 a3 a4 a5 where st: "fips_steps (map lo b) 80 (regs_of (digest st)) = (a1, a2, a3, a4, a5)"
    by (metis prod_cases5)
  have l: "length (fst s) = 5" using sim by (simp add: sim_def)
  have r: "lo (fst s ! 0) = a1" "lo (fst s ! 1) = a2" "lo (fst s ! 2) = a3"
    "lo (fst s ! 3) = a4" "lo (fst s ! 4) = a5"
    using sim by (simp_all add: sim_def st pos_def)
  have d: "digest (sha1_transform b st) = map2 (+) (digest st) (fst s)"
    by (simp add: sha1_transform_def s_def Let_def)
  show "length (digest (sha1_transform b st)) = 5" using l assms(1) by (simp add: d)
  show "regs_of (digest (sha1_transform b st)) = fips_compress (regs_of (digest st)) (map lo b)"
    using l assms(1) r st unfolding fips_compress_def d regs_of_def by (simp add: add.commute)
qed (simp_all add: sha1_transform_def Let_def)

section \<open>Reading a block\<close>

lemma nat_bit_high: "(a :: nat) < 2 ^ k \<Longrightarrow> k \<le> i \<Longrightarrow> \<not> bit a i"
  by (simp add: bit_iff_odd) (metis div_less dvd_0_right order.strict_trans2 power_increasing one_le_numeral)

lemma shift_or_byte:
  assumes "a < 2 ^ k"
  shows "(of_nat a :: cint) OR push_bit k (of_nat b) = of_nat (a + b * 2 ^ k)"
proof -
  have "(of_nat a :: cint) AND push_bit k (of_nat b) = 0"
    using nat_bit_high[OF assms] by (intro bit_word_eqI) (auto simp: bit_simps)
  then have "(of_nat a :: cint) OR push_bit k (of_nat b) = of_nat a + push_bit k (of_nat b)"
    by (simp add: disjunctive_add_eq_or)
  then show ?thesis by (simp add: push_bit_eq_mult mult.commute)
qed

lemma buffer_word:
  fixes a b c d :: nat
  assumes "a < 256" "b < 256" "c < 256" "d < 256"
  shows "lo (scast (of_nat d OR push_bit 8 (of_nat c) OR push_bit 16 (of_nat b)
             OR push_bit 24 (of_nat a) :: cint)) = of_nat (((a * 256 + b) * 256 + c) * 256 + d)"
proof -
  have "(of_nat d OR push_bit 8 (of_nat c) OR push_bit 16 (of_nat b) OR push_bit 24 (of_nat a) :: cint)
      = of_nat (d + c * 2 ^ 8 + b * 2 ^ 16 + a * 2 ^ 24)"
    using shift_or_byte[of d 8 c] shift_or_byte[of "d + c * 2 ^ 8" 16 b]
      shift_or_byte[of "d + c * 2 ^ 8 + b * 2 ^ 16" 24 a] assms by (simp flip: or.assoc)
  moreover have "lo (scast (w :: cint)) = w" for w
    unfolding lo_def by (rule bit_word_eqI) (auto simp: bit_simps)
  ultimately show ?thesis by (simp add: algebra_simps)
qed


lemma foldl4: "length xs = 4 \<Longrightarrow> xs = [xs ! 0, xs ! 1, xs ! 2, xs ! (3::nat)]"
  by (auto simp: numeral_eq_Suc length_Suc_conv)

lemma take4_drop: "k + 4 \<le> length xs \<Longrightarrow> take 4 (drop k xs) = [xs ! k, xs ! (k+1), xs ! (k+2), xs ! (k+(3::nat))]"
  by (subst foldl4) simp_all

lemma buffer_to_block_words:
  assumes "length blk = 64"
  shows "map lo (buffer_to_block blk) = fips_words blk" "length (buffer_to_block blk) = 16"
proof -
  have "lo (buffer_to_block blk ! i) = fips_words blk ! i" if "i < 16" for i
    using that assms buffer_word[of "byte_val (blk ! (4*i))" "byte_val (blk ! (4*i+1))"
       "byte_val (blk ! (4*i+2))" "byte_val (blk ! (4*i+3))"]
    by (simp add: buffer_to_block_def fips_words_def word_be_def be_val_def take4_drop mult.commute del: word_of_nat_eq_iff of_nat_add of_nat_mult)
  then show "map lo (buffer_to_block blk) = fips_words blk"
    by (intro nth_equalityI) (auto simp: fips_words_def buffer_to_block_def)
qed (simp add: buffer_to_block_def)

section \<open>The update loop\<close>

definition blocks_upto :: "nat \<Rightarrow> nat" where
  "blocks_upto n = n div 64"

definition leftover :: "bytes \<Rightarrow> bytes" where
  "leftover m = drop (64 * (length m div 64)) m"

abbreviation absorb :: "regs \<Rightarrow> bytes \<Rightarrow> regs" where
  "absorb H m \<equiv> foldl (\<lambda>H blk. fips_compress H (fips_words blk)) H (fips_blocks m)"

lemma leftover_short: "length m < 64 \<Longrightarrow> leftover m = m" and fips_blocks_short: "length m < 64 \<Longrightarrow> fips_blocks m = []"
  by (simp_all add: leftover_def fips_blocks.simps)

lemma fips_blocks_full: "length b = 64 \<Longrightarrow> fips_blocks (b @ m) = b # fips_blocks m"
  by (simp add: fips_blocks.simps[of "b @ m"])

lemma leftover_full: "length b = 64 \<Longrightarrow> leftover (b @ m) = leftover m"
  using div_add_self1[of 64 "length m"] by (simp add: leftover_def del: div_add_self1)

lemma length_fips_blocks: "length (fips_blocks m) = length m div 64"
  by (induction m rule: fips_blocks.induct) (subst fips_blocks.simps, simp add: le_div_geq not_less)

lemma length_leftover: "length (leftover m) = length m mod 64"
  by (simp add: leftover_def minus_mult_div_eq_mod)

lemma fips_blocks_append: "fips_blocks (m @ x) = fips_blocks m @ fips_blocks (leftover m @ x)"
proof (induction m rule: fips_blocks.induct)
  case (1 m)
  show ?case
  proof (cases "length m < 64")
    case True then show ?thesis by (simp add: leftover_short fips_blocks_short)
  next
    case False
    have m: "m = take 64 m @ drop 64 m" "length (take 64 m) = 64" using False by simp_all
    have "fips_blocks (m @ x) = take 64 m # fips_blocks (drop 64 m @ x)"
      "fips_blocks m = take 64 m # fips_blocks (drop 64 m)" "leftover m = leftover (drop 64 m)"
      using fips_blocks_full[OF m(2), of "drop 64 m @ x"] fips_blocks_full[OF m(2), of "drop 64 m"]
        leftover_full[OF m(2), of "drop 64 m"] by (simp_all flip: append_assoc)
    then show ?thesis using 1 False by simp
  qed
qed

definition absorbed :: "regs \<Rightarrow> ulong \<Rightarrow> bytes \<Rightarrow> sha1_state \<Rightarrow> bool" where
  "absorbed H n m st \<longleftrightarrow>
     length (digest st) = 5 \<and> regs_of (digest st) = absorb H m \<and> buffer st = leftover m \<and>
     transforms st = n + of_nat (length (fips_blocks m))"

lemma update_loop_absorbs:
  "length (digest st) = 5 \<Longrightarrow> (if good then length (buffer st) = 64 else length (buffer st) < 64 \<and> is = []) \<Longrightarrow>
   absorbed (regs_of (digest st)) (transforms st) (buffer st @ is) (update_loop st is good)"
proof (induction st "is" good rule: update_loop.induct)
  case (1 st "is" good)
  show ?case
  proof (cases good)
    case False
    with 1 show ?thesis
      by (subst update_loop.simps) (simp add: absorbed_def leftover_short fips_blocks_short)
  next
    case True
    define st1 where "st1 = sha1_transform (buffer_to_block (buffer st)) st"
    have b: "length (buffer st) = 64" using 1 True by simp
    note w = buffer_to_block_words[OF b]
    note t = sha1_transform_step[OF "1.prems"(1) w(2), folded st1_def, unfolded w(1)]
    have step: "update_loop st is good
        = update_loop (st1\<lparr>buffer := take 64 is\<rparr>) (drop 64 is) (64 \<le> length is)"
      using True by (subst update_loop.simps) (simp add: sha1_read_def st1_def Let_def)
    have "absorbed (regs_of (digest st1)) (transforms st1) is (update_loop st is good)"
      unfolding step
      using "1.IH"[OF True st1_def, of "(take 64 is, drop 64 is, 64 \<le> length is)" "take 64 is" "(drop 64 is, 64 \<le> length is)" "drop 64 is" "64 \<le> length is"]
        t(1) by (simp add: sha1_read_def flip: st1_def)
    then show ?thesis
      by (simp add: absorbed_def fips_blocks_full[OF b] leftover_full[OF b] t)
  qed
qed

lemma regs_of_init: "length (digest sha1_init) = 5" "regs_of (digest sha1_init) = fips_H0"
  by (simp_all add: sha1_init_def regs_of_def lo_def fips_H0_def)

lemma sha1_update_absorbs: "absorbed fips_H0 0 s (sha1_update sha1_init s)"
proof -
  have "absorbed fips_H0 0 (take 64 s @ drop 64 s)
     (update_loop (sha1_init\<lparr>buffer := take 64 s\<rparr>) (drop 64 s) (64 \<le> length s))"
    using update_loop_absorbs[of "sha1_init\<lparr>buffer := take 64 s\<rparr>" "64 \<le> length s" "drop 64 s"]
      regs_of_init by (simp add: sha1_init_def)
  then show ?thesis by (simp add: sha1_update_def sha1_read_def sha1_init_def)
qed

section \<open>The last blocks\<close>

lemma word_be_be32: "word_be (be32 w) = w"
  by (simp add: word_be_def)

lemma fips_words_append:
  assumes "length z = 56" "length a = 4" "length b = 4"
  shows "fips_words (z @ a @ b) = map (\<lambda>i. word_be (take 4 (drop (4 * i) z))) [0..<14] @ [word_be a, word_be b]"
  using assms by (simp add: fips_words_def upt_rec)

lemma fips_words_be64:
  assumes "length z = 56"
  shows "fips_words (z @ be64 w) = take 14 (fips_words (z @ replicate 8 c)) @ [ucast (drop_bit 32 w), ucast w]"
proof -
  have "replicate 8 c = replicate 4 c @ replicate 4 c" by (simp flip: replicate_add)
  then show ?thesis using assms by (simp add: be64_def fips_words_append word_be_be32)
qed

lemma list16: "length b = 16 \<Longrightarrow> b = take 14 b @ [b ! 14, b ! (15::nat)]"
  using take_Suc_conv_app_nth[of 15 b] take_Suc_conv_app_nth[of 14 b] by simp

lemma last_words:
  assumes "length b = 16"
  shows "map lo (b[15 := n, 14 := k]) = take 14 (map lo b) @ [lo k, lo n]"
  by (subst list16[OF assms]) (simp add: assms list_update_append take_map)

lemma be_val_zeros: "be_val (replicate n (char_of (0::nat))) = 0"
  by (induction n) (simp_all add: be_val_def)

lemma zero_words: "fips_words (replicate 64 (char_of (0::nat))) = replicate 16 0"
proof -
  have "word_be (replicate 4 (char_of (0::nat))) = 0" by (simp add: word_be_def be_val_zeros)
  then have "map (\<lambda>i. word_be (take 4 (drop (4 * i) (replicate 64 (char_of (0::nat)))))) [0..<16]
      = map (\<lambda>i. 0) [0..<16]"
    by (intro map_cong) (auto simp: min_def)
  then show ?thesis by (simp add: fips_words_def map_replicate_const)
qed

abbreviation NUL :: char where
  "NUL \<equiv> char_of (0::nat)"

abbreviation bit_len :: "bytes \<Rightarrow> 64 word" where
  "bit_len m \<equiv> of_nat (8 * length m)"

lemma fips_blocks_pad:
  "fips_blocks (fips_pad m) = fips_blocks m @
     fips_blocks (leftover m @ [char_of (0x80::nat)]
       @ replicate ((119 - length (leftover m)) mod 64) NUL @ be64 (bit_len m))"
  unfolding fips_pad_def fips_blocks_append[of m] length_leftover by simp

lemma length_be64 [simp]: "length (be64 w) = 8"
  by (simp add: be64_def)

lemma fips_blocks_one: "length b = 64 \<Longrightarrow> fips_blocks b = [b]"
  using fips_blocks_full[of b "[]"] by (simp add: fips_blocks_short)

lemma pad_one:
  assumes "length b \<le> 55"
  shows "fips_blocks (b @ [char_of (0x80::nat)] @ replicate ((119 - length b) mod 64) NUL @ be64 w)
    = [b @ [char_of (0x80::nat)] @ replicate (55 - length b) NUL @ be64 w]"
proof -
  have "119 - length b = (55 - length b) + 64" using assms by simp
  then have "(119 - length b) mod 64 = (55 - length b) mod 64" by (simp only: mod_add_self2)
  also have "\<dots> = 55 - length b" by (rule mod_less) simp
  finally have m: "(119 - length b) mod 64 = 55 - length b" .
  show ?thesis unfolding m by (rule fips_blocks_one) (use assms in simp)
qed

lemma pad_two:
  assumes "55 < length b" "length b < 64"
  shows "fips_blocks (b @ [char_of (0x80::nat)] @ replicate ((119 - length b) mod 64) NUL @ be64 w)
    = [b @ [char_of (0x80::nat)] @ replicate (63 - length b) NUL, replicate 56 NUL @ be64 w]"
proof -
  have m: "(119 - length b) mod 64 = (63 - length b) + 56" using assms by simp
  have "fips_blocks ((b @ [char_of (0x80::nat)] @ replicate (63 - length b) NUL) @ replicate 56 NUL @ be64 w)
     = (b @ [char_of (0x80::nat)] @ replicate (63 - length b) NUL) # fips_blocks (replicate 56 NUL @ be64 w)"
    by (rule fips_blocks_full) (use assms in simp)
  also have "fips_blocks (replicate 56 NUL @ be64 w) = [replicate 56 NUL @ be64 w]"
    by (rule fips_blocks_one) simp
  finally show ?thesis unfolding m replicate_add by simp
qed

text \<open>What \<open>final\<close> feeds to \<open>transform\<close>, in its two cases.\<close>

definition padded :: "bytes \<Rightarrow> bytes" where
  "padded b = b @ [char_of (0x80::nat)] @ replicate (63 - length b) NUL"

definition with_len :: "ulong \<Rightarrow> ulong list \<Rightarrow> ulong list" where
  "with_len n block = block[15 := n, 14 := drop_bit 32 n]"

lemma sha1_final_cases:
  fixes st
  defines "n \<equiv> (transforms st * 64 + of_nat (length (buffer st))) * 8"
    and "blk \<equiv> buffer_to_block (padded (buffer st))"
  shows "length (buffer st) \<le> 55 \<Longrightarrow> fst (sha1_final st)
      = concat (map (\<lambda>d. hex8 (ucast d)) (digest (sha1_transform (with_len n blk) st)))"
    and "55 < length (buffer st) \<Longrightarrow> fst (sha1_final st)
      = concat (map (\<lambda>d. hex8 (ucast d))
          (digest (sha1_transform (with_len n (replicate 14 0 @ drop 14 blk)) (sha1_transform blk st))))"
  unfolding n_def blk_def padded_def with_len_def sha1_final_def by (simp_all add: Let_def)


lemma total_bits_eq:
  assumes "absorbed H 0 m st"
  shows "(transforms st * 64 + of_nat (length (buffer st))) * 8 = bit_len m"
proof -
  have "(of_nat (length m div 64) * 64 + of_nat (length m mod 64) :: 64 word) = of_nat (length m)"
    using arg_cong[OF div_mult_mod_eq[of "length m" 64], of "of_nat :: nat \<Rightarrow> 64 word"]
    by (simp only: of_nat_add of_nat_mult of_nat_numeral)
  then show ?thesis using assms by (simp add: absorbed_def length_fips_blocks length_leftover mult.commute)
qed

lemma with_len_words:
  assumes "length b = 16" "length z = 56" "map lo b = fips_words (z @ replicate 8 NUL)"
  shows "map lo (with_len n b) = fips_words (z @ be64 n)" "length (with_len n b) = 16"
  using assms last_words[OF assms(1)] fips_words_be64[OF assms(2), of n NUL]
  by (simp_all add: with_len_def lo_def)

lemma digest_hex: "length d = 5 \<Longrightarrow> map (\<lambda>d. hex8 (ucast d)) d = map hex8 (regs_list (regs_of d))"
  by (simp add: regs_list_regs_of lo_def)

lemma sha1_final_digest:
  assumes a: "absorbed H 0 m st"
  shows "fst (sha1_final st) = concat (map hex8 (regs_list (absorb H (fips_pad m))))"
proof -
  define b where "b = leftover m"
  define blk where "blk = buffer_to_block (padded b)"
  have st: "length (digest st) = 5" "regs_of (digest st) = absorb H m" "buffer st = b"
    using a by (simp_all add: absorbed_def b_def)
  have lb: "length b < 64" by (simp add: b_def length_leftover)
  then have lp: "length (padded b) = 64" by (simp add: padded_def)
  note blk = buffer_to_block_words[OF lp, folded blk_def]
  show ?thesis
  proof (cases "length b \<le> 55")
    case True
    define w where "w = b @ [char_of (0x80::nat)] @ replicate (55 - length b) NUL"
    have w: "padded b = w @ replicate 8 NUL" "length w = 56"
      using True by (simp_all add: padded_def w_def flip: replicate_add)
    note wl = with_len_words[OF blk(2) w(2) blk(1)[unfolded w(1)], of "bit_len m"]
    note t = sha1_transform_step[OF st(1) wl(2)]
    have "absorb H (fips_pad m) = fips_compress (absorb H m) (fips_words (w @ be64 (bit_len m)))"
      unfolding fips_blocks_pad b_def[symmetric] pad_one[OF True] by (simp add: w_def)
    then show ?thesis
      using sha1_final_cases(1)[of st] True st digest_hex[OF t(1)] t(2) wl(1) total_bits_eq[OF a]
      by (simp add: blk_def)
  next
    case False
    define blk' where "blk' = replicate 14 0 @ drop 14 blk"
    have l': "length blk' = 16" using blk(2) by (simp add: blk'_def)
    have "map lo (with_len n blk') = fips_words (replicate 56 NUL @ be64 n)" for n
      using last_words[OF l', of n "drop_bit 32 n"] fips_words_be64[of "replicate 56 NUL" n NUL] zero_words
      by (simp add: with_len_def blk'_def lo_def flip: replicate_add)
    then have wl: "map lo (with_len (bit_len m) blk') = fips_words (replicate 56 NUL @ be64 (bit_len m))"
      "length (with_len (bit_len m) blk') = 16" using l' by (simp_all add: with_len_def)
    note t1 = sha1_transform_step[OF st(1) blk(2)]
    note t2 = sha1_transform_step[OF t1(1) wl(2)]
    have "absorb H (fips_pad m) = fips_compress (fips_compress (absorb H m) (fips_words (padded b)))
        (fips_words (replicate 56 NUL @ be64 (bit_len m)))"
      unfolding fips_blocks_pad b_def[symmetric] using pad_two[of b "bit_len m"] False lb by (simp add: padded_def)
    then show ?thesis
      using sha1_final_cases(2)[of st] False st digest_hex[OF t2(1)] t2(2) t1(2) wl(1) blk(1) total_bits_eq[OF a]
      by (simp add: blk_def blk'_def)
  qed
qed


section \<open>The digest\<close>

lemma drop_bit_and_15: "drop_bit k w AND 15 = take_bit 4 (drop_bit k (w :: w32))"
  by (simp add: take_bit_eq_mask mask_eq_exp_minus_1)

lemma byte_nibbles:
  fixes w :: w32
  defines "c k \<equiv> (char_of (unat (drop_bit (8 * k) w)) :: char)"
  shows "byte_val (c k) div 16 = unat (drop_bit (8 * k + 4) w AND 15)"
    "byte_val (c k) mod 16 = unat (drop_bit (8 * k) w AND 15)"
proof -
  have u: "unat (drop_bit m w) = unat w div 2 ^ m" for m using unat_drop_bit_eq[of m w] drop_bit_eq_div[of m "unat w"] by (rule trans)
  have t: "unat (drop_bit m w AND 15) = unat w div 2 ^ m mod 16" for m
    proof -
    have "unat (take_bit 4 (drop_bit m w)) = take_bit 4 (unat (drop_bit m w))" by (rule unsigned_take_bit_eq)
    also have "\<dots> = unat w div 2 ^ m mod 2 ^ 4" unfolding u take_bit_eq_mod ..
    finally show ?thesis unfolding drop_bit_and_15 by simp
  qed
  have "n mod 256 div 16 = n div 16 mod (16 :: nat)" for n
    using mod_mult2_eq[of n 16 16] by simp
  then show "byte_val (c k) div 16 = unat (drop_bit (8 * k + 4) w AND 15)"
    unfolding c_def t by (simp add: u power_add div_mult2_eq)
  show "byte_val (c k) mod 16 = unat (drop_bit (8 * k) w AND 15)"
    unfolding c_def t by (simp add: u mod_mod_cancel)
qed

definition hex_of :: "bytes \<Rightarrow> string" where
  "hex_of bs = concat (map (\<lambda>c. [hex_lower (byte_val c div 16), hex_lower (byte_val c mod 16)]) bs)"

lemma hex8_be32: "hex8 w = hex_of (be32 w)"
  using byte_nibbles[of 0 w] byte_nibbles[of 1 w] byte_nibbles[of 2 w] byte_nibbles[of 3 w]
  by (simp add: hex8_def hex_of_def be32_def)

lemma hex_of_concat: "concat (map (\<lambda>w. hex_of (be32 w)) ws) = hex_of (concat (map be32 ws))"
  by (induction ws) (simp_all add: hex_of_def)

text \<open>
  C11. \<open>sha1(s)\<close> is the lower-case hexadecimal form of the SHA-1 of FIPS 180-4, for every
  string (whose length in bits fits in 64 bits, as for every string of the machine; the
  model reduces it as the code does).
\<close>

theorem sha1_is_fips: "sha1 s = hex_of (fips_sha1 s)"
proof -
  have "sha1 s = concat (map hex8 (regs_list (absorb fips_H0 (fips_pad s))))"
    unfolding sha1_def by (rule sha1_final_digest) (rule sha1_update_absorbs)
  then show ?thesis by (simp add: hex8_be32[abs_def] hex_of_concat fips_sha1_def)
qed

lemma hexDecode_sha1: "hexDecode (sha1 s) = fips_sha1 s"
proof -
  have "hexDecode (hex_of bs) = bs" for bs unfolding hex_of_def by (rule hexDecode_pairs)
  moreover have "sha1 s = hex_of (fips_sha1 s)"
    using sha1_final_digest[OF sha1_update_absorbs[of s]]
    by (simp add: sha1_def hex8_be32[abs_def] hex_of_concat fips_sha1_def)
  ultimately show ?thesis by simp
qed

end
