(* ===== verification/SharedQueue.thy ===== *)
theory SharedQueue
  imports Transition
begin

text \<open>
  \<open>includes/network_part/SharedQueue.h\<close>: the queue of peers between the client and its
  connection threads. First its operations as a sequential caller sees them, with the
  \<open>fifo_queue\<close> interface its clients use; then the threads that share it: an operation
  is atomic under the mutex, \<open>push_back\<close> and \<open>clear\<close> notify after unlocking, a consumer in \<open>front\<close> or \<open>pop_front\<close>
  that finds the queue empty sleeps until it is notified, or wakes up without a reason, and then looks again.
\<close>

section \<open>The operations\<close>

definition sq_push_back :: "'a \<Rightarrow> 'a list \<Rightarrow> 'a list" where
  "sq_push_back item queue = queue @ [item]"

text \<open>
  \<open>front\<close> and \<open>pop_front\<close> wait while the queue is empty, and return a reference. That of \<open>front\<close> is to the first element,
  that of \<open>pop_front\<close> to the element it has just destroyed, for which the value is the one it had: reading it is
  undefined.
\<close>

datatype 'a element_ref = Live (last_value: 'a) | Dangling (last_value: 'a)

fun read_ref :: "'a element_ref \<Rightarrow> 'a res" where
  "read_ref (Live x) = Inr x"
| "read_ref (Dangling x) = Inl (Undefined DeadObject)"

definition sq_front :: "'a list \<Rightarrow> 'a element_ref res" where
  "sq_front queue = (case queue of [] \<Rightarrow> Inl Blocks | x # _ \<Rightarrow> Inr (Live x))"

definition sq_pop_front :: "'a list \<Rightarrow> ('a element_ref \<times> 'a list) res" where
  "sq_pop_front queue = (case queue of [] \<Rightarrow> Inl Blocks | x # xs \<Rightarrow> Inr (Dangling x, xs))"

definition sq_clear :: "'a list \<Rightarrow> 'a list" where
  "sq_clear queue = []"

definition sq_size :: "'a list \<Rightarrow> nat" where
  "sq_size queue = length queue"

definition sq_empty :: "'a list \<Rightarrow> bool" where
  "sq_empty queue \<longleftrightarrow> sq_size queue = 0"

locale fifo_queue =
  fixes empt :: 'q
    and enq :: "'a \<Rightarrow> 'q \<Rightarrow> 'q"
    and deq :: "'q \<Rightarrow> ('r \<times> 'q) res"
    and val :: "'r \<Rightarrow> 'a"
    and sz :: "'q \<Rightarrow> nat"
    and items :: "'q \<Rightarrow> 'a list"
  assumes items_empty: "items empt = []"
    and items_enq: "items (enq x q) = items q @ [x]"
    and deq_empty: "items q = [] \<Longrightarrow> deq q = Inl Blocks"
    and deq_items: "items q = x # xs \<Longrightarrow> \<exists>r q'. deq q = Inr (r, q') \<and> val r = x \<and> items q' = xs"
    and sz_items: "sz q = length (items q)"
begin

fun enq_all :: "'a list \<Rightarrow> 'q \<Rightarrow> 'q" where
  "enq_all [] q = q"
| "enq_all (x # xs) q = enq_all xs (enq x q)"

fun deq_n :: "nat \<Rightarrow> 'q \<Rightarrow> ('a list \<times> 'q) res" where
  "deq_n 0 q = Inr ([], q)"
| "deq_n (Suc n) q = rbind (deq q) (\<lambda>(r, q1). rbind (deq_n n q1) (\<lambda>(xs, q2). Inr (val r # xs, q2)))"

lemma items_enq_all: "items (enq_all xs q) = items q @ xs"
  by (induction xs arbitrary: q) (simp_all add: items_enq)

lemma deq_n_items:
  "n \<le> length (items q) \<Longrightarrow>
   \<exists>q'. deq_n n q = Inr (take n (items q), q') \<and> items q' = drop n (items q)"
proof (induction n arbitrary: q)
  case (Suc n)
  then obtain x xs where x: "items q = x # xs" by (cases "items q") auto
  then obtain r q1 where q1: "deq q = Inr (r, q1)" "val r = x" "items q1 = xs" using deq_items by blast
  with Suc.IH[of q1] Suc.prems x show ?case by auto
qed simp

text \<open>What is put in comes out in order, and one more dequeue waits.\<close>

lemma fifo:
  "\<exists>q'. deq_n (length xs) (enq_all xs empt) = Inr (xs, q') \<and> deq q' = Inl Blocks"
  using deq_n_items[of "length xs" "enq_all xs empt"] items_enq_all[of xs empt]
  by (auto simp: items_empty deq_empty)

end

interpretation sq: fifo_queue "[]" sq_push_back sq_pop_front last_value sq_size "\<lambda>q. q"
  by unfold_locales (auto simp: sq_push_back_def sq_pop_front_def sq_size_def)

lemma pop_front_Inr [simp]: "sq_pop_front q = Inr (r, q') \<longleftrightarrow> (\<exists>x. r = Dangling x \<and> q = x # q')"
  by (auto simp: sq_pop_front_def split: list.splits)

lemma pop_front_Inl [simp]: "sq_pop_front q = Inl e \<longleftrightarrow> q = [] \<and> e = Blocks"
  by (auto simp: sq_pop_front_def split: list.splits)

lemma front_Inl [simp]: "sq_front q = Inl e \<longleftrightarrow> q = [] \<and> e = Blocks"
  by (auto simp: sq_front_def split: list.splits)

section \<open>The threads that share it\<close>

text \<open>
  A thread outside the operations that wait, or in one of them: about to look at the queue after waking up without a
  reason, asleep, or woken by a notification.
\<close>

datatype waiting_call = InFront | InPop

datatype consumer = Running | Looking waiting_call | Sleeping waiting_call | Notified waiting_call

fun may_look :: "consumer \<Rightarrow> waiting_call \<Rightarrow> bool" where
  "may_look Running call = True"
| "may_look (Looking call') call = (call' = call)"
| "may_look (Notified call') call = (call' = call)"
| "may_look (Sleeping call') call = False"

record 'a sq_state =
  sq_queue :: "'a list"
  sq_consumers :: "consumer list"
  sq_notifies :: nat                \<comment> \<open>\<open>notify_one\<close> calls still to be made\<close>
  sq_pushed :: "'a list"            \<comment> \<open>ghost: what was pushed since the last \<open>clear\<close>\<close>
  sq_popped :: "(nat \<times> 'a) list"    \<comment> \<open>ghost: who removed what since then\<close>
  sq_front_waited :: bool           \<comment> \<open>ghost: some thread has waited in \<open>front\<close>\<close>

definition sq_init :: "'a sq_state \<Rightarrow> bool" where
  "sq_init s \<longleftrightarrow> sq_queue s = [] \<and> sq_notifies s = 0 \<and> sq_pushed s = [] \<and> sq_popped s = []
     \<and> set (sq_consumers s) \<subseteq> {Running} \<and> \<not> sq_front_waited s"

definition set_consumer :: "nat \<Rightarrow> consumer \<Rightarrow> 'a sq_state \<Rightarrow> 'a sq_state" where
  "set_consumer c k s = s\<lparr>sq_consumers := (sq_consumers s)[c := k]\<rparr>"

definition consumer_at :: "'a sq_state \<Rightarrow> nat \<Rightarrow> consumer \<Rightarrow> bool" where
  "consumer_at s c k \<longleftrightarrow> c < length (sq_consumers s) \<and> sq_consumers s ! c = k"

inductive sq_step :: "'a sq_state \<Rightarrow> 'a sq_state \<Rightarrow> bool" where
  push: "sq_step s (s\<lparr>sq_queue := sq_push_back x (sq_queue s), sq_notifies := Suc (sq_notifies s),
                     sq_pushed := sq_pushed s @ [x]\<rparr>)"
| clear: "sq_step s (s\<lparr>sq_queue := sq_clear (sq_queue s), sq_notifies := Suc (sq_notifies s),
                      sq_pushed := [], sq_popped := []\<rparr>)"
| notify: "sq_notifies s = Suc n \<Longrightarrow> consumer_at s c (Sleeping call) \<Longrightarrow>
    sq_step s (set_consumer c (Notified call) (s\<lparr>sq_notifies := n\<rparr>))"
| notify_none: "sq_notifies s = Suc n \<Longrightarrow> \<forall>call. Sleeping call \<notin> set (sq_consumers s) \<Longrightarrow>
    sq_step s (s\<lparr>sq_notifies := n\<rparr>)"
| front: "consumer_at s c k \<Longrightarrow> may_look k InFront \<Longrightarrow> sq_front (sq_queue s) = Inr r \<Longrightarrow>
    sq_step s (set_consumer c Running s)"
| front_sleep: "consumer_at s c k \<Longrightarrow> may_look k InFront \<Longrightarrow> sq_front (sq_queue s) = Inl Blocks \<Longrightarrow>
    sq_step s (set_consumer c (Sleeping InFront) (s\<lparr>sq_front_waited := True\<rparr>))"
| pop: "consumer_at s c k \<Longrightarrow> may_look k InPop \<Longrightarrow> sq_pop_front (sq_queue s) = Inr (r, q) \<Longrightarrow>
    sq_step s (set_consumer c Running (s\<lparr>sq_queue := q, sq_popped := sq_popped s @ [(c, last_value r)]\<rparr>))"
| pop_sleep: "consumer_at s c k \<Longrightarrow> may_look k InPop \<Longrightarrow> sq_pop_front (sq_queue s) = Inl Blocks \<Longrightarrow>
    sq_step s (set_consumer c (Sleeping InPop) s)"
| spurious: "consumer_at s c (Sleeping call) \<Longrightarrow> sq_step s (set_consumer c (Looking call) s)"

inductive_cases sq_stepE: "sq_step s s'"

lemma set_consumer_simps [simp]:
  "sq_queue (set_consumer c k s) = sq_queue s" "sq_notifies (set_consumer c k s) = sq_notifies s"
  "sq_pushed (set_consumer c k s) = sq_pushed s" "sq_popped (set_consumer c k s) = sq_popped s"
  "sq_front_waited (set_consumer c k s) = sq_front_waited s"
  "sq_consumers (set_consumer c k s) = (sq_consumers s)[c := k]"
  by (simp_all add: set_consumer_def)

definition count_state :: "consumer \<Rightarrow> consumer list \<Rightarrow> nat" where
  "count_state k cs = length (filter (\<lambda>c. c = k) cs)"

text \<open>
  The invariant: nothing lost, duplicated or reordered since the last \<open>clear\<close>; and as long as no thread has waited in
  \<open>front\<close>, for every queued element, while somebody sleeps, somebody is awake or about to be
  woken for it.
\<close>

definition pops_only :: "consumer list \<Rightarrow> bool" where
  "pops_only cs \<longleftrightarrow> set cs \<subseteq> {Running, Looking InPop, Sleeping InPop, Notified InPop}"

definition sq_inv :: "'a sq_state \<Rightarrow> bool" where
  "sq_inv s \<longleftrightarrow>
     sq_pushed s = map snd (sq_popped s) @ sq_queue s \<and>
     (\<not> sq_front_waited s \<longrightarrow> pops_only (sq_consumers s) \<and>
       (Sleeping InPop \<in> set (sq_consumers s) \<longrightarrow>
          length (sq_queue s) \<le> count_state (Notified InPop) (sq_consumers s) + sq_notifies s))"

lemma count_state_update:
  "c < length cs \<Longrightarrow> count_state k (cs[c := k']) + of_bool (cs ! c = k) = count_state k cs + of_bool (k' = k)"
proof (induction cs arbitrary: c)
  case (Cons a cs)
  then show ?case by (cases c) (auto simp: count_state_def)
qed simp

lemma pops_only_at: "pops_only cs \<Longrightarrow> c < length cs \<Longrightarrow> cs ! c \<in> {Running, Looking InPop, Sleeping InPop, Notified InPop}"
  unfolding pops_only_def using nth_mem by blast

lemma pops_only_update:
  "pops_only cs \<Longrightarrow> k \<in> {Running, Looking InPop, Sleeping InPop, Notified InPop} \<Longrightarrow> pops_only (cs[c := k])"
  unfolding pops_only_def using set_update_subset_insert[of cs c k] by blast

lemma sleeping_before: "Sleeping call \<in> set (cs[c := k]) \<Longrightarrow> k \<noteq> Sleeping call \<Longrightarrow> Sleeping call \<in> set cs"
  using set_update_subset_insert[of cs c k] by auto

lemma sq_inv_step: "sq_step s s' \<Longrightarrow> sq_inv s \<Longrightarrow> sq_inv s'"
proof (induction rule: sq_step.induct)
  case (notify s n c call)
  then have at: "c < length (sq_consumers s)" "sq_consumers s ! c = Sleeping call" by (simp_all add: consumer_at_def)
  show ?case
  proof (cases "sq_front_waited s")
    case False
    with notify(3) have po: "pops_only (sq_consumers s)" by (simp add: sq_inv_def)
    with pops_only_at[OF po at(1)] at(2) have "call = InPop" by auto
    moreover have "Sleeping InPop \<in> set (sq_consumers s)" using at calculation by (metis nth_mem)
    ultimately show ?thesis using notify count_state_update[OF at(1), of "Notified InPop" "Notified InPop"] at po
      by (auto simp: sq_inv_def intro: pops_only_update)
  qed (use notify in \<open>simp add: sq_inv_def\<close>)
next
  case (front s c k r)
  then have at: "c < length (sq_consumers s)" "sq_consumers s ! c = k" by (simp_all add: consumer_at_def)
  show ?case
  proof (cases "sq_front_waited s")
    case False
    with front(4) have "pops_only (sq_consumers s)" by (simp add: sq_inv_def)
    with pops_only_at[OF this at(1)] at(2) front(2) have "k = Running" by auto
    then have "(sq_consumers s)[c := Running] = sq_consumers s" using at by (simp add: list_update_same_conv)
    with front(4) show ?thesis by (simp add: sq_inv_def)
  qed (use front in \<open>simp add: sq_inv_def\<close>)
next
  case (pop s c k r q)
  then have at: "c < length (sq_consumers s)" "sq_consumers s ! c = k" by (simp_all add: consumer_at_def)
  obtain x where x: "r = Dangling x" "sq_queue s = x # q" using pop(3) by auto
  show ?case
    using pop(4) x count_state_update[OF at(1), of "Notified InPop" Running] sleeping_before[of InPop "sq_consumers s" c Running]
    by (cases "sq_consumers s ! c = Notified InPop") (auto simp: sq_inv_def intro: pops_only_update)
next
  case (spurious s c call)
  then have at: "c < length (sq_consumers s)" "sq_consumers s ! c = Sleeping call" by (simp_all add: consumer_at_def)
  show ?case
  proof (cases "sq_front_waited s")
    case False
    with spurious(2) have po: "pops_only (sq_consumers s)" by (simp add: sq_inv_def)
    with pops_only_at[OF po at(1)] at(2) have "call = InPop" by auto
    then show ?thesis using spurious(2) count_state_update[OF at(1), of "Notified InPop" "Looking InPop"] at
        sleeping_before[of InPop "sq_consumers s" c "Looking InPop"] po
      by (auto simp: sq_inv_def intro: pops_only_update)
  qed (use spurious in \<open>simp add: sq_inv_def\<close>)
qed (auto simp: sq_inv_def sq_push_back_def sq_clear_def intro: pops_only_update)

interpretation sqi: invariant_system sq_init sq_step sq_inv
proof
  show "sq_init s \<Longrightarrow> sq_inv s" for s by (auto simp: sq_init_def sq_inv_def pops_only_def)
  show "sq_inv s \<Longrightarrow> sq_step s s' \<Longrightarrow> sq_inv s'" for s s' by (rule sq_inv_step)
qed

text \<open>
  C14. The shared queue in every interleaving: the elements that \<open>pop_front\<close> has removed since the last \<open>clear\<close>, in
  order, followed by what is queued, are what was pushed since then, in order; and as long as no thread has had to wait in
  \<open>front\<close>, which nothing in the program calls, no wake-up is lost: if an element is queued and a thread sleeps in
  \<open>pop_front\<close>, then some other thread is awake for it or a notification is on its way. But the reference that
  \<open>pop_front\<close> returns is always to a destroyed element, which its caller may not read.
\<close>

theorem shared_queue_fifo:
  assumes "sq_init s0" "sq_step\<^sup>*\<^sup>* s0 s"
  shows "sq_pushed s = map snd (sq_popped s) @ sq_queue s \<and>
    (\<not> sq_front_waited s \<and> Sleeping InPop \<in> set (sq_consumers s) \<and> sq_queue s \<noteq> [] \<longrightarrow>
       Notified InPop \<in> set (sq_consumers s) \<or> 0 < sq_notifies s) \<and>
    (\<forall>r q. sq_pop_front (sq_queue s) = Inr (r, q) \<longrightarrow> last_value r # q = sq_queue s \<and> read_ref r = Inl (Undefined DeadObject))"
proof -
  have "Notified InPop \<in> set (sq_consumers s)" if "0 < count_state (Notified InPop) (sq_consumers s)"
    using that by (auto simp: count_state_def filter_empty_conv)
  then show ?thesis using sqi.inv_reachable[OF assms]
    by (cases "sq_queue s"; cases "sq_notifies s") (auto simp: sq_inv_def)
qed

text \<open>Two consumers, one asleep, one push not yet notified.\<close>

definition sq_example :: "nat sq_state" where
  "sq_example = \<lparr>sq_queue = [], sq_consumers = [Running, Running], sq_notifies = 0,
                 sq_pushed = [], sq_popped = [], sq_front_waited = False\<rparr>"

definition sq_example_pushed :: "nat sq_state" where
  "sq_example_pushed = \<lparr>sq_queue = [7], sq_consumers = [Sleeping InPop, Running], sq_notifies = 1,
                        sq_pushed = [7], sq_popped = [], sq_front_waited = False\<rparr>"

lemma sq_example_run: "sq_step\<^sup>*\<^sup>* sq_example sq_example_pushed"
proof -
  let ?s1 = "set_consumer 0 (Sleeping InPop) sq_example"
  have "sq_step sq_example ?s1"
    by (rule sq_step.pop_sleep[of _ _ Running]) (simp_all add: sq_example_def consumer_at_def)
  moreover have "sq_step ?s1 sq_example_pushed"
    using sq_step.push[of ?s1 7] by (simp add: sq_example_def sq_example_pushed_def sq_push_back_def set_consumer_def)
  ultimately show ?thesis by (meson converse_rtranclp_into_rtranclp r_into_rtranclp)
qed

lemma shared_queue_fifo_witness:
  "sq_init sq_example \<and> sq_step\<^sup>*\<^sup>* sq_example sq_example_pushed \<and>
   (Notified InPop \<in> set (sq_consumers sq_example_pushed) \<or> 0 < sq_notifies sq_example_pushed)"
proof -
  have i: "sq_init sq_example" by (simp add: sq_init_def sq_example_def)
  from shared_queue_fifo[OF i sq_example_run] i sq_example_run show ?thesis
    by (simp add: sq_example_pushed_def)
qed

text \<open>
  A thread that waits in \<open>front\<close> can take the notification of a push and leave the element in the queue, so that a thread
  in \<open>pop_front\<close> sleeps on although there is an element, with no notification to come.
\<close>

lemma front_takes_the_wake_up:
  "\<exists>s. sq_step\<^sup>*\<^sup>* sq_example s \<and> sq_queue s = [7] \<and> sq_consumers s = [Running, Sleeping InPop] \<and> sq_notifies s = 0"
proof -
  let ?s1 = "set_consumer 0 (Sleeping InFront) (sq_example\<lparr>sq_front_waited := True\<rparr>)"
  let ?s2 = "set_consumer 1 (Sleeping InPop) ?s1"
  let ?s3 = "?s2\<lparr>sq_queue := [7], sq_notifies := 1, sq_pushed := [7]\<rparr>"
  let ?s4 = "set_consumer 0 (Notified InFront) (?s3\<lparr>sq_notifies := 0\<rparr>)"
  let ?s5 = "set_consumer 0 Running ?s4"
  have "sq_step sq_example ?s1"
    by (rule sq_step.front_sleep[of _ _ Running]) (simp_all add: sq_example_def consumer_at_def)
  moreover have "sq_step ?s1 ?s2"
    by (rule sq_step.pop_sleep[of _ _ Running]) (simp_all add: sq_example_def consumer_at_def)
  moreover have "sq_step ?s2 ?s3"
    using sq_step.push[of ?s2 7] by (simp add: sq_example_def sq_push_back_def)
  moreover have "sq_step ?s3 ?s4"
    by (rule sq_step.notify) (simp_all add: sq_example_def consumer_at_def set_consumer_def)
  moreover have "sq_step ?s4 ?s5"
    by (rule sq_step.front[of _ _ "Notified InFront" "Live 7"])
      (simp_all add: sq_example_def consumer_at_def set_consumer_def sq_front_def)
  ultimately have "sq_step\<^sup>*\<^sup>* sq_example ?s5" by (meson converse_rtranclp_into_rtranclp rtranclp.rtrancl_refl)
  then show ?thesis by (intro exI[of _ ?s5]) (simp add: sq_example_def set_consumer_def)
qed

end
