(* ===== verification/Wire.thy ===== *)
theory Wire
  imports NetUtils Codec
begin

text \<open>
  The peer-wire framing: \<open>BitTorrentMessage.cpp\<close>, the socket calls of \<open>connect.cpp\<close> and
  \<open>PeerConnection::receiveMessage\<close>. What the network delivers is a list of arrivals,
  one per \<open>recv\<close> that the kernel could answer at that point: a stream cut into pieces
  of any size, then possibly the end of the stream or an error. When the list is
  exhausted, \<open>recv\<close> waits for ever.
\<close>

section \<open>Messages\<close>

type_synonym byte8 = "8 word"

definition keepAlive :: int where "keepAlive = -1"
definition choke :: byte8 where "choke = 0"
definition unchoke :: byte8 where "unchoke = 1"
definition interested :: byte8 where "interested = 2"
definition have_id :: byte8 where "have_id = 4"
definition bitField_id :: byte8 where "bitField_id = 5"
definition request_id :: byte8 where "request_id = 6"
definition piece_id :: byte8 where "piece_id = 7"

lemmas message_ids = keepAlive_def choke_def unchoke_def interested_def have_id_def bitField_id_def
  request_id_def piece_id_def

record message =
  msg_id :: byte8
  payload :: bytes
  message_len :: "32 word"

text \<open>The constructor: the length counts the id byte, in 32 bits.\<close>

definition BitTorrentMessage :: "byte8 \<Rightarrow> bytes \<Rightarrow> message" where
  "BitTorrentMessage i p = \<lparr>msg_id = i, payload = p, message_len = of_nat (length p + 1)\<rparr>"

text \<open>The bytes of \<open>_message_len\<close> in reverse order of a little-endian machine.\<close>

definition to_string :: "message \<Rightarrow> bytes" where
  "to_string m = be32 (message_len m) @ [char_of (unat (msg_id m))] @ payload m"

section \<open>The socket\<close>

datatype arrival = Data bytes | Closed | Failed

datatype recv_ret = Got bytes | Zero | Minus1

text \<open>\<open>recv(sock, buf, n, 0)\<close>.\<close>

fun sys_recv :: "nat \<Rightarrow> arrival list \<Rightarrow> (recv_ret \<times> arrival list) res" where
  "sys_recv n [] = Inl Blocks"
| "sys_recv n (Data bs # is) =
     (if bs = [] then sys_recv n is
      else Inr (Got (take n bs), if n < length bs then Data (drop n bs) # is else is))"
| "sys_recv n (Closed # is) = Inr (Zero, Closed # is)"
| "sys_recv n (Failed # is) = Inr (Minus1, is)"

lemma sys_recv_Got: "sys_recv n is = Inr (Got bs, is') \<Longrightarrow> 0 < n \<Longrightarrow> 0 < length bs \<and> length bs \<le> n"
  by (induction n "is" rule: sys_recv.induct) (auto split: if_splits)

text \<open>The loop of \<open>receiveData\<close>, with the bytes read so far.\<close>

function recv_loop :: "nat \<Rightarrow> bytes \<Rightarrow> arrival list \<Rightarrow> (bytes \<times> arrival list) res" where
  "recv_loop expected_size buffer is =
     (if length buffer < expected_size then
        rbind (sys_recv (expected_size - length buffer) is) (\<lambda>(r, is').
          case r of
            Got bs \<Rightarrow> recv_loop expected_size (buffer @ bs) is'
          | Zero \<Rightarrow> Inl (RuntimeError ''Connection closed by peer during message receive'')
          | Minus1 \<Rightarrow> Inl (RuntimeError ''Error receiving data: ''))
      else Inr (buffer, is))"
  by pat_completeness auto
termination
  by (relation "measure (\<lambda>(n, buffer, is). n - length buffer)")
    (auto dest: sys_recv_Got simp: diff_less_mono2)

declare recv_loop.simps [simp del]

text \<open>
  \<open>std::vector<char> buffer(expected_size)\<close> throws \<open>length_error\<close> for a negative size,
  which a length prefix above \<open>INT_MAX\<close> becomes.
\<close>

definition recv_sized :: "int \<Rightarrow> arrival list \<Rightarrow> (bytes \<times> arrival list) res" where
  "recv_sized expected_size is =
     (if expected_size < 0 then Inl LengthError else recv_loop (nat expected_size) [] is)"

definition receiveData :: "int \<Rightarrow> int \<Rightarrow> arrival list \<Rightarrow> (bytes \<times> arrival list) res" where
  "receiveData sock expected_size is =
     (if sock \<le> 0 then Inl (RuntimeError ''Invalid socket'')
      else if expected_size = 0 then
        rbind (sys_recv 4 is) (\<lambda>(r, is').
          case r of
            Zero \<Rightarrow> Inl (RuntimeError ''Connection closed by peer'')
          | Minus1 \<Rightarrow> Inl (RuntimeError ''Failed to receive data: '')
          | Got bs \<Rightarrow>
              if length bs < 4 then Inl (RuntimeError ''Incomplete length prefix received'')
              else (let length_prefix = of_nat (be_val bs) :: 32 word in
                if length_prefix = 0 then Inr ([], is')
                else recv_sized (sint length_prefix) is'))
      else recv_sized expected_size is)"

definition receiveMessage :: "int \<Rightarrow> arrival list \<Rightarrow> (message \<times> arrival list) res" where
  "receiveMessage sock is =
     rbind (receiveData sock 0 is) (\<lambda>(reply, is').
       if reply = [] then Inr (BitTorrentMessage (of_int keepAlive) [], is')
       else Inr (BitTorrentMessage (of_nat (byte_val (hd reply))) (tl reply), is'))"

text \<open>
  \<open>sendData\<close>: \<open>send\<close> is called once. \<open>answers\<close> are the kernel's answers: the number of
  bytes it took, or an error; with no answer left it takes everything.
\<close>

record out_channel =
  answers :: "nat option list"
  sent :: bytes

definition sendData :: "bytes \<Rightarrow> out_channel \<Rightarrow> out_channel res" where
  "sendData data ch =
     (if data = [] then Inr ch
      else case answers ch of
        [] \<Rightarrow> Inr (ch\<lparr>sent := sent ch @ data\<rparr>)
      | None # as \<Rightarrow> Inl (RuntimeError ''Failed to write data to socket '')
      | Some k # as \<Rightarrow> Inr (ch\<lparr>answers := as, sent := sent ch @ take k data\<rparr>))"

section \<open>Reassembly\<close>

text \<open>The bytes that can still be read, up to the end of the stream or the first error.\<close>

fun stream :: "arrival list \<Rightarrow> bytes" where
  "stream [] = []"
| "stream (Data bs # is) = bs @ stream is"
| "stream (Closed # is) = []"
| "stream (Failed # is) = []"

lemma sys_recv_stream:
  "0 < n \<Longrightarrow> stream is \<noteq> [] \<Longrightarrow>
   \<exists>bs is'. sys_recv n is = Inr (Got bs, is') \<and> stream is = bs @ stream is' \<and> bs \<noteq> [] \<and> length bs \<le> n"
  by (induction n "is" rule: sys_recv.induct) (auto simp flip: append_assoc)

lemma recv_loop_stream:
  "length buffer \<le> n \<Longrightarrow> n - length buffer \<le> length (stream is) \<Longrightarrow>
   \<exists>is'. recv_loop n buffer is = Inr (buffer @ take (n - length buffer) (stream is), is') \<and>
     stream is' = drop (n - length buffer) (stream is)"
proof (induction n buffer "is" rule: recv_loop.induct)
  case (1 n buffer "is")
  show ?case
  proof (cases "length buffer < n")
    case True
    then have "stream is \<noteq> []" using "1.prems" by auto
    then obtain bs is' where r: "sys_recv (n - length buffer) is = Inr (Got bs, is')"
        "stream is = bs @ stream is'" "bs \<noteq> []" "length bs \<le> n - length buffer"
      using sys_recv_stream[of "n - length buffer" "is"] True by auto
    have "\<exists>is''. recv_loop n (buffer @ bs) is'
        = Inr ((buffer @ bs) @ take (n - length (buffer @ bs)) (stream is'), is'') \<and>
        stream is'' = drop (n - length (buffer @ bs)) (stream is')"
      by (rule "1.IH"[OF True r(1)]) (use r "1.prems" in auto)
    then show ?thesis
      using True r by (subst recv_loop.simps) auto
  qed (use "1.prems" in \<open>auto simp: recv_loop.simps\<close>)
qed

lemma recv_sized_stream:
  "0 \<le> n \<Longrightarrow> nat n \<le> length (stream is) \<Longrightarrow>
   \<exists>is'. recv_sized n is = Inr (take (nat n) (stream is), is') \<and> stream is' = drop (nat n) (stream is)"
  using recv_loop_stream[of "[]" "nat n" "is"] by (simp add: recv_sized_def)

text \<open>\<open>whole_prefix\<close>: the first read gets the four bytes of the length together.\<close>

definition whole_prefix :: "arrival list \<Rightarrow> bool" where
  "whole_prefix is = (case sys_recv 4 is of Inr (Got h, _) \<Rightarrow> length h = 4 | _ \<Rightarrow> False)"

lemma sys_recv_Got_stream:
  "sys_recv n is = Inr (Got bs, is') \<Longrightarrow> stream is = bs @ stream is'"
  by (induction n "is" rule: sys_recv.induct) (auto split: if_splits simp flip: append_assoc)

lemma whole_prefix_recv:
  assumes "whole_prefix is"
  shows "\<exists>is'. sys_recv 4 is = Inr (Got (take 4 (stream is)), is') \<and> stream is' = drop 4 (stream is)
    \<and> length (take 4 (stream is)) = 4"
proof -
  obtain h is' where h: "sys_recv 4 is = Inr (Got h, is')" "length h = 4"
    using assms by (auto simp: whole_prefix_def split: sum.splits prod.splits recv_ret.splits)
  with sys_recv_Got_stream[OF h(1)] show ?thesis by simp
qed

lemma receiveMessage_frame:
  assumes "0 < sock" "whole_prefix is" "stream is = be32 n @ reply @ r"
    and "uint n = int (length reply)" "length reply < 2 ^ 31"
  shows "\<exists>is'. receiveMessage sock is =
      Inr (if reply = [] then BitTorrentMessage (of_int keepAlive) []
           else BitTorrentMessage (of_nat (byte_val (hd reply))) (tl reply), is') \<and> stream is' = r"
proof -
  have l4: "length (be32 n) = 4" by (simp add: be32_def)
  obtain is1 where r1: "sys_recv 4 is = Inr (Got (be32 n), is1)" "stream is1 = reply @ r"
    using whole_prefix_recv[OF assms(2)] assms(3) l4 by auto
  have n: "sint n = int (length reply)"
  proof -
    have L: "LENGTH(32) - Suc 0 = 31" by simp
    have "sint n = signed_take_bit 31 (uint n)" using sint_uint[of n] unfolding L .
    also have "\<dots> = int (length reply)"
      unfolding assms(4) by (rule signed_take_bit_int_eq_self) (use assms(5) in auto)
    finally show ?thesis .
  qed
  have z: "n = 0 \<longleftrightarrow> reply = []" unfolding uint_0_iff[symmetric] assms(4) by simp
  obtain is2 where "recv_sized (sint n) is1 = Inr (reply, is2)" "stream is2 = r"
    using recv_sized_stream[of "sint n" is1] by (auto simp: n r1)
  then show ?thesis
    using assms(1) r1 l4 z by (auto simp: receiveMessage_def receiveData_def Let_def)
qed

text \<open>A message the constructor makes, of a length the receiver can hold.\<close>

definition wire_ok :: "message \<Rightarrow> bool" where
  "wire_ok m \<longleftrightarrow> length (payload m) + 1 < 2 ^ 31 \<and> message_len m = of_nat (length (payload m) + 1)"

lemma uint_of_nat32: "k < 2 ^ 31 \<Longrightarrow> uint (of_nat k :: 32 word) = int k"
  by (simp add: unsigned_of_nat take_bit_nat_eq_self)

lemma receiveMessage_to_string:
  assumes "0 < sock" "whole_prefix is" "wire_ok m" "stream is = to_string m @ r"
  shows "\<exists>is'. receiveMessage sock is = Inr (m, is') \<and> stream is' = r"
proof -
  have eq: "BitTorrentMessage (msg_id m) (payload m) = m"
    using assms(3) by (simp add: wire_ok_def BitTorrentMessage_def)
  have u: "uint (message_len m) = int (length (char_of (unat (msg_id m)) # payload m))"
    using assms(3) uint_of_nat32[of "length (payload m) + 1"] by (simp add: wire_ok_def)
  have st: "stream is = be32 (message_len m) @ (char_of (unat (msg_id m)) # payload m) @ r"
    using assms(4) by (simp add: to_string_def)
  have idw: "of_nat (unat (msg_id m) mod 256) = msg_id m"
    using unsigned_less[of "msg_id m", where ?'a = nat] by simp
  show ?thesis
    using receiveMessage_frame[OF assms(1,2) st u] assms(3) by (simp add: wire_ok_def eq idw)
qed


text \<open>The framing is a prefix codec, read from a stream that arrives in one piece.\<close>

definition wire_dec :: "bytes \<Rightarrow> (message \<times> nat) option" where
  "wire_dec s = (case receiveMessage 1 [Data s] of
     Inr (m, is') \<Rightarrow> Some (m, length s - length (stream is')) | Inl _ \<Rightarrow> None)"

lemma length_to_string: "length (to_string m) = 5 + length (payload m)"
  by (simp add: to_string_def be32_def)

interpretation wire: prefix_codec to_string wire_dec "\<lambda>m. m" wire_ok
proof
  fix m r
  assume ok: "wire_ok m"
  have "whole_prefix [Data (to_string m @ r)]"
    by (simp add: whole_prefix_def length_to_string flip: length_greater_0_conv)
  then obtain is' where "receiveMessage 1 [Data (to_string m @ r)] = Inr (m, is')" "stream is' = r"
    using receiveMessage_to_string[of 1 "[Data (to_string m @ r)]" m r] ok by auto
  then show "wire_dec (to_string m @ r) = Some (m, length (to_string m))" by (simp add: wire_dec_def)
next
  show "to_string m \<noteq> []" for m by (simp add: to_string_def)
qed

text \<open>\<open>receive_all\<close>: the messages of a stream that arrives in pieces, one after another.\<close>

fun receive_all :: "nat \<Rightarrow> int \<Rightarrow> arrival list \<Rightarrow> (message list \<times> arrival list) res" where
  "receive_all 0 sock is = Inr ([], is)"
| "receive_all (Suc n) sock is =
     rbind (receiveMessage sock is) (\<lambda>(m, is1).
     rbind (receive_all n sock is1) (\<lambda>(ms, is2). Inr (m # ms, is2)))"

text \<open>
  \<open>pieces_of m ps\<close>: the network cuts a message into non-empty pieces, anywhere except
  inside its length prefix.
\<close>

definition pieces_of :: "message \<Rightarrow> bytes list \<Rightarrow> bool" where
  "pieces_of m ps \<longleftrightarrow> concat ps = to_string m \<and> [] \<notin> set ps \<and> 4 \<le> length (hd ps) \<and> ps \<noteq> []"

lemma recv_loop_pieces:
  "[] \<notin> set ps \<Longrightarrow> length buffer + length (concat ps) = n \<Longrightarrow>
   recv_loop n buffer (map Data ps @ rest) = Inr (buffer @ concat ps, rest)"
proof (induction ps arbitrary: buffer)
  case (Cons p ps)
  then have "recv_loop n (buffer @ p) (map Data ps @ rest) = Inr ((buffer @ p) @ concat ps, rest)"
    by (intro Cons.IH) auto
  with Cons.prems show ?case by (subst recv_loop.simps) auto
qed (simp add: recv_loop.simps)

lemma sint_of_nat32: "k < 2 ^ 31 \<Longrightarrow> sint (of_nat k :: 32 word) = int k"
proof -
  assume k: "k < 2 ^ 31"
  have L: "LENGTH(32) - Suc 0 = 31" by simp
  have "sint (of_nat k :: 32 word) = signed_take_bit 31 (int k)"
    using sint_uint[of "of_nat k :: 32 word"] unfolding L uint_of_nat32[OF k] .
  with k show ?thesis by (simp add: signed_take_bit_int_eq_self)
qed

lemma receiveMessage_pieces:
  assumes "0 < sock" "wire_ok m" "pieces_of m ps"
  shows "receiveMessage sock (map Data ps @ rest) = Inr (m, rest)"
proof -
  obtain p qs where ps: "ps = p # qs" "p \<noteq> []" "4 \<le> length p" "[] \<notin> set qs"
    using assms(3) by (cases ps) (auto simp: pieces_of_def)
  define body where "body = char_of (unat (msg_id m)) # payload m"
  have m: "message_len m = of_nat (length body)" "length body < 2 ^ 31"
    using assms(2) by (simp_all add: wire_ok_def body_def)
  have cat: "p @ concat qs = be32 (message_len m) @ body"
    using assms(3) ps by (simp add: pieces_of_def to_string_def body_def)
  have l4: "length (be32 w) = 4" for w by (simp add: be32_def)
  have h: "take 4 p = be32 (message_len m)" "drop 4 p @ concat qs = body"
    using arg_cong[OF cat, of "take 4"] arg_cong[OF cat, of "drop 4"] ps(3) l4 by simp_all
  define qs' where "qs' = (if 4 < length p then drop 4 p # qs else qs)"
  have r1: "sys_recv 4 (map Data ps @ rest) = Inr (Got (be32 (message_len m)), map Data qs' @ rest)"
    using ps h(1) by (simp add: qs'_def)
  have q: "[] \<notin> set qs'" "concat qs' = body" using ps h(2) by (auto simp: qs'_def)
  have "recv_sized (sint (message_len m)) (map Data qs' @ rest) = Inr (body, rest)"
    unfolding m(1) sint_of_nat32[OF m(2)] using recv_loop_pieces[OF q(1), of "[]" "length body" rest] q(2)
    by (simp add: recv_sized_def)
  moreover have "message_len m \<noteq> 0"
    using uint_of_nat32[OF m(2)] m(1) by (auto simp: body_def)
  ultimately have "receiveData sock 0 (map Data ps @ rest) = Inr (body, rest)"
    using assms(1) r1 l4 by (simp add: receiveData_def)
  moreover have "of_nat (unat (msg_id m) mod 256) = msg_id m"
    using unsigned_less[of "msg_id m", where ?'a = nat] by simp
  ultimately show ?thesis
    using assms(2) by (simp add: receiveMessage_def body_def BitTorrentMessage_def wire_ok_def)
qed

section \<open>What the framing guarantees, and where it does not\<close>

text \<open>
  C13. Messages arrive as they were sent, in order, and nothing of what follows is
  consumed, for every way the network cuts each message into pieces that leaves its
  length prefix whole.
\<close>

theorem receive_all_pieces:
  assumes "0 < sock" "list_all2 (\<lambda>m ps. wire_ok m \<and> pieces_of m ps) ms pss"
  shows "receive_all (length ms) sock (map Data (concat pss) @ rest) = Inr (ms, rest)"
  using assms(2)
proof (induction rule: list_all2_induct)
  case (Cons m ms ps pss)
  then show ?case using receiveMessage_pieces[OF assms(1), of m ps "map Data (concat pss) @ rest"] by simp
qed simp

definition have_msg :: message where
  "have_msg = BitTorrentMessage have_id [CHR 0x00, CHR 0x00, CHR 0x00, CHR 0x03]"

lemma receive_all_pieces_witness:
  "receive_all 1 5 (map Data [[CHR 0x00, CHR 0x00, CHR 0x00, CHR 0x05, CHR 0x04], [CHR 0x00, CHR 0x00], [CHR 0x00, CHR 0x03]] @ [Closed])
   = Inr ([have_msg], [Closed])"
proof -
  have "to_string have_msg
      = [CHR 0x00, CHR 0x00, CHR 0x00, CHR 0x05, CHR 0x04, CHR 0x00, CHR 0x00, CHR 0x00, CHR 0x03]"
    by (simp add: have_msg_def to_string_def BitTorrentMessage_def have_id_def be32_def char_of_def bit_0 drop_bit_eq_div)
  then have "list_all2 (\<lambda>m ps. wire_ok m \<and> pieces_of m ps) [have_msg]
      [[[CHR 0x00, CHR 0x00, CHR 0x00, CHR 0x05, CHR 0x04], [CHR 0x00, CHR 0x00], [CHR 0x00, CHR 0x03]]]"
    by (simp add: pieces_of_def wire_ok_def have_msg_def BitTorrentMessage_def)
  from receive_all_pieces[OF _ this, of 5 "[Closed]"] show ?thesis by simp
qed

text \<open>
  The bytes of a sequence of messages determine the sequence: the framing is
  uniquely decodable.
\<close>

theorem framing_unambiguous:
  assumes "\<forall>m \<in> set ms. wire_ok m" "\<forall>m \<in> set ms'. wire_ok m"
    and "concat (map to_string ms) = concat (map to_string ms')"
  shows "ms = ms'"
  using wire.concat_unique[OF assms] by simp

lemma framing_unambiguous_witness: "[have_msg, have_msg] = [have_msg, have_msg]"
  by (rule framing_unambiguous) (simp_all add: wire_ok_def have_msg_def BitTorrentMessage_def)

text \<open>
  A length prefix of which the first read gets fewer than four bytes is refused,
  whatever follows: the prefix is the one part the code does not reassemble.
\<close>

theorem split_prefix_refused:
  assumes "0 < sock" "bs \<noteq> []" "length bs < 4"
  shows "receiveMessage sock (Data bs # is) = Inl (RuntimeError ''Incomplete length prefix received'')"
  using assms by (simp add: receiveMessage_def receiveData_def)

lemma split_prefix_refused_witness:
  "receiveMessage 5 [Data [CHR 0x00, CHR 0x00], Data [CHR 0x00, CHR 0x01, CHR 0x01]]
   = Inl (RuntimeError ''Incomplete length prefix received'')"
  by (rule split_prefix_refused) simp_all

lemma minus_1_255: "(- 1 :: byte8) = 255"
  by (simp add: word_eq_iff_unsigned unsigned_minus_1_eq_mask mask_eq_exp_minus_1)

lemma receive_keepAlive:
  "0 < sock \<Longrightarrow> receiveMessage sock (Data (be32 0) # is) = Inr (BitTorrentMessage 255 [], is)"
  by (simp add: receiveMessage_def receiveData_def be32_def be_val_def keepAlive_def minus_1_255)

lemma receive_negative_length:
  assumes "0 < sock" "2 ^ 31 \<le> uint n"
  shows "receiveMessage sock (Data (be32 n) # is) = Inl LengthError"
proof -
  have "uint n < 2 ^ 32" using unsigned_less[of n, where ?'a = int] by simp
  then have "uint n div 2 ^ 31 = 1" 
    by (intro int_div_pos_eq[of _ _ _ "uint n - 2 ^ 31"]) (use assms(2) in simp_all)
  then have "bit (uint n) 31" by (simp add: bit_iff_odd)
  moreover have L: "LENGTH(32) - Suc 0 = 31" by simp
  ultimately have neg: "sint n < 0" using sint_uint[of n] unfolding L by (simp only: signed_take_bit_negative_iff)
  have "n \<noteq> 0" "be32 n \<noteq> []" using assms(2) by (auto simp: be32_def)
  then show ?thesis using assms(1) neg
    by (simp add: receiveMessage_def receiveData_def recv_sized_def )
qed

text \<open>\<open>sendData\<close> calls \<open>send\<close> once: it returns normally although a part was not sent.\<close>

lemma sendData_whole: "answers ch = [] \<Longrightarrow> sendData data ch = Inr (ch\<lparr>sent := sent ch @ data\<rparr>)"
  by (cases data) (simp_all add: sendData_def)

text \<open>
  When the kernel takes only the first \<open>k\<close> bytes, \<open>sendData\<close> returns normally and
  the rest is never sent.
\<close>

lemma sendData_partial:
  assumes "answers ch = Some k # as" "k < length data"
  shows "\<exists>ch'. sendData data ch = Inr ch' \<and> sent ch' = sent ch @ take k data \<and> sent ch' \<noteq> sent ch @ data"
  using assms by (cases data) (auto simp: sendData_def)

lemma sendData_partial_witness:
  "\<exists>ch'. sendData ''abc'' \<lparr>answers = [Some 2], sent = []\<rparr> = Inr ch' \<and>
     sent ch' = sent \<lparr>answers = [Some 2], sent = []\<rparr> @ take 2 ''abc'' \<and>
     sent ch' \<noteq> sent \<lparr>answers = [Some 2], sent = []\<rparr> @ ''abc''"
  by (rule sendData_partial[of _ 2 "[]"]) simp_all

section \<open>Opening a connection\<close>

text \<open>
  \<open>createConnection\<close> over the answers of the system calls. \<open>O_NONBLOCK\<close> is bit 11. The
  second component of the result tells whether the descriptor was closed.
\<close>

record connect_env =
  socket_ret :: int
  pton_ret :: int
  getfl :: "cint \<times> cint"        \<comment> \<open>\<open>F_GETFL\<close>, at the first and the second change of mode\<close>
  setfl :: "int \<times> int"
  select_ret :: int
  so_error :: int

definition O_NONBLOCK :: cint where "O_NONBLOCK = 0x800"

definition setSocketBlocking :: "int \<Rightarrow> bool \<Rightarrow> cint \<Rightarrow> int \<Rightarrow> bool \<times> cint option" where
  "setSocketBlocking sock blocking flags set_ret =
     (if sock < 0 then (False, None)
      else if flags = -1 then (False, None)
      else (let flags' = (if blocking then flags AND NOT O_NONBLOCK else flags OR O_NONBLOCK)
            in (set_ret = 0, Some flags')))"

definition createConnection :: "connect_env \<Rightarrow> int res \<times> bool" where
  "createConnection env =
     (let sock = socket_ret env in
      if sock < 0 then (Inl (RuntimeError ''Socket creation error: ''), False)
      else if pton_ret env \<le> 0 then (Inl (RuntimeError ''Invalid IP address: ''), False)
      else if \<not> fst (setSocketBlocking sock False (fst (getfl env)) (fst (setfl env)))
      then (Inl (RuntimeError ''An error occurred when setting socket ''), False)
      else if select_ret env = 1 \<and> so_error env = 0 then
        (if \<not> fst (setSocketBlocking sock True (snd (getfl env)) (snd (setfl env)))
         then (Inl (RuntimeError ''An error occurred when setting socket ''), False)
         else (Inr sock, False))
      else (Inl (RuntimeError ''Connect to ''), True))"

lemma setSocketBlocking_bit:
  "setSocketBlocking sock blocking flags r = (True, Some flags') \<Longrightarrow> bit flags' 11 = (\<not> blocking)"
  by (auto simp: setSocketBlocking_def Let_def O_NONBLOCK_def bit_simps split: if_splits)

lemma createConnection_ok:
  assumes "createConnection env = (Inr sock, c)"
  shows "sock = socket_ret env" "0 \<le> sock" "\<not> c" "so_error env = 0" "select_ret env = 1"
    "\<exists>fl. setSocketBlocking sock True (snd (getfl env)) (snd (setfl env)) = (True, Some fl) \<and> \<not> bit fl 11"
  using assms setSocketBlocking_bit[of sock True "snd (getfl env)" "snd (setfl env)"]
  by (auto simp: createConnection_def Let_def setSocketBlocking_def split: if_splits)

end
