(* ===== verification/Piece.thy ===== *)
theory Piece
  imports Sha1_Spec
begin

text \<open>
  \<open>src/network_part/Piece.cpp\<close> and \<open>Block.h\<close>: a piece is a vector of blocks and the hash
  its data must have. A block is named by its position in the vector; \<open>next_request\<close>
  returns that position with the updated piece, \<open>None\<close> for \<open>nullptr\<close>.
\<close>

datatype block_status = missing | pending | retrieved

record block =
  blk_piece :: nat
  blk_offset :: nat
  blk_length :: int
  blk_status :: block_status
  blk_data :: bytes

record piece =
  piece_index :: nat
  piece_hash :: bytes
  piece_blocks :: "block list"

definition piece_reset :: "piece \<Rightarrow> piece" where
  "piece_reset p = p\<lparr>piece_blocks := map (\<lambda>b. b\<lparr>blk_status := missing\<rparr>) (piece_blocks p)\<rparr>"

fun next_block :: "block list \<Rightarrow> (nat \<times> block list) option" where
  "next_block [] = None"
| "next_block (b # bs) =
     (if blk_status b = missing then Some (0, b\<lparr>blk_status := pending\<rparr> # bs)
      else map_option (\<lambda>(k, bs'). (Suc k, b # bs')) (next_block bs))"

definition next_request :: "piece \<Rightarrow> (nat \<times> piece) option" where
  "next_request p =
     map_option (\<lambda>(k, bs). (k, p\<lparr>piece_blocks := bs\<rparr>)) (next_block (piece_blocks p))"

fun store_block :: "nat \<Rightarrow> bytes \<Rightarrow> block list \<Rightarrow> block list option" where
  "store_block off d [] = None"
| "store_block off d (b # bs) =
     (if blk_offset b = off then Some (b\<lparr>blk_status := retrieved, blk_data := d\<rparr> # bs)
      else map_option (\<lambda>bs'. b # bs') (store_block off d bs))"

definition block_received :: "nat \<Rightarrow> bytes \<Rightarrow> piece \<Rightarrow> piece res" where
  "block_received off d p =
     (case store_block off d (piece_blocks p) of
        Some bs \<Rightarrow> Inr (p\<lparr>piece_blocks := bs\<rparr>)
      | None \<Rightarrow> Inl (RuntimeError ''Trying to complete a non-existing block ''))"

definition is_complete :: "piece \<Rightarrow> bool" where
  "is_complete p = list_all (\<lambda>b. blk_status b = retrieved) (piece_blocks p)"

text \<open>\<open>data()\<close> asserts that the piece is complete.\<close>

definition piece_data :: "piece \<Rightarrow> bytes res" where
  "piece_data p =
     (if is_complete p then Inr (concat (map blk_data (piece_blocks p))) else Inl Aborted)"

definition is_hash_matching :: "piece \<Rightarrow> bool res" where
  "is_hash_matching p = rbind (piece_data p) (\<lambda>d. Inr (hexDecode (sha1 d) = piece_hash p))"

section \<open>What the operations do\<close>

lemma next_block_Some:
  "next_block bs = Some (k, bs') \<longleftrightarrow>
   k < length bs \<and> blk_status (bs ! k) = missing \<and> (\<forall>j < k. blk_status (bs ! j) \<noteq> missing) \<and>
   bs' = bs[k := (bs ! k)\<lparr>blk_status := pending\<rparr>]"
proof (induction bs arbitrary: k bs')
  case (Cons b bs)
  show ?case
  proof (cases "blk_status b = missing")
    case True
    then show ?thesis by (cases k) auto
  next
    case False
    then show ?thesis
      by (cases k) (auto simp: Cons.IH less_Suc_eq_0_disj)
  qed
qed simp

lemma next_block_None: "next_block bs = None \<longleftrightarrow> (\<forall>b \<in> set bs. blk_status b \<noteq> missing)"
  by (induction bs) auto

lemma store_block_first:
  "k < length bs \<Longrightarrow> blk_offset (bs ! k) = off \<Longrightarrow> \<forall>j < k. blk_offset (bs ! j) \<noteq> off \<Longrightarrow>
   store_block off d bs = Some (bs[k := (bs ! k)\<lparr>blk_status := retrieved, blk_data := d\<rparr>])"
proof (induction bs arbitrary: k)
  case (Cons b bs)
  show ?case
  proof (cases k)
    case (Suc j)
    with Cons.prems have "blk_offset b \<noteq> off" by auto
    moreover have "\<forall>i < j. blk_offset (bs ! i) \<noteq> off" using Cons.prems(3) Suc by auto
    ultimately show ?thesis using Cons.IH[of j] Cons.prems Suc by simp
  qed (use Cons.prems in simp)
qed simp

lemma store_block_Some:
  "store_block off d bs = Some bs' \<Longrightarrow>
   \<exists>k < length bs. blk_offset (bs ! k) = off \<and> (\<forall>j < k. blk_offset (bs ! j) \<noteq> off) \<and>
      bs' = bs[k := (bs ! k)\<lparr>blk_status := retrieved, blk_data := d\<rparr>]"
proof (induction bs arbitrary: bs')
  case (Cons b bs)
  show ?case
  proof (cases "blk_offset b = off")
    case True
    with Cons.prems show ?thesis by (intro exI[of _ 0]) simp
  next
    case False
    with Cons.prems obtain bs1 where "store_block off d bs = Some bs1" "bs' = b # bs1" by auto
    with Cons.IH obtain k where "k < length bs" "blk_offset (bs ! k) = off"
      "\<forall>j < k. blk_offset (bs ! j) \<noteq> off"
      "bs' = b # bs[k := (bs ! k)\<lparr>blk_status := retrieved, blk_data := d\<rparr>]" by blast
    with False show ?thesis by (intro exI[of _ "Suc k"]) (auto simp: less_Suc_eq_0_disj)
  qed
qed simp

lemma store_block_None: "store_block off d bs = None \<longleftrightarrow> off \<notin> blk_offset ` set bs"
  by (induction bs) auto

text \<open>\<open>same_layout\<close>: everything of a piece that never changes.\<close>

definition layout :: "piece \<Rightarrow> nat \<times> bytes \<times> (nat \<times> nat \<times> int) list" where
  "layout p = (piece_index p, piece_hash p,
     map (\<lambda>b. (blk_piece b, blk_offset b, blk_length b)) (piece_blocks p))"

lemma layout_next_request: "next_request p = Some (k, p') \<Longrightarrow> layout p' = layout p"
  by (auto simp: next_request_def next_block_Some layout_def map_update list_update_same_conv)

lemma layout_block_received: "block_received off d p = Inr p' \<Longrightarrow> layout p' = layout p"
  by (auto simp: block_received_def layout_def map_update list_update_same_conv
      split: option.splits dest!: store_block_Some)

lemma layout_reset: "layout (piece_reset p) = layout p"
  by (simp add: layout_def piece_reset_def comp_def)

lemma is_hash_matching_iff:
  "is_hash_matching p = Inr b \<longleftrightarrow>
   is_complete p \<and> b = (fips_sha1 (concat (map blk_data (piece_blocks p))) = piece_hash p)"
  by (auto simp: is_hash_matching_def piece_data_def hexDecode_sha1)

end
