(* ===== verification/TorrentFile.thy ===== *)
theory TorrentFile
  imports Bencode
begin

text \<open>
  \<open>includes/torrentFile.h\<close>: the metadata of a torrent. A member that the source leaves
  uninitialised is an option: \<open>None\<close> is an indeterminate value.
\<close>

record file_info =
  length_of :: "cull option"
  path :: "string list"

record torrent_info =
  files :: "file_info list"
  info_name :: string
  pieceLength :: "cull option"
  pieces :: bytes

record torrent_file =
  announce :: string
  announceList :: "string list list"
  createdBy :: "string option"
  creationDate :: "int option"
  info :: torrent_info

end
