(* ===== verification/PieceManager.thy ===== *)
theory PieceManager
  imports Piece StdMap Transition TorrentFile "HOL-Library.Signed_Division"
begin

text \<open>
  \<open>src/network_part/PieceManager.cpp\<close>. A \<open>Piece*\<close> is the index of the piece in the
  store of all pieces (pieces are created once and never moved between objects), a
  \<open>Block*\<close> the index of its piece and its position in it; the three vectors of
  pointers are lists of indices. Every operation is atomic: it runs under the mutex,
  except the middle part of \<open>blockReceived\<close>, which has a section of its own below.
  \<open>long\<close> values are integers in range: piece lengths come from \<open>int\<close> values.
\<close>

section \<open>The output file\<close>

record ofile =
  content :: bytes
  good :: bool                      \<comment> \<open>a failed \<open>seekp\<close> disables every later write\<close>
  put_pos :: nat                    \<comment> \<open>where the next write begins\<close>

definition overwrite :: "nat \<Rightarrow> bytes \<Rightarrow> bytes \<Rightarrow> bytes" where
  "overwrite p d c =
     (if d = [] then c
      else take p (c @ replicate (p - length c) (char_of (0::nat))) @ d @ drop (p + length d) c)"

text \<open>\<open>seekp\<close> and a write at the position of the stream; the calls come in pairs.\<close>

definition seekp :: "int \<Rightarrow> ofile \<Rightarrow> ofile" where
  "seekp position f =
     (if \<not> good f then f
      else if position < 0 then f\<lparr>good := False\<rparr>
      else f\<lparr>put_pos := nat position\<rparr>)"

definition write_here :: "bytes \<Rightarrow> ofile \<Rightarrow> ofile" where
  "write_here d f =
     (if \<not> good f then f
      else f\<lparr>content := overwrite (put_pos f) d (content f), put_pos := put_pos f + length d\<rparr>)"

definition seek_write :: "int \<Rightarrow> bytes \<Rightarrow> ofile \<Rightarrow> ofile" where
  "seek_write position d f = write_here d (seekp position f)"

lemma seek_write_eq:
  "seek_write position d f =
     (if \<not> good f then f
      else if position < 0 then f\<lparr>good := False\<rparr>
      else f\<lparr>content := overwrite (nat position) d (content f), put_pos := nat position + length d\<rparr>)"
  by (simp add: seek_write_def seekp_def write_here_def)

section \<open>The state\<close>

type_synonym block_ptr = "nat \<times> nat"

record pending_request =
  req_block :: block_ptr
  timestamp :: int

record pmanager =
  peers :: "(string, bytes) smap"
  store :: "piece list"
  missingPieces :: "nat list"
  ongoingPieces :: "nat list"
  havePieces :: "nat list"
  pendingRequests :: "pending_request list"
  downloadedFile :: ofile
  piece_len :: int
  totalPieces :: nat
  piecesDownloadedInInterval :: nat

definition block_size :: int where "block_size = 16384"
definition max_pending_time :: int where "max_pending_time = 10"

definition piece_at :: "pmanager \<Rightarrow> nat \<Rightarrow> piece" where
  "piece_at s i = store s ! i"

definition block_at :: "pmanager \<Rightarrow> block_ptr \<Rightarrow> block" where
  "block_at s bp = piece_blocks (piece_at s (fst bp)) ! snd bp"

section \<open>The constructor\<close>

text \<open>\<open>getTotalFileSize\<close>: the sum wraps at 64 bits and is read as a signed value.\<close>

fun sum_lengths :: "file_info list \<Rightarrow> cull \<Rightarrow> cull res" where
  "sum_lengths [] acc = Inr acc"
| "sum_lengths (f # fs) acc =
     (case length_of f of None \<Rightarrow> Inl (Undefined Indeterminate) | Some n \<Rightarrow> sum_lengths fs (acc + n))"

definition getTotalFileSize :: "torrent_file \<Rightarrow> int res" where
  "getTotalFileSize t = rbind (sum_lengths (files (info t)) 0) (\<lambda>n. Inr (sint n))"

function splitPieceHashes :: "bytes \<Rightarrow> bytes list" where
  "splitPieceHashes ps = (if ps = [] then [] else take 20 ps # splitPieceHashes (drop 20 ps))"
  by pat_completeness auto
termination by (relation "measure length") auto

declare splitPieceHashes.simps [simp del]

text \<open>
  One round of the loop of \<open>initiatePieces\<close>: \<open>blockCount\<close> and \<open>remLength\<close> as the code
  computes them for piece \<open>i\<close> (integer division inside \<open>ceil\<close>). The count is converted from a \<open>double\<close>, which holds
  it exactly, to an \<open>int\<close>; the offsets are products of two \<open>int\<close>s.
\<close>

definition ceil_int :: "int \<Rightarrow> int res" where
  "ceil_int x = (if - int int_max - 1 \<le> x \<and> x \<le> int int_max then Inr x else Inl (Undefined FloatToInteger))"

definition block_params :: "int \<Rightarrow> int \<Rightarrow> bool \<Rightarrow> (int \<times> int) res" where
  "block_params pieceLen totalLength isLast =
     (if isLast then
        (if pieceLen = 0 then Inl (Undefined DivByZero)
         else (let remLength = totalLength smod pieceLen
               in rbind (ceil_int (remLength sdiv block_size)) (\<lambda>blockCount. Inr (max blockCount 1, remLength))))
      else rbind (ceil_int (pieceLen sdiv block_size)) (\<lambda>blockCount. Inr (blockCount, pieceLen)))"

definition make_blocks :: "nat \<Rightarrow> int \<Rightarrow> int \<Rightarrow> bool \<Rightarrow> block list res" where
  "make_blocks i blockCount remLength isLast =
     (if blockCount < 0 then Inl LengthError
      else if int int_max < (blockCount - 1) * block_size then Inl (Undefined SignedOverflow)
      else Inr (map (\<lambda>offset.
             \<lparr>blk_piece = i, blk_offset = offset * nat block_size,
              blk_length = (if isLast \<and> int offset = blockCount - 1 then remLength smod block_size
                            else block_size),
              blk_status = missing, blk_data = []\<rparr>) [0..<nat blockCount]))"

fun make_pieces :: "int \<Rightarrow> int \<Rightarrow> nat \<Rightarrow> bytes list \<Rightarrow> piece list res" where
  "make_pieces pieceLen totalLength i [] = Inr []"
| "make_pieces pieceLen totalLength i (h # hs) =
     rbind (block_params pieceLen totalLength (hs = [])) (\<lambda>(blockCount, remLength).
     rbind (make_blocks i blockCount remLength (hs = [])) (\<lambda>blocks.
     rbind (make_pieces pieceLen totalLength (Suc i) hs) (\<lambda>ps.
       Inr (\<lparr>piece_index = i, piece_hash = h, piece_blocks = blocks\<rparr> # ps))))"

definition initiatePieces :: "int \<Rightarrow> torrent_file \<Rightarrow> piece list res" where
  "initiatePieces pieceLen t =
     rbind (getTotalFileSize t) (\<lambda>totalLength.
     rbind (ceil_int (pieceLen sdiv block_size)) (\<lambda>_.
       make_pieces pieceLen totalLength 0 (splitPieceHashes (pieces (info t)))))"

text \<open>The constructor; \<open>opened\<close> says whether the output file could be opened, which the code does not ask.\<close>

definition PieceManager :: "bool \<Rightarrow> torrent_file \<Rightarrow> pmanager res" where
  "PieceManager opened t =
     (case pieceLength (info t) of
        None \<Rightarrow> Inl (Undefined Indeterminate)
      | Some pl \<Rightarrow>
          rbind (initiatePieces (sint pl) t) (\<lambda>ps.
          rbind (getTotalFileSize t) (\<lambda>size.
            Inr \<lparr>peers = [], store = ps, missingPieces = [0..<length ps], ongoingPieces = [],
                 havePieces = [], pendingRequests = [],
                 downloadedFile = seek_write (size - 1) [char_of (0::nat)] \<lparr>content = [], good = opened, put_pos = 0\<rparr>,
                 piece_len = sint pl, totalPieces = length ps, piecesDownloadedInInterval = 0\<rparr>)))"

section \<open>Peers\<close>

definition isComplete :: "pmanager \<Rightarrow> bool" where
  "isComplete s \<longleftrightarrow> length (havePieces s) = totalPieces s"

definition addPeer :: "string \<Rightarrow> bytes \<Rightarrow> pmanager \<Rightarrow> pmanager" where
  "addPeer peerId bitField s = s\<lparr>peers := map_set peerId bitField (peers s)\<rparr>"

definition updatePeer :: "string \<Rightarrow> nat \<Rightarrow> pmanager \<Rightarrow> pmanager res" where
  "updatePeer peerId index s =
     (case map_get (peers s) peerId of
        Some bf \<Rightarrow> rbind (setPiece bf index) (\<lambda>bf'. Inr (s\<lparr>peers := map_set peerId bf' (peers s)\<rparr>))
      | None \<Rightarrow> Inl (RuntimeError ''Connection has not been established with peer ''))"

definition removePeer :: "string \<Rightarrow> pmanager \<Rightarrow> pmanager res" where
  "removePeer peerId s =
     (if isComplete s then Inr s
      else case map_get (peers s) peerId of
        Some _ \<Rightarrow> Inr (s\<lparr>peers := map_erase peerId (peers s)\<rparr>)
      | None \<Rightarrow> Inl (RuntimeError ''Attempting to remove a peer ''))"

section \<open>The next block to request\<close>

text \<open>
  \<open>expiredRequest\<close>: the loop over \<open>pendingRequests\<close>, with the peer's bit field. A call of \<open>nextRequest\<close> takes less
  than a second: every reading of the clock in it is \<open>now\<close>.
\<close>

fun expired_loop :: "bytes \<Rightarrow> int \<Rightarrow> pending_request list
    \<Rightarrow> (block_ptr \<times> pending_request list) option res" where
  "expired_loop bf now [] = Inr None"
| "expired_loop bf now (r # rs) =
     rbind (hasPiece bf (fst (req_block r))) (\<lambda>h.
       if h \<and> max_pending_time \<le> now - timestamp r
       then Inr (Some (req_block r, r\<lparr>timestamp := now\<rparr> # rs))
       else rbind (expired_loop bf now rs) (\<lambda>x.
         Inr (map_option (\<lambda>(b, rs'). (b, r # rs')) x)))"

text \<open>\<open>nextOngoing\<close>: the loop over \<open>ongoingPieces\<close>.\<close>

fun ongoing_loop :: "bytes \<Rightarrow> piece list \<Rightarrow> nat list \<Rightarrow> (block_ptr \<times> piece) option res" where
  "ongoing_loop bf ps [] = Inr None"
| "ongoing_loop bf ps (i # is) =
     rbind (hasPiece bf i) (\<lambda>h.
       case (if h then next_request (ps ! i) else None) of
         Some (k, p) \<Rightarrow> Inr (Some ((i, k), p))
       | None \<Rightarrow> ongoing_loop bf ps is)"

definition nextOngoing :: "bytes \<Rightarrow> int \<Rightarrow> pmanager \<Rightarrow> (block_ptr \<times> pmanager) option res" where
  "nextOngoing bf now s =
     rbind (ongoing_loop bf (store s) (ongoingPieces s)) (\<lambda>x.
       Inr (map_option (\<lambda>(b, p). (b, s\<lparr>store := (store s)[fst b := p],
         pendingRequests := pendingRequests s @ [\<lparr>req_block = b, timestamp = now\<rparr>]\<rparr>)) x))"

text \<open>
  \<open>getRarestPiece\<close>: \<open>pieceCount\<close> is a map ordered by index, counting one for every
  missing piece the peer has; \<open>rarest\<close> is an uninitialised pointer until a piece with
  a smaller count is seen.
\<close>

fun count_pieces :: "bytes \<Rightarrow> nat list \<Rightarrow> (nat, nat) smap \<Rightarrow> (nat, nat) smap res" where
  "count_pieces bf [] m = Inr m"
| "count_pieces bf (i # is) m =
     rbind (hasPiece bf i) (\<lambda>h.
       count_pieces bf is
         (if h then map_set i ((case map_get m i of None \<Rightarrow> 0 | Some c \<Rightarrow> c) + 1) m else m))"

definition INT16_MAX :: nat where "INT16_MAX = 32767"

fun least_count :: "(nat, nat) smap \<Rightarrow> nat \<Rightarrow> nat option \<Rightarrow> nat option" where
  "least_count [] leastCount rarest = rarest"
| "least_count ((i, c) # m) leastCount rarest =
     (if c < leastCount then least_count m c (Some i) else least_count m leastCount rarest)"

definition getRarestPiece :: "bytes \<Rightarrow> pmanager \<Rightarrow> (nat \<times> pmanager) res" where
  "getRarestPiece bf s =
     rbind (count_pieces bf (missingPieces s) []) (\<lambda>pieceCount.
       case least_count pieceCount INT16_MAX None of
         None \<Rightarrow> Inl (Undefined UninitPointer)
       | Some i \<Rightarrow> Inr (i, s\<lparr>missingPieces := filter (\<lambda>j. j \<noteq> i) (missingPieces s),
                            ongoingPieces := ongoingPieces s @ [i]\<rparr>))"

definition request_rarest :: "bytes \<Rightarrow> pmanager \<Rightarrow> (block_ptr option \<times> pmanager) res" where
  "request_rarest bf s =
     rbind (getRarestPiece bf s) (\<lambda>(i, s1).
       case next_request (store s1 ! i) of
         Some (k, p) \<Rightarrow> Inr (Some (i, k), s1\<lparr>store := (store s1)[i := p]\<rparr>)
       | None \<Rightarrow> Inr (None, s1))"

definition nextRequest :: "string \<Rightarrow> int \<Rightarrow> pmanager \<Rightarrow> (block_ptr option \<times> pmanager) res" where
  "nextRequest peerId now s =
     (if missingPieces s = [] then Inr (None, s)
      else case map_get (peers s) peerId of
        None \<Rightarrow> Inr (None, s)
      | Some bf \<Rightarrow>
          rbind (expired_loop bf now (pendingRequests s)) (\<lambda>e.
            case e of
              Some (b, rs) \<Rightarrow> Inr (Some b, s\<lparr>pendingRequests := rs\<rparr>)
            | None \<Rightarrow>
                rbind (nextOngoing bf now s) (\<lambda>x.
                  case x of Some (b, s') \<Rightarrow> Inr (Some b, s') | None \<Rightarrow> request_rarest bf s)))"

section \<open>A received block\<close>

text \<open>
  The three parts of \<open>blockReceived\<close>: under the mutex, drop the request and find the
  piece; without it, store the block, and check, write or reset the piece; under the
  mutex again, move the piece to \<open>havePieces\<close>. An exception leaves the state that was
  reached.
\<close>

fun remove_request :: "pmanager \<Rightarrow> nat \<Rightarrow> nat \<Rightarrow> pending_request list \<Rightarrow> pending_request list" where
  "remove_request s i off [] = []"
| "remove_request s i off (r # rs) =
     (if blk_piece (block_at s (req_block r)) = i \<and> blk_offset (block_at s (req_block r)) = off
      then rs else r # remove_request s i off rs)"

definition br_find :: "nat \<Rightarrow> nat \<Rightarrow> pmanager \<Rightarrow> pmanager \<times> nat option" where
  "br_find i off s =
     (s\<lparr>pendingRequests := remove_request s i off (pendingRequests s)\<rparr>,
      find (\<lambda>j. piece_index (store s ! j) = i) (ongoingPieces s))"

definition br_write :: "nat \<Rightarrow> bytes \<Rightarrow> pmanager \<Rightarrow> pmanager" where
  "br_write j d s =
     s\<lparr>downloadedFile := seek_write (int (piece_index (store s ! j)) * piece_len s) d (downloadedFile s)\<rparr>"

definition br_store :: "nat \<Rightarrow> nat \<Rightarrow> bytes \<Rightarrow> pmanager \<Rightarrow> pmanager \<times> bool res" where
  "br_store j off d s =
     (case block_received off d (store s ! j) of
        Inl e \<Rightarrow> (s, Inl e)
      | Inr p \<Rightarrow>
          (let s1 = s\<lparr>store := (store s)[j := p]\<rparr> in
           if is_complete p then
             (case is_hash_matching p of
                Inl e \<Rightarrow> (s1, Inl e)
              | Inr True \<Rightarrow>
                  (case piece_data p of
                     Inl e \<Rightarrow> (s1, Inl e)
                   | Inr dat \<Rightarrow> (br_write j dat s1, Inr True))
              | Inr False \<Rightarrow> (s1\<lparr>store := (store s)[j := piece_reset p]\<rparr>, Inr False))
           else (s1, Inr False)))"

definition br_commit :: "nat \<Rightarrow> pmanager \<Rightarrow> pmanager" where
  "br_commit j s =
     s\<lparr>ongoingPieces := filter (\<lambda>k. k \<noteq> j) (ongoingPieces s), havePieces := havePieces s @ [j],
       piecesDownloadedInInterval := Suc (piecesDownloadedInInterval s)\<rparr>"

definition blockReceived :: "nat \<Rightarrow> nat \<Rightarrow> bytes \<Rightarrow> pmanager \<Rightarrow> pmanager \<times> unit res" where
  "blockReceived i off d s =
     (case br_find i off s of
        (s1, None) \<Rightarrow> (s1, Inl (RuntimeError ''Received Block does not belong to any ongoing Piece.''))
      | (s1, Some j) \<Rightarrow>
          (case br_store j off d s1 of
             (s2, Inl e) \<Rightarrow> (s2, Inl e)
           | (s2, Inr True) \<Rightarrow> (br_commit j s2, Inr ())
           | (s2, Inr False) \<Rightarrow> (s2, Inr ())))"

definition bytesDownloaded :: "pmanager \<Rightarrow> cull" where
  "bytesDownloaded s = of_nat (length (havePieces s)) * of_int (piece_len s)"

section \<open>The invariant\<close>

definition piece_wf :: "nat \<Rightarrow> piece \<Rightarrow> bool" where
  "piece_wf i p \<longleftrightarrow> piece_index p = i \<and>
     (\<forall>k < length (piece_blocks p). blk_piece (piece_blocks p ! k) = i \<and>
        blk_offset (piece_blocks p ! k) = k * 16384)"

definition verified :: "piece \<Rightarrow> bool" where
  "verified p \<longleftrightarrow> is_complete p \<and> fips_sha1 (concat (map blk_data (piece_blocks p))) = piece_hash p"

definition requests_wf :: "pmanager \<Rightarrow> bool" where
  "requests_wf s \<longleftrightarrow>
     distinct (map req_block (pendingRequests s)) \<and>
     (\<forall>r \<in> set (pendingRequests s). \<forall>i k. req_block r = (i, k) \<longrightarrow>
        i \<in> set (ongoingPieces s) \<and> k < length (piece_blocks (store s ! i)) \<and>
        blk_status (piece_blocks (store s ! i) ! k) = pending)"

definition lists_wf :: "pmanager \<Rightarrow> bool" where
  "lists_wf s \<longleftrightarrow>
     distinct (missingPieces s @ ongoingPieces s @ havePieces s) \<and>
     set (missingPieces s @ ongoingPieces s @ havePieces s) = {..<totalPieces s}"

definition pm_wf :: "pmanager \<Rightarrow> bool" where
  "pm_wf s \<longleftrightarrow>
     length (store s) = totalPieces s \<and>
     (\<forall>i < totalPieces s. piece_wf i (store s ! i)) \<and>
     lists_wf s \<and>
     (\<forall>i \<in> set (missingPieces s). \<forall>b \<in> set (piece_blocks (store s ! i)). blk_status b = missing) \<and>
     (\<forall>i \<in> set (havePieces s). verified (store s ! i)) \<and>
     requests_wf s \<and>
     wf_map (peers s)"

lemma pm_wfD:
  assumes "pm_wf s"
  shows "length (store s) = totalPieces s" "\<And>i. i < totalPieces s \<Longrightarrow> piece_wf i (store s ! i)"
    "lists_wf s" "\<And>i b. i \<in> set (missingPieces s) \<Longrightarrow> b \<in> set (piece_blocks (store s ! i)) \<Longrightarrow> blk_status b = missing"
    "\<And>i. i \<in> set (havePieces s) \<Longrightarrow> verified (store s ! i)" "requests_wf s" "wf_map (peers s)"
  using assms by (simp_all add: pm_wf_def)

lemma pm_wf_ongoing: "pm_wf s \<Longrightarrow> i \<in> set (ongoingPieces s) \<Longrightarrow> i < totalPieces s"
  by (auto simp: pm_wf_def lists_wf_def)

lemma piece_wf_layout: "layout p' = layout p \<Longrightarrow> piece_wf i p \<Longrightarrow> piece_wf i p'"
proof -
  assume l: "layout p' = layout p" and wf: "piece_wf i p"
  define f where "f (b :: block) = (blk_piece b, blk_offset b, blk_length b)" for b
  have m: "map f (piece_blocks p') = map f (piece_blocks p)" and ix: "piece_index p' = piece_index p"
    using l by (simp_all add: layout_def f_def[abs_def])
  have len: "length (piece_blocks p') = length (piece_blocks p)" using m by (metis length_map)
  have "f (piece_blocks p' ! k) = f (piece_blocks p ! k)" if "k < length (piece_blocks p)" for k
    using m len that by (metis nth_map)
  with wf len ix show ?thesis by (simp add: piece_wf_def f_def)
qed

text \<open>The constructor.\<close>

lemma make_blocks_wf:
  "make_blocks i n r l = Inr bs \<Longrightarrow>
   (\<forall>k < length bs. blk_piece (bs ! k) = i \<and> blk_offset (bs ! k) = k * 16384) \<and>
   (\<forall>b \<in> set bs. blk_status b = missing)"
  by (auto simp: make_blocks_def block_size_def split: if_splits)

lemma make_pieces_wf:
  "make_pieces pl tot i hs = Inr ps \<Longrightarrow>
   length ps = length hs \<and> map piece_hash ps = hs \<and>
   (\<forall>j < length ps. piece_wf (i + j) (ps ! j) \<and> (\<forall>b \<in> set (piece_blocks (ps ! j)). blk_status b = missing))"
proof (induction hs arbitrary: i ps)
  case (Cons h hs)
  then obtain n r bs ps' where *: "block_params pl tot (hs = []) = Inr (n, r)"
      "make_blocks i n r (hs = []) = Inr bs" "make_pieces pl tot (Suc i) hs = Inr ps'"
      "ps = \<lparr>piece_index = i, piece_hash = h, piece_blocks = bs\<rparr> # ps'"
    by (auto simp: rbind_Inr_iff)
  from Cons.IH[OF *(3)] make_blocks_wf[OF *(2)] show ?case
    by (auto simp: *(4) piece_wf_def nth_Cons split: nat.splits)
qed simp

lemma PieceManager_store:
  assumes "PieceManager opened t = Inr s"
  obtains pl tot ps where "pieceLength (info t) = Some pl" "getTotalFileSize t = Inr tot"
    "make_pieces (sint pl) tot 0 (splitPieceHashes (pieces (info t))) = Inr ps"
    "s = \<lparr>peers = [], store = ps, missingPieces = [0..<length ps], ongoingPieces = [],
          havePieces = [], pendingRequests = [],
          downloadedFile = seek_write (tot - 1) [char_of (0::nat)] \<lparr>content = [], good = opened, put_pos = 0\<rparr>,
          piece_len = sint pl, totalPieces = length ps, piecesDownloadedInInterval = 0\<rparr>"
proof -
  from assms obtain pl where pl: "pieceLength (info t) = Some pl"
    by (auto simp: PieceManager_def split: option.splits)
  with assms obtain tot where tot: "getTotalFileSize t = Inr tot"
    by (auto simp: PieceManager_def initiatePieces_def rbind_Inr_iff)
  with assms pl that show thesis
    by (simp add: PieceManager_def initiatePieces_def) (auto simp: rbind_Inr_iff)
qed

lemma PieceManager_wf: "PieceManager opened t = Inr s \<Longrightarrow> pm_wf s"
proof (erule PieceManager_store)
  fix pl tot ps
  assume mk: "make_pieces (sint pl) tot 0 (splitPieceHashes (pieces (info t))) = Inr ps"
    and s: "s = \<lparr>peers = [], store = ps, missingPieces = [0..<length ps], ongoingPieces = [],
          havePieces = [], pendingRequests = [],
          downloadedFile = seek_write (tot - 1) [char_of (0::nat)] \<lparr>content = [], good = opened, put_pos = 0\<rparr>,
          piece_len = sint pl, totalPieces = length ps, piecesDownloadedInInterval = 0\<rparr>"
  from make_pieces_wf[OF mk] show "pm_wf s"
    by (simp add: s pm_wf_def lists_wf_def requests_wf_def lessThan_atLeast0)
qed

text \<open>Peers.\<close>

lemma pm_wf_peers: "pm_wf s \<Longrightarrow> wf_map m \<Longrightarrow> pm_wf (s\<lparr>peers := m\<rparr>)"
  by (simp add: pm_wf_def lists_wf_def requests_wf_def)

lemma addPeer_wf [wf_intros]: "pm_wf s \<Longrightarrow> pm_wf (addPeer p bf s)"
  unfolding addPeer_def by (intro pm_wf_peers wf_map_set pm_wfD(7))

lemma updatePeer_wf: "updatePeer p i s = Inr s' \<Longrightarrow> pm_wf s \<Longrightarrow> pm_wf s'"
  by (auto simp: updatePeer_def rbind_Inr_iff intro!: pm_wf_peers wf_map_set dest: pm_wfD(7) split: option.splits)

lemma removePeer_wf: "removePeer p s = Inr s' \<Longrightarrow> pm_wf s \<Longrightarrow> pm_wf s'"
  by (auto simp: removePeer_def intro!: pm_wf_peers wf_map_erase dest: pm_wfD(7) split: option.splits if_splits)

text \<open>Requests.\<close>

lemma expired_loop_Some:
  "expired_loop bf now rs = Inr (Some (b, rs')) \<Longrightarrow>
   map req_block rs' = map req_block rs \<and> b \<in> req_block ` set rs \<and> hasPiece bf (fst b) = Inr True \<and>
   (\<exists>r \<in> set rs. req_block r = b \<and> max_pending_time \<le> now - timestamp r)"
proof (induction bf now rs arbitrary: rs' rule: expired_loop.induct)
  case (2 bf now r rs)
  then obtain h where h: "hasPiece bf (fst (req_block r)) = Inr h" by (auto simp: rbind_Inr_iff)
  show ?case
  proof (cases "h \<and> max_pending_time \<le> now - timestamp r")
    case False
    with "2.prems" h obtain rs1 where "expired_loop bf now rs = Inr (Some (b, rs1))" "rs' = r # rs1"
      by (auto simp: rbind_Inr_iff split: if_splits)
    with "2.IH"[OF h False] show ?thesis by auto
  qed (use "2.prems" h in auto)
qed simp

lemma ongoing_loop_Some:
  "ongoing_loop bf ps is = Inr (Some (b, p)) \<Longrightarrow>
   fst b \<in> set is \<and> hasPiece bf (fst b) = Inr True \<and> next_request (ps ! fst b) = Some (snd b, p)"
proof (induction "is")
  case (Cons i "is")
  then obtain h where h: "hasPiece bf i = Inr h" by (auto simp: rbind_Inr_iff)
  with Cons show ?case
    by (cases "if h then next_request (ps ! i) else None") (auto split: if_splits)
qed simp

lemma requests_wfD:
  assumes "requests_wf s" "r \<in> set (pendingRequests s)"
  shows "fst (req_block r) \<in> set (ongoingPieces s)"
    "snd (req_block r) < length (piece_blocks (store s ! fst (req_block r)))"
    "blk_status (piece_blocks (store s ! fst (req_block r)) ! snd (req_block r)) = pending"
  using assms by (cases "req_block r", auto simp: requests_wf_def)+

lemma piece_wf_next_request: "next_request p = Some (k, p') \<Longrightarrow> piece_wf i p \<Longrightarrow> piece_wf i p'"
  using layout_next_request piece_wf_layout by blast

text \<open>
  A step that changes one ongoing piece, and the requests.
\<close>

lemma pm_wf_update:
  assumes wf: "pm_wf s" and i: "i \<in> set (ongoingPieces s)" and l: "layout p = layout (store s ! i)"
    and r: "requests_wf (s\<lparr>store := (store s)[i := p], pendingRequests := rs\<rparr>)"
  shows "pm_wf (s\<lparr>store := (store s)[i := p], pendingRequests := rs\<rparr>)"
proof -
  have lw: "distinct (missingPieces s @ ongoingPieces s @ havePieces s)" and il: "i < totalPieces s"
    using wf i pm_wf_ongoing by (auto simp: pm_wf_def lists_wf_def)
  then have ne: "i \<notin> set (missingPieces s)" "i \<notin> set (havePieces s)" using i by auto
  have "piece_wf i p" using piece_wf_layout[OF l] pm_wfD(2)[OF wf il] by blast
  with wf r ne il show ?thesis unfolding pm_wf_def lists_wf_def by (auto simp: nth_list_update)
qed


lemma next_request_block:
  assumes "next_request p = Some (k, p')"
  shows "k < length (piece_blocks p)" "blk_status (piece_blocks p ! k) = missing"
    "piece_blocks p' = (piece_blocks p)[k := (piece_blocks p ! k)\<lparr>blk_status := pending\<rparr>]"
  using assms by (auto simp: next_request_def next_block_Some)

lemma nextOngoing_Some:
  assumes wf: "pm_wf s" and n: "nextOngoing bf now s = Inr (Some (b, s'))"
  shows "pm_wf s'" "fst b \<in> set (ongoingPieces s)" "hasPiece bf (fst b) = Inr True"
    "snd b < length (piece_blocks (store s ! fst b))" "blk_status (block_at s b) = missing"
    "s' = s\<lparr>store := (store s)[fst b := (store s ! fst b)\<lparr>piece_blocks :=
        (piece_blocks (store s ! fst b))[snd b := (block_at s b)\<lparr>blk_status := pending\<rparr>]\<rparr>],
      pendingRequests := pendingRequests s @ [\<lparr>req_block = b, timestamp = now\<rparr>]\<rparr>"
proof -
  from n obtain p where l: "ongoing_loop bf (store s) (ongoingPieces s) = Inr (Some (b, p))"
    and s': "s' = s\<lparr>store := (store s)[fst b := p],
         pendingRequests := pendingRequests s @ [\<lparr>req_block = b, timestamp = now\<rparr>]\<rparr>"
    by (auto simp: nextOngoing_def rbind_Inr_iff)
  note o = ongoing_loop_Some[OF l]
  then have nr: "next_request (store s ! fst b) = Some (snd b, p)" by simp
  note nb = next_request_block[OF nr]
  show b: "fst b \<in> set (ongoingPieces s)" "hasPiece bf (fst b) = Inr True" using o by auto
  show sb: "snd b < length (piece_blocks (store s ! fst b))" "blk_status (block_at s b) = missing"
    using nb by (simp_all add: block_at_def piece_at_def)
  have p: "p = (store s ! fst b)\<lparr>piece_blocks :=
      (piece_blocks (store s ! fst b))[snd b := (block_at s b)\<lparr>blk_status := pending\<rparr>]\<rparr>"
    using nr by (auto simp: next_request_def next_block_Some block_at_def piece_at_def)
  then show "s' = s\<lparr>store := (store s)[fst b := (store s ! fst b)\<lparr>piece_blocks :=
        (piece_blocks (store s ! fst b))[snd b := (block_at s b)\<lparr>blk_status := pending\<rparr>]\<rparr>],
      pendingRequests := pendingRequests s @ [\<lparr>req_block = b, timestamp = now\<rparr>]\<rparr>" using s' by simp
  have r: "requests_wf s" using wf by (rule pm_wfD)
  have il: "fst b < length (store s)" using wf b(1) pm_wf_ongoing by (auto simp: pm_wf_def)
  have new: "b \<notin> req_block ` set (pendingRequests s)"
    using requests_wfD(3)[OF r] nb(2) by fastforce
  have "requests_wf s'"
    unfolding requests_wf_def
  proof (intro conjI ballI allI impI)
    show "distinct (map req_block (pendingRequests s'))"
      using r new by (simp add: s' requests_wf_def)
    fix q i k
    assume q: "q \<in> set (pendingRequests s')" "req_block q = (i, k)"
    have old: "q \<noteq> \<lparr>req_block = b, timestamp = now\<rparr> \<Longrightarrow> q \<in> set (pendingRequests s)" using q by (auto simp: s')
    show "i \<in> set (ongoingPieces s')" using q b requests_wfD(1)[OF r] old by (fastforce simp: s')
    show "k < length (piece_blocks (store s' ! i))"
      using q sb il requests_wfD(2)[OF r] old nb(3) by (fastforce simp: s' nth_list_update)
    show "blk_status (piece_blocks (store s' ! i) ! k) = pending"
      using q sb il requests_wfD(3)[OF r] old nb by (fastforce simp: s' nth_list_update)
  qed
  then show "pm_wf s'"
    unfolding s' by (intro pm_wf_update wf b layout_next_request[OF nr])
qed

lemma count_pieces_spec:
  "count_pieces bf is m = Inr m' \<Longrightarrow> wf_map m \<Longrightarrow> distinct is \<Longrightarrow> set is \<inter> fst ` set m = {} \<Longrightarrow>
   snd ` set m \<subseteq> {1} \<Longrightarrow>
   wf_map m' \<and> fst ` set m' = fst ` set m \<union> {i \<in> set is. hasPiece bf i = Inr True} \<and> snd ` set m' \<subseteq> {1}"
proof (induction bf "is" m arbitrary: m' rule: count_pieces.induct)
  case (2 bf i "is" m)
  from "2.prems"(1) obtain h where h: "hasPiece bf i = Inr h" by (auto simp: rbind_Inr_iff)
  have new: "map_get m i = None" using "2.prems"(4) by (force simp: map_get_def map_of_eq_None_iff)
  define m1 where "m1 = (if h then map_set i ((case map_get m i of None \<Rightarrow> 0 | Some c \<Rightarrow> c) + 1) m else m)"
  have k1: "fst ` set m1 = (if h then insert i (fst ` set m) else fst ` set m)"
    by (simp add: m1_def keys_map_set)
  have v1: "snd ` set m1 \<subseteq> {1}"
    using snd_map_set[of i 1 m] "2.prems"(5) by (auto simp: m1_def new)
  have "wf_map m1" using "2.prems"(2) by (simp add: m1_def wf_map_set)
  moreover have "count_pieces bf is m1 = Inr m'" using "2.prems"(1) h by (simp add: m1_def)
  moreover have "set is \<inter> fst ` set m1 = {}" using "2.prems"(3,4) by (auto simp: k1)
  ultimately have "wf_map m' \<and> fst ` set m' = fst ` set m1 \<union> {i \<in> set is. hasPiece bf i = Inr True}
      \<and> snd ` set m' \<subseteq> {1}"
    using "2.IH"[OF h, of m'] "2.prems"(3) v1 by (simp add: m1_def)
  then show ?case by (auto simp: k1 h split: if_splits)
qed auto

lemma least_count_same: "snd ` set m \<subseteq> {c} \<Longrightarrow> least_count m c r = r"
  by (induction m arbitrary: r) auto

lemma least_count_hd:
  "snd ` set m \<subseteq> {1} \<Longrightarrow> least_count m INT16_MAX None = (if m = [] then None else Some (fst (hd m)))"
  by (cases m) (auto simp: INT16_MAX_def least_count_same)

text \<open>
  What \<open>getRarestPiece\<close> does: the lowest index among the missing pieces the peer has, and
  an uninitialised pointer when there is none.
\<close>

definition candidates :: "bytes \<Rightarrow> pmanager \<Rightarrow> nat set" where
  "candidates bf s = {i \<in> set (missingPieces s). hasPiece bf i = Inr True}"

lemma count_pieces_candidates:
  assumes "count_pieces bf (missingPieces s) [] = Inr m" "distinct (missingPieces s)"
  shows "least_count m INT16_MAX None = (if candidates bf s = {} then None else Some (Min (candidates bf s)))"
proof -
  from count_pieces_spec[OF assms(1)] assms(2)
  have m: "wf_map m" "fst ` set m = candidates bf s" "snd ` set m \<subseteq> {1}"
    by (simp_all add: candidates_def)
  show ?thesis
  proof (cases m)
    case Nil
    then show ?thesis using m by (simp add: least_count_hd)
  next
    case (Cons e m')
    have "fst e = Min (candidates bf s)"
    proof (rule Min_eqI[symmetric])
      show "finite (candidates bf s)" by (simp add: candidates_def)
      show "fst e \<le> j" if "j \<in> candidates bf s" for j
        using that m(1) unfolding m(2)[symmetric] Cons by (cases e) (auto simp: wf_map_Cons)
      show "fst e \<in> candidates bf s" using m(2) Cons by auto
    qed
    moreover have "candidates bf s \<noteq> {}" using m(2) Cons by auto
    ultimately show ?thesis using m(3) Cons by (simp add: least_count_hd)
  qed
qed

lemma getRarestPiece_cases:
  assumes "distinct (missingPieces s)" "\<forall>i \<in> set (missingPieces s). is_ok (hasPiece bf i)"
  shows "getRarestPiece bf s =
    (if candidates bf s = {} then Inl (Undefined UninitPointer)
     else Inr (Min (candidates bf s),
       s\<lparr>missingPieces := filter (\<lambda>j. j \<noteq> Min (candidates bf s)) (missingPieces s),
         ongoingPieces := ongoingPieces s @ [Min (candidates bf s)]\<rparr>))"
proof -
  have "\<exists>m'. count_pieces bf is m = Inr m'" if "\<forall>i \<in> set is. is_ok (hasPiece bf i)" for "is" m
    using that by (induction "is" arbitrary: m) (auto simp: is_ok_iff)
  from this[OF assms(2)] obtain m where m: "count_pieces bf (missingPieces s) [] = Inr m" by blast
  show ?thesis by (simp add: getRarestPiece_def m count_pieces_candidates[OF m assms(1)])
qed

lemma getRarestPiece_Inr:
  assumes "getRarestPiece bf s = Inr (i, s1)" "distinct (missingPieces s)"
  shows "i \<in> candidates bf s" "i = Min (candidates bf s)"
    "s1 = s\<lparr>missingPieces := filter (\<lambda>j. j \<noteq> i) (missingPieces s), ongoingPieces := ongoingPieces s @ [i]\<rparr>"
proof -
  from assms(1) obtain m where m: "count_pieces bf (missingPieces s) [] = Inr m"
    by (auto simp: getRarestPiece_def rbind_Inr_iff)
  have "candidates bf s \<noteq> {} \<Longrightarrow> Min (candidates bf s) \<in> candidates bf s"
    by (rule Min_in) (simp_all add: candidates_def)
  then show "i \<in> candidates bf s" "i = Min (candidates bf s)"
    "s1 = s\<lparr>missingPieces := filter (\<lambda>j. j \<noteq> i) (missingPieces s), ongoingPieces := ongoingPieces s @ [i]\<rparr>"
    using assms(1) by (auto simp: getRarestPiece_def m count_pieces_candidates[OF m assms(2)] split: if_splits)
qed

definition start_piece :: "nat \<Rightarrow> pmanager \<Rightarrow> pmanager" where
  "start_piece i s = s\<lparr>missingPieces := filter (\<lambda>j. j \<noteq> i) (missingPieces s), ongoingPieces := ongoingPieces s @ [i]\<rparr>"

lemma start_piece_wf:
  assumes wf: "pm_wf s" and i: "i \<in> set (missingPieces s)"
  shows "pm_wf (start_piece i s)"
proof -
  have "lists_wf s" using wf by (rule pm_wfD)
  then have "lists_wf (start_piece i s)" using i by (auto simp: lists_wf_def start_piece_def)
  moreover have "requests_wf (start_piece i s)"
    using pm_wfD(6)[OF wf] by (auto simp: requests_wf_def start_piece_def)
  ultimately show ?thesis using wf by (auto simp: pm_wf_def start_piece_def)
qed

lemma request_rarest_Inr:
  assumes wf: "pm_wf s" and r: "request_rarest bf s = Inr (x, s')"
  shows "\<exists>i. i \<in> candidates bf s \<and> i = Min (candidates bf s) \<and>
    (case x of
       None \<Rightarrow> s' = start_piece i s \<and> piece_blocks (store s ! i) = []
     | Some b \<Rightarrow> \<exists>p. b = (i, 0) \<and> next_request (store s ! i) = Some (0, p)
         \<and> s' = (start_piece i s)\<lparr>store := (store s)[i := p]\<rparr>)"
proof -
  have d: "distinct (missingPieces s)" using pm_wfD(3)[OF wf] by (simp add: lists_wf_def)
  from r obtain i where g: "getRarestPiece bf s = Inr (i, start_piece i s)"
    using getRarestPiece_Inr(3)[OF _ d] by (auto simp: request_rarest_def rbind_Inr_iff start_piece_def)
  note gi = getRarestPiece_Inr[OF g d]
  then have im: "i \<in> set (missingPieces s)" by (simp add: candidates_def)
  have all: "\<forall>b \<in> set (piece_blocks (store s ! i)). blk_status b = missing" using pm_wfD(4)[OF wf im] by blast
  have "case x of
       None \<Rightarrow> s' = start_piece i s \<and> piece_blocks (store s ! i) = []
     | Some b \<Rightarrow> \<exists>p. b = (i, 0) \<and> next_request (store s ! i) = Some (0, p)
         \<and> s' = (start_piece i s)\<lparr>store := (store s)[i := p]\<rparr>"
    using r g all
    by (cases "piece_blocks (store s ! i)")
      (auto simp: request_rarest_def start_piece_def next_request_def)
  with gi show ?thesis by blast
qed

lemma request_rarest_wf:
  assumes wf: "pm_wf s" and r: "request_rarest bf s = Inr (x, s')"
  shows "pm_wf s'"
proof -
  obtain i where i: "i \<in> candidates bf s" and c: "case x of
       None \<Rightarrow> s' = start_piece i s \<and> piece_blocks (store s ! i) = []
     | Some b \<Rightarrow> \<exists>p. b = (i, 0) \<and> next_request (store s ! i) = Some (0, p)
         \<and> s' = (start_piece i s)\<lparr>store := (store s)[i := p]\<rparr>"
    using request_rarest_Inr[OF assms] by blast
  then have im: "i \<in> set (missingPieces s)" by (simp add: candidates_def)
  note wf1 = start_piece_wf[OF wf im]
  show ?thesis
  proof (cases x)
    case (Some b)
    with c obtain p where p: "next_request (store s ! i) = Some (0, p)"
      "s' = (start_piece i s)\<lparr>store := (store s)[i := p]\<rparr>" by auto
    have "i \<notin> set (ongoingPieces s)" using pm_wfD(3)[OF wf] im by (auto simp: lists_wf_def)
    then have "(store s)[i := p] ! j = store s ! j" if "j \<in> set (ongoingPieces s)" for j
      using that by (metis nth_list_update_neq)
    then have "requests_wf ((start_piece i s)\<lparr>store := (store s)[i := p]\<rparr>)"
      using pm_wfD(6)[OF wf] by (auto simp: requests_wf_def start_piece_def)
    then have "pm_wf ((start_piece i s)\<lparr>store := (store (start_piece i s))[i := p],
        pendingRequests := pendingRequests (start_piece i s)\<rparr>)"
      by (intro pm_wf_update wf1) (auto simp: start_piece_def layout_next_request[OF p(1)])
    then show ?thesis by (simp add: p(2) start_piece_def)
  qed (use wf1 c in simp)
qed


lemma pm_wf_requests:
  assumes "pm_wf s" "map req_block rs = map req_block (pendingRequests s)"
  shows "pm_wf (s\<lparr>pendingRequests := rs\<rparr>)"
proof -
  have im: "req_block ` set rs = req_block ` set (pendingRequests s)" using assms(2) by (metis list.set_map)
  have "requests_wf (s\<lparr>pendingRequests := rs\<rparr>)"
    unfolding requests_wf_def
  proof (intro conjI ballI allI impI)
    show "distinct (map req_block (pendingRequests (s\<lparr>pendingRequests := rs\<rparr>)))"
      using assms pm_wfD(6)[OF assms(1)] by (simp add: requests_wf_def)
    fix r i k assume "r \<in> set (pendingRequests (s\<lparr>pendingRequests := rs\<rparr>))" "req_block r = (i, k)"
    then have "(i, k) \<in> req_block ` set (pendingRequests s)" using im by force
    then obtain r' where "r' \<in> set (pendingRequests s)" "req_block r' = (i, k)" by auto
    with requests_wfD[OF pm_wfD(6)[OF assms(1)], of r']
    show "i \<in> set (ongoingPieces (s\<lparr>pendingRequests := rs\<rparr>))"
      "k < length (piece_blocks (store (s\<lparr>pendingRequests := rs\<rparr>) ! i))"
      "blk_status (piece_blocks (store (s\<lparr>pendingRequests := rs\<rparr>) ! i) ! k) = pending" by simp_all
  qed
  with assms(1) show ?thesis unfolding pm_wf_def lists_wf_def by auto
qed

text \<open>The three ways \<open>nextRequest\<close> finds a block.\<close>

lemma nextRequest_cases:
  assumes n: "nextRequest p now s = Inr (x, s')"
  obtains "x = None" "s' = s" "missingPieces s = [] \<or> map_get (peers s) p = None"
  | bf b rs where "map_get (peers s) p = Some bf" "missingPieces s \<noteq> []"
      "expired_loop bf now (pendingRequests s) = Inr (Some (b, rs))"
      "x = Some b" "s' = s\<lparr>pendingRequests := rs\<rparr>"
  | bf b where "map_get (peers s) p = Some bf" "missingPieces s \<noteq> []"
      "expired_loop bf now (pendingRequests s) = Inr None"
      "nextOngoing bf now s = Inr (Some (b, s'))" "x = Some b"
  | bf where "map_get (peers s) p = Some bf" "missingPieces s \<noteq> []"
      "expired_loop bf now (pendingRequests s) = Inr None" "nextOngoing bf now s = Inr None"
      "request_rarest bf s = Inr (x, s')"
proof (cases "missingPieces s = [] \<or> map_get (peers s) p = None")
  case True
  with n that(1) show thesis by (auto simp: nextRequest_def split: if_splits)
next
  case False
  then obtain bf where bf: "map_get (peers s) p = Some bf" "missingPieces s \<noteq> []" by auto
  with n obtain e where e: "expired_loop bf now (pendingRequests s) = Inr e"
    by (auto simp: nextRequest_def rbind_Inr_iff)
  show thesis
  proof (cases e)
    case None
    with n bf e obtain y where y: "nextOngoing bf now s = Inr y"
      by (auto simp: nextRequest_def rbind_Inr_iff)
    show thesis
    proof (cases y)
      case None
      with n bf e \<open>e = None\<close> y that(4) show thesis by (auto simp: nextRequest_def)
    next
      case (Some z)
      with n bf e \<open>e = None\<close> y that(3) show thesis by (cases z) (auto simp: nextRequest_def)
    qed
  next
    case (Some z)
    with n bf e that(2) show thesis by (cases z) (auto simp: nextRequest_def)
  qed
qed

lemma nextRequest_wf: "nextRequest p now s = Inr (x, s') \<Longrightarrow> pm_wf s \<Longrightarrow> pm_wf s'"
  by (erule nextRequest_cases)
    (auto intro: pm_wf_requests request_rarest_wf nextOngoing_Some(1) dest: expired_loop_Some)

lemma nextRequest_block:
  assumes wf: "pm_wf s" and n: "nextRequest p now s = Inr (Some b, s')"
  shows "\<exists>bf. map_get (peers s) p = Some bf \<and> hasPiece bf (fst b) = Inr True"
    and "fst b \<in> set (ongoingPieces s')" and "snd b < length (piece_blocks (store s' ! fst b))"
    and "blk_status (block_at s' b) = pending"
    and "blk_status (block_at s b) = missing \<or>
      (blk_status (block_at s b) = pending \<and>
       (\<exists>r \<in> set (pendingRequests s). req_block r = b \<and> max_pending_time \<le> now - timestamp r))"
proof -
  let ?goal = "(\<exists>bf. map_get (peers s) p = Some bf \<and> hasPiece bf (fst b) = Inr True) \<and>
    fst b \<in> set (ongoingPieces s') \<and> snd b < length (piece_blocks (store s' ! fst b)) \<and>
    blk_status (block_at s' b) = pending \<and>
    (blk_status (block_at s b) = missing \<or>
      (blk_status (block_at s b) = pending \<and>
       (\<exists>r \<in> set (pendingRequests s). req_block r = b \<and> max_pending_time \<le> now - timestamp r)))"
  have ?goal
    using n
  proof (cases rule: nextRequest_cases)
    case (2 bf b' rs)
    from expired_loop_Some[OF 2(3)] obtain r where r: "r \<in> set (pendingRequests s)" "req_block r = b'"
      "max_pending_time \<le> now - timestamp r" "hasPiece bf (fst b') = Inr True" by auto
    with requests_wfD[OF pm_wfD(6)[OF wf] r(1)] 2 show ?thesis
      by (auto simp: block_at_def piece_at_def)
  next
    case (3 bf b')
    from nextOngoing_Some[OF wf 3(4)] 3 pm_wf_ongoing[OF wf] pm_wfD(1)[OF wf] show ?thesis
      by (auto simp: block_at_def piece_at_def)
  next
    case (4 bf)
    from request_rarest_Inr[OF wf 4(5)] obtain i q where i: "i \<in> candidates bf s" "b = (i, 0)"
      "next_request (store s ! i) = Some (0, q)" "s' = (start_piece i s)\<lparr>store := (store s)[i := q]\<rparr>"
      by auto
    then have "i < length (store s)" using pm_wfD(1,3)[OF wf] by (auto simp: candidates_def lists_wf_def)
    with i 4(1) next_request_block[OF i(3)] show ?thesis
      by (auto simp: block_at_def piece_at_def start_piece_def candidates_def)
  qed simp
  then show "\<exists>bf. map_get (peers s) p = Some bf \<and> hasPiece bf (fst b) = Inr True"
    and "fst b \<in> set (ongoingPieces s')" and "snd b < length (piece_blocks (store s' ! fst b))"
    and "blk_status (block_at s' b) = pending"
    and "blk_status (block_at s b) = missing \<or>
      (blk_status (block_at s b) = pending \<and>
       (\<exists>r \<in> set (pendingRequests s). req_block r = b \<and> max_pending_time \<le> now - timestamp r))" by blast+
qed

text \<open>\<open>blockReceived\<close> in a well-formed state, branch by branch.\<close>

lemma find_index:
  assumes "\<forall>j \<in> set js. f j = j"
  shows "find (\<lambda>j. f j = i) js = (if i \<in> set js then Some i else None)"
  using assms by (induction js) auto

definition without_request :: "block_ptr \<Rightarrow> pending_request list \<Rightarrow> pending_request list" where
  "without_request b rs = filter (\<lambda>r. req_block r \<noteq> b) rs"

lemma remove_request_eq:
  assumes wf: "pm_wf s" and k: "off = k * 16384"
    and "distinct (map req_block rs)" "set rs \<subseteq> set (pendingRequests s)"
  shows "remove_request s i off rs = without_request (i, k) rs"
  using assms(3,4)
proof (induction rs)
  case (Cons r rs)
  have r: "r \<in> set (pendingRequests s)" using Cons.prems by simp
  obtain i' k' where b: "req_block r = (i', k')" by fastforce
  note rd = requests_wfD[OF pm_wfD(6)[OF wf] r, unfolded b, simplified]
  have "piece_wf i' (store s ! i')" using wf rd(1) pm_wf_ongoing pm_wfD(2) by blast
  with rd(2) have "blk_piece (block_at s (i', k')) = i'" "blk_offset (block_at s (i', k')) = k' * 16384"
    by (simp_all add: piece_wf_def block_at_def piece_at_def)
  then have m: "blk_piece (block_at s (req_block r)) = i \<and> blk_offset (block_at s (req_block r)) = off
      \<longleftrightarrow> req_block r = (i, k)" by (auto simp: b k)
  show ?case
  proof (cases "req_block r = (i, k)")
    case True
    have "without_request (i, k) rs = rs"
      unfolding without_request_def using Cons.prems(1) True by (intro filter_True) force
    with True m show ?thesis by (simp add: without_request_def)
  qed (use Cons m in \<open>auto simp: without_request_def\<close>)
qed (simp add: without_request_def)

lemma remove_request_none:
  assumes "\<forall>r \<in> set rs. blk_piece (block_at s (req_block r)) \<noteq> i \<or> blk_offset (block_at s (req_block r)) \<noteq> off"
  shows "remove_request s i off rs = rs"
  using assms by (induction rs) auto

lemma store_block_wf:
  assumes wf: "piece_wf i p"
  shows "store_block off d (piece_blocks p) =
    (if off mod 16384 = 0 \<and> off div 16384 < length (piece_blocks p)
     then Some ((piece_blocks p)[off div 16384 := (piece_blocks p ! (off div 16384))
            \<lparr>blk_status := retrieved, blk_data := d\<rparr>])
     else None)"
proof (cases "off mod 16384 = 0 \<and> off div 16384 < length (piece_blocks p)")
  case True
  then have off: "off = off div 16384 * 16384" by (metis add.right_neutral div_mult_mod_eq)
  have "store_block off d (piece_blocks p) = Some ((piece_blocks p)[off div 16384 := (piece_blocks p ! (off div 16384))
            \<lparr>blk_status := retrieved, blk_data := d\<rparr>])"
    by (rule store_block_first) (use wf True off in \<open>auto simp: piece_wf_def\<close>)
  with True show ?thesis by simp
next
  case False
  have "off \<notin> blk_offset ` set (piece_blocks p)"
  proof
    assume "off \<in> blk_offset ` set (piece_blocks p)"
    then obtain k where "k < length (piece_blocks p)" "off = blk_offset (piece_blocks p ! k)"
      by (auto simp: in_set_conv_nth)
    with wf have "off = k * 16384" "k < length (piece_blocks p)" by (simp_all add: piece_wf_def)
    with False show False by simp
  qed
  then show ?thesis unfolding if_not_P[OF False] store_block_None .
qed

definition put_block :: "nat \<Rightarrow> bytes \<Rightarrow> piece \<Rightarrow> piece" where
  "put_block k d p = p\<lparr>piece_blocks := (piece_blocks p)[k := (piece_blocks p ! k)
     \<lparr>blk_status := retrieved, blk_data := d\<rparr>]\<rparr>"

definition piece_bytes :: "piece \<Rightarrow> bytes" where
  "piece_bytes p = concat (map blk_data (piece_blocks p))"

lemma verified_iff: "verified p \<longleftrightarrow> is_complete p \<and> fips_sha1 (piece_bytes p) = piece_hash p"
  by (simp add: verified_def piece_bytes_def)

lemma blockReceived_cases:
  fixes i off :: nat and d :: bytes and s :: pmanager
  assumes wf: "pm_wf s"
  defines "k \<equiv> off div 16384"
  defines "p \<equiv> put_block k d (store s ! i)"
    and "rs \<equiv> without_request (i, k) (pendingRequests s)"
  shows "blockReceived i off d s =
    (if i \<notin> set (ongoingPieces s)
     then (s, Inl (RuntimeError ''Received Block does not belong to any ongoing Piece.''))
     else if off mod 16384 \<noteq> 0 \<or> length (piece_blocks (store s ! i)) \<le> k
     then (s, Inl (RuntimeError ''Trying to complete a non-existing block ''))
     else if \<not> is_complete p then (s\<lparr>store := (store s)[i := p], pendingRequests := rs\<rparr>, Inr ())
     else if fips_sha1 (piece_bytes p) \<noteq> piece_hash p
     then (s\<lparr>store := (store s)[i := piece_reset p], pendingRequests := rs\<rparr>, Inr ())
     else (br_commit i (br_write i (piece_bytes p) (s\<lparr>store := (store s)[i := p], pendingRequests := rs\<rparr>)), Inr ()))"
proof -
  have ix: "\<forall>j \<in> set (ongoingPieces s). piece_index (store s ! j) = j"
    using wf pm_wf_ongoing pm_wfD(2) by (fastforce simp: piece_wf_def)
  note f = find_index[of "ongoingPieces s" "\<lambda>j. piece_index (store s ! j)" i, OF ix]
  have rp: "blk_piece (block_at s (req_block r)) = fst (req_block r)"
    "blk_offset (block_at s (req_block r)) = snd (req_block r) * 16384"
    "fst (req_block r) \<in> set (ongoingPieces s)"
    "snd (req_block r) < length (piece_blocks (store s ! fst (req_block r)))"
    if r: "r \<in> set (pendingRequests s)" for r
    using requests_wfD[OF pm_wfD(6)[OF wf] r] pm_wfD(2)[OF wf pm_wf_ongoing[OF wf]]
    by (simp_all add: piece_wf_def block_at_def piece_at_def)
  show ?thesis
  proof (cases "i \<in> set (ongoingPieces s)")
    case False
    then have "remove_request s i off (pendingRequests s) = pendingRequests s"
      by (intro remove_request_none) (use rp in force)
    with False f show ?thesis by (simp add: blockReceived_def br_find_def)
  next
    case True
    have pw: "piece_wf i (store s ! i)" using wf True pm_wf_ongoing pm_wfD(2) by blast
    show ?thesis
    proof (cases "off mod 16384 = 0 \<and> k < length (piece_blocks (store s ! i))")
      case False
      have "remove_request s i off (pendingRequests s) = pendingRequests s"
      proof (intro remove_request_none ballI)
        fix r assume r: "r \<in> set (pendingRequests s)"
        show "blk_piece (block_at s (req_block r)) \<noteq> i \<or> blk_offset (block_at s (req_block r)) \<noteq> off"
          using rp[OF r] False unfolding k_def by auto
      qed
      moreover have "store_block off d (piece_blocks (store s ! i)) = None"
        using False store_block_wf[OF pw] by (simp add: k_def)
      ultimately show ?thesis using True False f
        by (auto simp: blockReceived_def br_find_def br_store_def block_received_def)
    next
      case k: True
      then have off: "off = k * 16384" unfolding k_def by (metis add.right_neutral div_mult_mod_eq)
      have "remove_request s i off (pendingRequests s) = rs"
        unfolding rs_def by (rule remove_request_eq[OF wf off]) (use pm_wfD(6)[OF wf] in \<open>auto simp: requests_wf_def\<close>)
      moreover have "block_received off d (store s ! i) = Inr p"
        using k store_block_wf[OF pw, of off d] by (simp add: block_received_def p_def put_block_def k_def)
      moreover have "is_complete p \<Longrightarrow> is_hash_matching p = Inr (fips_sha1 (piece_bytes p) = piece_hash p)"
        "is_complete p \<Longrightarrow> piece_data p = Inr (piece_bytes p)"
        by (simp_all add: is_hash_matching_iff piece_bytes_def piece_data_def)
      moreover have upd: "s\<lparr>pendingRequests := a, store := b\<rparr> = s\<lparr>store := b, pendingRequests := a\<rparr>" for a b
        by simp
      ultimately show ?thesis using True k f
        by (auto simp: blockReceived_def br_find_def br_store_def Let_def upd)
    qed
  qed
qed


lemma layout_put_block: "layout (put_block k d p) = layout p"
  by (cases "k < length (piece_blocks p)")
    (simp_all add: layout_def put_block_def map_update list_update_same_conv not_less list_update_beyond)

lemma requests_wf_shrink:
  assumes r: "requests_wf s"  and il: "i < length (store s)"
    and pend: "\<And>q k'. q \<in> set (without_request (i, k) (pendingRequests s)) \<Longrightarrow> req_block q = (i, k') \<Longrightarrow>
       k' < length (piece_blocks p') \<and> blk_status (piece_blocks p' ! k') = pending"
  shows "requests_wf (s\<lparr>store := (store s)[i := p'],
     pendingRequests := without_request (i, k) (pendingRequests s)\<rparr>)"
  unfolding requests_wf_def
proof (intro conjI ballI allI impI)
  show "distinct (map req_block (pendingRequests (s\<lparr>store := (store s)[i := p'],
     pendingRequests := without_request (i, k) (pendingRequests s)\<rparr>)))"
    using r by (simp add: requests_wf_def without_request_def distinct_map_filter)
  fix q j k'
  assume q: "q \<in> set (pendingRequests (s\<lparr>store := (store s)[i := p'],
     pendingRequests := without_request (i, k) (pendingRequests s)\<rparr>))" "req_block q = (j, k')"
  then have q': "q \<in> set (pendingRequests s)" by (simp add: without_request_def)
  note old = requests_wfD[OF r q', unfolded q(2), simplified]
  show "j \<in> set (ongoingPieces (s\<lparr>store := (store s)[i := p'],
     pendingRequests := without_request (i, k) (pendingRequests s)\<rparr>))" using old by simp
  show "k' < length (piece_blocks (store (s\<lparr>store := (store s)[i := p'],
     pendingRequests := without_request (i, k) (pendingRequests s)\<rparr>) ! j))"
    using old pend[of q k'] q il by (cases "j = i") simp_all
  show "blk_status (piece_blocks (store (s\<lparr>store := (store s)[i := p'],
     pendingRequests := without_request (i, k) (pendingRequests s)\<rparr>) ! j) ! k') = pending"
    using old pend[of q k'] q il by (cases "j = i") simp_all
qed

text \<open>After the block is stored the requests that are left are for other, pending blocks.\<close>

lemma put_block_requests:
  assumes wf: "pm_wf s" and i: "i \<in> set (ongoingPieces s)" and k: "k < length (piece_blocks (store s ! i))"
    and q: "q \<in> set (without_request (i, k) (pendingRequests s))" "req_block q = (i, k')"
  shows "k' < length (piece_blocks (put_block k d (store s ! i)))"
    "blk_status (piece_blocks (put_block k d (store s ! i)) ! k') = pending"
proof -
  have "q \<in> set (pendingRequests s)" "k' \<noteq> k" using q by (auto simp: without_request_def)
  with requests_wfD[OF pm_wfD(6)[OF wf], of q] q(2)
  show "k' < length (piece_blocks (put_block k d (store s ! i)))"
    "blk_status (piece_blocks (put_block k d (store s ! i)) ! k') = pending"
    by (simp_all add: put_block_def)
qed

lemma complete_no_requests:
  assumes "pm_wf s" "i \<in> set (ongoingPieces s)" "k < length (piece_blocks (store s ! i))"
    and c: "is_complete (put_block k d (store s ! i))"
    and q: "q \<in> set (without_request (i, k) (pendingRequests s))"
  shows "fst (req_block q) \<noteq> i"
proof
  assume "fst (req_block q) = i"
  then obtain k' where b: "req_block q = (i, k')" by (cases "req_block q") auto
  from put_block_requests[OF assms(1-3) q b, of d] c show False
    by (auto simp: is_complete_def list_all_length)
qed

lemma put_block_wf:
  assumes wf: "pm_wf s" and i: "i \<in> set (ongoingPieces s)" and k: "k < length (piece_blocks (store s ! i))"
  shows "pm_wf (s\<lparr>store := (store s)[i := put_block k d (store s ! i)],
     pendingRequests := without_request (i, k) (pendingRequests s)\<rparr>)"
  using pm_wf_ongoing[OF wf i] pm_wfD(1,6)[OF wf] put_block_requests[OF wf i k]
  by (intro pm_wf_update[OF wf i layout_put_block] requests_wf_shrink) auto

lemma reset_wf:
  assumes wf: "pm_wf s" and i: "i \<in> set (ongoingPieces s)" and k: "k < length (piece_blocks (store s ! i))"
    and c: "is_complete (put_block k d (store s ! i))"
  shows "pm_wf (s\<lparr>store := (store s)[i := piece_reset (put_block k d (store s ! i))],
     pendingRequests := without_request (i, k) (pendingRequests s)\<rparr>)"
proof (intro pm_wf_update[OF wf i] requests_wf_shrink)
  show "layout (piece_reset (put_block k d (store s ! i))) = layout (store s ! i)"
    by (simp add: layout_reset layout_put_block)
qed (use pm_wf_ongoing[OF wf i] pm_wfD(1,6)[OF wf] complete_no_requests[OF wf i k c] in force)+

lemma commit_wf:
  assumes wf: "pm_wf s" and i: "i \<in> set (ongoingPieces s)" and v: "verified (store s ! i)"
    and nr: "\<forall>q \<in> set (pendingRequests s). fst (req_block q) \<noteq> i"
  shows "pm_wf (br_commit i (br_write i d s))"
proof -
  have "lists_wf (br_commit i (br_write i d s))"
    using pm_wfD(3)[OF wf] i by (auto simp: lists_wf_def br_commit_def br_write_def)
  moreover have "requests_wf (br_commit i (br_write i d s))"
    using pm_wfD(6)[OF wf] nr by (force simp: requests_wf_def br_commit_def br_write_def)
  ultimately show ?thesis using wf v by (auto simp: pm_wf_def br_commit_def br_write_def)
qed

lemma blockReceived_wf:
  assumes wf: "pm_wf s" and b: "blockReceived i off d s = (s', r)"
  shows "pm_wf s'"
proof -
  define k where "k = off div 16384"
  define p where "p = put_block k d (store s ! i)"
  define rs where "rs = without_request (i, k) (pendingRequests s)"
  note c = blockReceived_cases[OF wf, of i off d, folded k_def, folded p_def rs_def, unfolded b]
  show ?thesis
  proof (cases "i \<in> set (ongoingPieces s) \<and> off mod 16384 = 0 \<and> k < length (piece_blocks (store s ! i))")
    case False
    with c have "s' = s" by (auto split: if_splits)
    with wf show ?thesis by simp
  next
    case True
    note put = put_block_wf[OF wf, of i k d, folded p_def rs_def]
    show ?thesis
    proof (cases "is_complete p \<and> fips_sha1 (piece_bytes p) = piece_hash p")
      case False
      with c True put reset_wf[OF wf, of i k d, folded p_def rs_def] show ?thesis
        by (auto split: if_splits)
    next
      case m: True
      have il: "i < length (store s)" using True pm_wf_ongoing[OF wf] pm_wfD(1)[OF wf] by simp
      have "\<forall>q \<in> set rs. fst (req_block q) \<noteq> i"
        using complete_no_requests[OF wf, of i k d] True m unfolding p_def rs_def by blast
      with put True m il
      have "pm_wf (br_commit i (br_write i (piece_bytes p) (s\<lparr>store := (store s)[i := p], pendingRequests := rs\<rparr>)))"
        by (intro commit_wf) (auto simp: verified_iff)
      with c True m show ?thesis by (auto split: if_splits)
    qed
  qed
qed

section \<open>The handlers as a state machine\<close>

text \<open>
  The calls of the connection threads, each atomic; an exception leaves the state the
  handler reached, undefined behaviour has no successor.
\<close>

datatype pm_event =
    AddPeer string bytes
  | UpdatePeer string nat
  | RemovePeer string
  | NextRequest string int
  | BlockReceived nat nat bytes

inductive pm_step :: "pm_event \<Rightarrow> pmanager \<Rightarrow> pmanager \<Rightarrow> bool" where
  add: "pm_step (AddPeer p bf) s (addPeer p bf s)"
| update: "updatePeer p i s = Inr s' \<Longrightarrow> pm_step (UpdatePeer p i) s s'"
| update_fail: "updatePeer p i s = Inl e \<Longrightarrow> is_exception e \<Longrightarrow> pm_step (UpdatePeer p i) s s"
| remove: "removePeer p s = Inr s' \<Longrightarrow> pm_step (RemovePeer p) s s'"
| remove_fail: "removePeer p s = Inl e \<Longrightarrow> is_exception e \<Longrightarrow> pm_step (RemovePeer p) s s"
| request: "nextRequest p now s = Inr (x, s') \<Longrightarrow> pm_step (NextRequest p now) s s'"
| received: "blockReceived i off d s = (s', r) \<Longrightarrow> pm_step (BlockReceived i off d) s s'"

inductive_cases pm_stepE: "pm_step ev s s'"

definition pm_start :: "torrent_file \<Rightarrow> pmanager \<Rightarrow> bool" where
  "pm_start t s \<longleftrightarrow> (\<exists>opened. PieceManager opened t = Inr s)"

lemma pm_startI: "PieceManager opened t = Inr s \<Longrightarrow> pm_start t s"
  by (auto simp: pm_start_def)

lemma pm_start_wf: "pm_start t s \<Longrightarrow> pm_wf s"
  using PieceManager_wf by (auto simp: pm_start_def)

definition pm_run :: "pmanager \<Rightarrow> pmanager \<Rightarrow> bool" where
  "pm_run = (\<lambda>s s'. \<exists>ev. pm_step ev s s')\<^sup>*\<^sup>*"

lemma pm_run_refl [simp]: "pm_run s s"
  by (simp add: pm_run_def)

lemma pm_run_step: "pm_run s s' \<Longrightarrow> pm_step ev s' s'' \<Longrightarrow> pm_run s s''"
  unfolding pm_run_def by (rule rtranclp.rtrancl_into_rtrancl) blast+

lemma pm_step_wf: "pm_step ev s s' \<Longrightarrow> pm_wf s \<Longrightarrow> pm_wf s'"
  by (induction rule: pm_step.induct)
    (auto intro: addPeer_wf updatePeer_wf removePeer_wf nextRequest_wf blockReceived_wf)

interpretation pmi: invariant_system "pm_start t" "\<lambda>s s'. \<exists>ev. pm_step ev s s'" pm_wf
proof
  show "pm_start t s \<Longrightarrow> pm_wf s" for s by (rule pm_start_wf)
  show "pm_wf s \<Longrightarrow> \<exists>ev. pm_step ev s s' \<Longrightarrow> pm_wf s'" for s s' using pm_step_wf by blast
qed

subsection \<open>The abstract download\<close>

text \<open>
  What the manager promises: a piece is missing, then ongoing, then had, and never goes
  back. The concrete machine refines it.
\<close>

record download =
  d_missing :: "nat set"
  d_ongoing :: "nat set"
  d_have :: "nat set"

inductive dl_step :: "download \<Rightarrow> download \<Rightarrow> bool" where
  start: "i \<in> d_missing a \<Longrightarrow> dl_step a (a\<lparr>d_missing := d_missing a - {i}, d_ongoing := insert i (d_ongoing a)\<rparr>)"
| finish: "i \<in> d_ongoing a \<Longrightarrow> dl_step a (a\<lparr>d_ongoing := d_ongoing a - {i}, d_have := insert i (d_have a)\<rparr>)"

definition download_of :: "pmanager \<Rightarrow> download" where
  "download_of s = \<lparr>d_missing = set (missingPieces s), d_ongoing = set (ongoingPieces s),
                    d_have = set (havePieces s)\<rparr>"

lemma without_elem: "{x \<in> A. x \<noteq> i} = A - {i}"
  by auto

lemma download_of_request:
  assumes wf: "pm_wf s" and n: "nextRequest p now s = Inr (x, s')"
  shows "dl_step\<^sup>*\<^sup>* (download_of s) (download_of s')"
  using n
proof (cases rule: nextRequest_cases)
  case (3 bf b)
  with nextOngoing_Some(6)[OF wf 3(4)] show ?thesis by (simp add: download_of_def)
next
  case (4 bf)
  from request_rarest_Inr[OF wf 4(5)] obtain i where i: "i \<in> set (missingPieces s)"
    "missingPieces s' = filter (\<lambda>j. j \<noteq> i) (missingPieces s)" "ongoingPieces s' = ongoingPieces s @ [i]"
    "havePieces s' = havePieces s"
    by (cases x) (auto simp: candidates_def start_piece_def)
  have "dl_step (download_of s) (download_of s')"
    using dl_step.start[of i "download_of s"] i by (simp add: download_of_def without_elem)
  then show ?thesis by blast
qed (simp_all add: download_of_def)

lemma download_of_received:
  assumes wf: "pm_wf s" and b: "blockReceived i off d s = (s', r)"
  shows "dl_step\<^sup>*\<^sup>* (download_of s) (download_of s')"
proof (cases "havePieces s' = havePieces s")
  case True
  then show ?thesis using b blockReceived_cases[OF wf, of i off d]
    by (auto simp: download_of_def br_commit_def br_write_def split: if_splits)
next
  case False
  then have "i \<in> set (ongoingPieces s)" "ongoingPieces s' = filter (\<lambda>k. k \<noteq> i) (ongoingPieces s)"
    "havePieces s' = havePieces s @ [i]" "missingPieces s' = missingPieces s"
    using b blockReceived_cases[OF wf, of i off d]
    by (auto simp: br_commit_def br_write_def split: if_splits)
  then have "dl_step (download_of s) (download_of s')"
    using dl_step.finish[of i "download_of s"] by (simp add: download_of_def without_elem)
  then show ?thesis by blast
qed

lemma download_of_step:
  "pm_step ev s s' \<Longrightarrow> pm_wf s \<Longrightarrow> dl_step\<^sup>*\<^sup>* (download_of s) (download_of s')"
  by (induction rule: pm_step.induct)
    (auto simp: addPeer_def updatePeer_def removePeer_def download_of_def rbind_Inr_iff
      intro: download_of_request[unfolded download_of_def] download_of_received[unfolded download_of_def]
      split: option.splits if_splits)

interpretation pms: simulation "pm_start t" "\<lambda>s s'. \<exists>ev. pm_step ev s s'" pm_wf dl_step download_of
  by unfold_locales (use download_of_step in blast)

subsection \<open>What a step changes\<close>

definition progress :: "pmanager \<Rightarrow> pmanager \<Rightarrow> bool" where
  "progress s s' \<longleftrightarrow>
     piece_len s' = piece_len s \<and> totalPieces s' = totalPieces s \<and>
     map layout (store s') = map layout (store s) \<and>
     (\<forall>i \<in> set (havePieces s). store s' ! i = store s ! i) \<and>
     ((havePieces s' = havePieces s \<and> downloadedFile s' = downloadedFile s) \<or>
      (\<exists>i \<in> set (ongoingPieces s). havePieces s' = havePieces s @ [i] \<and>
         downloadedFile s' = seek_write (int i * piece_len s) (piece_bytes (store s' ! i)) (downloadedFile s)))"

lemma progress_update:
  assumes wf: "pm_wf s" and i: "i \<in> set (ongoingPieces s) \<or> i \<in> set (missingPieces s)"
    and l: "layout p = layout (store s ! i)"
    and u: "store s' = (store s)[i := p]" "piece_len s' = piece_len s" "totalPieces s' = totalPieces s"
      "havePieces s' = havePieces s" "downloadedFile s' = downloadedFile s"
  shows "progress s s'"
proof -
  have "i \<notin> set (havePieces s)" using i pm_wfD(3)[OF wf] by (auto simp: lists_wf_def)
  then have "store s' ! j = store s ! j" if "j \<in> set (havePieces s)" for j
    unfolding u using that by (metis nth_list_update_neq)
  moreover have "map layout (store s') = map layout (store s)"
    unfolding u map_update l by (cases "i < length (store s)") (simp_all add: list_update_same_conv not_less list_update_beyond)
  ultimately show ?thesis using u by (auto simp: progress_def)
qed

lemma progress_refl: "progress s s"
  by (simp add: progress_def)

lemma progress_request:
  assumes wf: "pm_wf s" and n: "nextRequest p now s = Inr (x, s')"
  shows "progress s s'"
  using n
proof (cases rule: nextRequest_cases)
  case (2 bf b rs)
  then show ?thesis by (simp add: progress_def)
next
  case (3 bf b)
  note o = nextOngoing_Some[OF wf 3(4)]
  show ?thesis
    by (rule progress_update[OF wf, where i = "fst b"])
      (use o(2) in \<open>auto simp: o(6) layout_def map_update list_update_same_conv block_at_def piece_at_def o(4)\<close>)
next
  case (4 bf)
  from request_rarest_Inr[OF wf 4(5)] obtain i where i: "i \<in> set (missingPieces s)"
    "case x of None \<Rightarrow> s' = start_piece i s \<and> piece_blocks (store s ! i) = []
     | Some b \<Rightarrow> \<exists>p. b = (i, 0) \<and> next_request (store s ! i) = Some (0, p)
         \<and> s' = (start_piece i s)\<lparr>store := (store s)[i := p]\<rparr>"
    by (auto simp: candidates_def)
  show ?thesis
  proof (cases x)
    case None
    with i show ?thesis by (simp add: progress_def start_piece_def)
  next
    case (Some b)
    with i obtain q where q: "next_request (store s ! i) = Some (0, q)"
      "s' = (start_piece i s)\<lparr>store := (store s)[i := q]\<rparr>" by auto
    show ?thesis
      by (rule progress_update[OF wf _ layout_next_request[OF q(1)]])
        (use i(1) in \<open>auto simp: q(2) start_piece_def\<close>)
  qed
qed (simp add: progress_refl)

lemma progress_received:
  assumes wf: "pm_wf s" and b: "blockReceived i off d s = (s', r)"
  shows "progress s s'"
proof -
  define k where "k = off div 16384"
  define p where "p = put_block k d (store s ! i)"
  define rs where "rs = without_request (i, k) (pendingRequests s)"
  define s1 where "s1 = s\<lparr>store := (store s)[i := p], pendingRequests := rs\<rparr>"
  note c = blockReceived_cases[OF wf, of i off d, folded k_def, folded p_def rs_def, folded s1_def, unfolded b]
  consider "s' = s" | "i \<in> set (ongoingPieces s)" "s' = s1"
    | "i \<in> set (ongoingPieces s)" "s' = s\<lparr>store := (store s)[i := piece_reset p], pendingRequests := rs\<rparr>"
    | "i \<in> set (ongoingPieces s)" "s' = br_commit i (br_write i (piece_bytes p) s1)"
    using c by (auto split: if_splits)
  then show ?thesis
  proof cases
    case 1
    then show ?thesis by (simp add: progress_refl)
  next
    case 2
    show ?thesis by (rule progress_update[OF wf, of i p]) (use 2 in \<open>simp_all add: s1_def p_def layout_put_block\<close>)
  next
    case 3
    show ?thesis by (rule progress_update[OF wf, of i "piece_reset p"])
      (use 3 in \<open>simp_all add: p_def layout_put_block layout_reset\<close>)
  next
    case 4
    have il: "i < length (store s)" and pw: "piece_wf i (store s ! i)"
      using 4 pm_wf_ongoing[OF wf] pm_wfD(1,2)[OF wf] by auto
    have "progress s s1"
      by (rule progress_update[OF wf, of i p]) (use 4 in \<open>simp_all add: s1_def p_def layout_put_block\<close>)
    moreover have "piece_index p = i" using pw by (simp add: p_def put_block_def piece_wf_def)
    ultimately show ?thesis using 4 il
      by (auto simp: progress_def br_commit_def br_write_def s1_def)
  qed
qed

lemma pm_step_progress: "pm_step ev s s' \<Longrightarrow> pm_wf s \<Longrightarrow> progress s s'"
  by (induction rule: pm_step.induct)
    (auto simp: addPeer_def updatePeer_def removePeer_def rbind_Inr_iff progress_refl
      intro: progress_request progress_received simp: progress_def[of _ "peers_update _ _"] split: option.splits if_splits)

subsection \<open>The file\<close>

lemma overwrite_here: "d \<noteq> [] \<Longrightarrow> take (length d) (drop p (overwrite p d c)) = d"
  by (simp add: overwrite_def)

lemma overwrite_elsewhere:
  assumes "q + m \<le> p \<or> p + length d \<le> q" "q + m \<le> length c"
  shows "take m (drop q (overwrite p d c)) = take m (drop q c)"
proof (cases "d = []")
  case False
  define z where "z = replicate (p - length c) (char_of (0::nat))"
  have o: "overwrite p d c = take p (c @ z) @ d @ drop (p + length d) c" using False by (simp add: overwrite_def z_def)
  have lz: "length (take p (c @ z)) = p" by (simp add: z_def)
  show ?thesis
  proof (cases "q + m \<le> p")
    case True
    have "take m (drop q (overwrite p d c)) = take m (drop q (take p (c @ z)))"
      unfolding o using True lz by (simp add: take_append)
    also have "\<dots> = take m (drop q c)" using True assms(2) by (simp add: take_drop min_def)
    finally show ?thesis .
  next
    case F: False
    then have "p + length d \<le> q" using assms(1) by simp
    then have "drop q (overwrite p d c) = drop (q - p - length d) (drop (p + length d) c)"
      unfolding o drop_append using drop_all[of "take p (c @ z)" q] lz by (simp only: lz drop_append) simp
    also have "\<dots> = drop q c" using F assms(1) by (simp add: drop_drop)
    finally show ?thesis by simp
  qed
qed (simp add: overwrite_def)


text \<open>The file holds the data of the pieces of a set at their places, if they are not longer than a piece.\<close>

definition pieces_in_file :: "nat set \<Rightarrow> pmanager \<Rightarrow> bool" where
  "pieces_in_file A s \<longleftrightarrow>
     good (downloadedFile s) \<and> 0 \<le> piece_len s \<and> (\<forall>i \<in> A. int (length (piece_bytes (store s ! i))) \<le> piece_len s) \<longrightarrow>
     (\<forall>i \<in> A. take (length (piece_bytes (store s ! i))) (drop (i * nat (piece_len s)) (content (downloadedFile s)))
        = piece_bytes (store s ! i))"

definition had_in_file :: "pmanager \<Rightarrow> bool" where
  "had_in_file s \<longleftrightarrow> pieces_in_file (set (havePieces s)) s"

lemma good_seek_write: "good (seek_write q d f) \<Longrightarrow> good f"
  by (auto simp: seek_write_eq split: if_splits)

lemma pieces_disjoint:
  assumes "i \<noteq> j" "a \<le> pl" "b \<le> pl"
  shows "i * pl + a \<le> j * pl \<or> j * pl + b \<le> i * (pl::nat)"
proof (cases "i < j")
  case True
  then have "Suc i * pl \<le> j * pl" by (intro mult_le_mono1) simp
  with assms(2) show ?thesis by simp
next
  case False
  with assms(1) have "Suc j * pl \<le> i * pl" by (intro mult_le_mono1) simp
  with assms(3) show ?thesis by simp
qed

lemma pieces_in_file_same:
  assumes "pieces_in_file A s" "downloadedFile s' = downloadedFile s" "piece_len s' = piece_len s"
    and "\<And>i. i \<in> A \<Longrightarrow> store s' ! i = store s ! i"
  shows "pieces_in_file A s'"
  using assms by (simp add: pieces_in_file_def)

lemma pieces_in_file_write:
  assumes h: "pieces_in_file A s" and k: "piece_len s' = piece_len s" "\<And>i. i \<in> A \<Longrightarrow> store s' ! i = store s ! i"
    and w: "good (downloadedFile s') \<Longrightarrow> 0 \<le> piece_len s \<Longrightarrow> good (downloadedFile s) \<and>
      content (downloadedFile s') = overwrite (j * nat (piece_len s)) (piece_bytes (store s' ! j)) (content (downloadedFile s))"
  shows "pieces_in_file (insert j A) s'"
  unfolding pieces_in_file_def
proof (intro impI ballI)
  define pl where "pl = nat (piece_len s)"
  fix i
  assume a: "good (downloadedFile s') \<and> 0 \<le> piece_len s' \<and>
     (\<forall>i \<in> insert j A. int (length (piece_bytes (store s' ! i))) \<le> piece_len s')" and i: "i \<in> insert j A"
  have lens: "length (piece_bytes (store s' ! i)) \<le> pl" if "i \<in> insert j A" for i
    using a that by (auto simp: pl_def k(1))
  have g: "good (downloadedFile s)"
    and c: "content (downloadedFile s') = overwrite (j * pl) (piece_bytes (store s' ! j)) (content (downloadedFile s))"
    using w a k(1) by (simp_all add: pl_def)
  have "take (length (piece_bytes (store s' ! i))) (drop (i * pl) (content (downloadedFile s'))) = piece_bytes (store s' ! i)"
  proof (cases "i = j")
    case True
    then show ?thesis using overwrite_here[of "piece_bytes (store s' ! j)"]
      by (cases "piece_bytes (store s' ! j) = []") (simp_all add: c)
  next
    case ne: False
    then have ih: "i \<in> A" using i by simp
    let ?b = "piece_bytes (store s ! i)"
    have sl: "take (length ?b) (drop (i * pl) (content (downloadedFile s))) = ?b"
      using h ih g a k by (auto simp: pieces_in_file_def pl_def)
    show ?thesis
    proof (cases "?b = []")
      case nonempty: False
      have "length ?b \<le> length (content (downloadedFile s)) - i * pl"
        using arg_cong[OF sl, of length] by simp
      then have "i * pl + length ?b \<le> length (content (downloadedFile s))" using nonempty by (cases ?b) auto
      moreover have "i * pl + length ?b \<le> j * pl \<or> j * pl + length (piece_bytes (store s' ! j)) \<le> i * pl"
        using pieces_disjoint[OF ne, of "length ?b" pl] lens[OF i] lens[of j] k(2)[OF ih] by simp
      ultimately show ?thesis using sl by (simp add: c k(2)[OF ih] overwrite_elsewhere)
    qed (simp add: k(2)[OF ih])
  qed
  then show "take (length (piece_bytes (store s' ! i))) (drop (i * nat (piece_len s')) (content (downloadedFile s')))
      = piece_bytes (store s' ! i)" by (simp add: k(1) pl_def)
qed

lemma had_in_file_progress:
  assumes pr: "progress s s'" and h: "had_in_file s"
  shows "had_in_file s'"
proof (cases "havePieces s' = havePieces s \<and> downloadedFile s' = downloadedFile s")
  case True
  with pr h pieces_in_file_same[of "set (havePieces s)" s s'] show ?thesis by (auto simp: progress_def had_in_file_def)
next
  case False
  then obtain j where j: "havePieces s' = havePieces s @ [j]"
    "downloadedFile s' = seek_write (int j * piece_len s) (piece_bytes (store s' ! j)) (downloadedFile s)"
    using pr by (auto simp: progress_def)
  have w: "good (downloadedFile s) \<and>
      content (downloadedFile s') = overwrite (j * nat (piece_len s)) (piece_bytes (store s' ! j)) (content (downloadedFile s))"
    if "good (downloadedFile s')" "0 \<le> piece_len s"
  proof -
    have "good (downloadedFile s)" using that(1) unfolding j(2) by (rule good_seek_write)
    moreover have "\<not> int j * piece_len s < 0" using that(2) by (simp add: not_less)
    ultimately show ?thesis using that(2) by (simp add: j(2) seek_write_eq nat_mult_distrib)
  qed
  have "pieces_in_file (insert j (set (havePieces s))) s'"
    by (rule pieces_in_file_write[of _ s, OF _ _ _ w]) (use pr h in \<open>simp_all add: progress_def had_in_file_def\<close>)
  with j(1) show ?thesis by (simp add: had_in_file_def)
qed

text \<open>Everything that holds in every state a run reaches.\<close>

definition pm_inv :: "pmanager \<Rightarrow> pmanager \<Rightarrow> bool" where
  "pm_inv s0 s \<longleftrightarrow> pm_wf s \<and> had_in_file s \<and> map layout (store s) = map layout (store s0)
     \<and> totalPieces s = totalPieces s0 \<and> piece_len s = piece_len s0"

lemma pm_inv_step: "pm_inv s0 s \<Longrightarrow> pm_step ev s s' \<Longrightarrow> pm_inv s0 s'"
  using pm_step_progress[of ev s s'] pm_step_wf[of ev s s'] had_in_file_progress[of s s']
  by (auto simp: pm_inv_def progress_def)

interpretation pmr: invariant_system "\<lambda>s. s = s0 \<and> (\<exists>t. pm_start t s0)" "\<lambda>s s'. \<exists>ev. pm_step ev s s'" "pm_inv s0" for s0
proof
  show "pm_inv s0 s" if st: "s = s0 \<and> (\<exists>t. pm_start t s0)" for s
  proof -
    obtain t opened where s: "s = s0" "PieceManager opened t = Inr s0" using st by (auto simp: pm_start_def)
    moreover have "havePieces s0 = []" using s(2) by (rule PieceManager_store) simp
    ultimately show ?thesis using PieceManager_wf[OF s(2)] by (simp add: pm_inv_def had_in_file_def pieces_in_file_def)
  qed
  show "pm_inv s0 s \<Longrightarrow> \<exists>ev. pm_step ev s s' \<Longrightarrow> pm_inv s0 s'" for s s' using pm_inv_step by blast
qed

lemma pm_run_inv: "pm_start t s0 \<Longrightarrow> pm_run s0 s \<Longrightarrow> pm_inv s0 s"
  using pmr.inv_reachable[of s0 s0 s] unfolding pm_run_def by blast

end
