(* ===== verification/Download.thy ===== *)
theory Download
  imports PieceManager
begin

text \<open>
  What the piece manager guarantees over whole runs, and where it does not: the pieces
  it has are verified and in the file, the refinement of the abstract download, the
  blocks it hands out, and the runs in which the download cannot finish.
\<close>

section \<open>Runs from a torrent\<close>

lemma start_hashes: "pm_start t s \<Longrightarrow> map piece_hash (store s) = splitPieceHashes (pieces (info t))"
  unfolding pm_start_def by (elim exE PieceManager_store) (use make_pieces_wf in auto)

lemma layout_hash: "map layout xs = map layout ys \<Longrightarrow> map piece_hash xs = map piece_hash ys"
proof -
  have "map piece_hash zs = map (fst \<circ> snd) (map layout zs)" for zs by (simp add: layout_def)
  then show "map layout xs = map layout ys \<Longrightarrow> map piece_hash xs = map piece_hash ys" by metis
qed

lemma run_hashes:
  assumes "pm_start t s0" "pm_run s0 s"
  shows "map piece_hash (store s) = splitPieceHashes (pieces (info t))"
  using start_hashes[of t s0] layout_hash[of "store s" "store s0"] pm_run_inv[OF assms] assms(1)
  by (simp add: pm_inv_def)

lemma run_wf: "pm_start t s0 \<Longrightarrow> pm_run s0 s \<Longrightarrow> pm_wf s"
  using pm_run_inv by (auto simp: pm_inv_def)

lemma had_hash:
  assumes "pm_start t s0" "pm_run s0 s" "i \<in> set (havePieces s)"
  shows "is_complete (store s ! i)"
    "fips_sha1 (piece_bytes (store s ! i)) = splitPieceHashes (pieces (info t)) ! i"
proof -
  note wf = run_wf[OF assms(1,2)]
  have "i < length (store s)" using assms(3) pm_wfD(1,3)[OF wf] by (auto simp: lists_wf_def)
  then have "piece_hash (store s ! i) = splitPieceHashes (pieces (info t)) ! i"
    by (simp flip: run_hashes[OF assms(1,2)])
  with pm_wfD(5)[OF wf assms(3)] show "is_complete (store s ! i)"
    "fips_sha1 (piece_bytes (store s ! i)) = splitPieceHashes (pieces (info t)) ! i"
    by (simp_all add: verified_iff)
qed

text \<open>
  C1. In every state a sequence of handler calls reaches, every piece is in exactly one
  of the three lists, and every piece in \<open>havePieces\<close> is complete with data whose SHA-1
  is the hash the torrent gives for it.
\<close>

theorem pieces_partitioned_and_verified:
  assumes "pm_start t s0" "pm_run s0 s"
  shows "distinct (missingPieces s @ ongoingPieces s @ havePieces s) \<and>
    set (missingPieces s @ ongoingPieces s @ havePieces s) = {..<totalPieces s} \<and>
    (\<forall>i \<in> set (havePieces s). is_complete (store s ! i) \<and>
       fips_sha1 (piece_bytes (store s ! i)) = splitPieceHashes (pieces (info t)) ! i)"
  using had_hash[OF assms] pm_wfD(3)[OF run_wf[OF assms]] by (simp add: lists_wf_def)

lemma complete_hashes:
  assumes "pm_start t s0" "pm_run s0 s" "isComplete s"
  shows "missingPieces s = [] \<and> ongoingPieces s = [] \<and>
    (\<forall>i < length (splitPieceHashes (pieces (info t))).
       fips_sha1 (piece_bytes (store s ! i)) = splitPieceHashes (pieces (info t)) ! i)"
proof -
  note wf = run_wf[OF assms(1,2)]
  note l = pm_wfD(3)[OF wf, unfolded lists_wf_def]
  have "length (missingPieces s @ ongoingPieces s @ havePieces s) = totalPieces s"
    using distinct_card[of "missingPieces s @ ongoingPieces s @ havePieces s"] l by (metis card_lessThan)
  then have e: "missingPieces s = []" "ongoingPieces s = []" using assms(3) by (simp_all add: isComplete_def)
  have "length (splitPieceHashes (pieces (info t))) = totalPieces s"
    using run_hashes[OF assms(1,2)] pm_wfD(1)[OF wf] by (metis length_map)
  with e l had_hash(2)[OF assms(1,2)] show ?thesis by auto
qed

text \<open>
  \<open>isComplete\<close> tells the truth: when it returns true nothing is missing or ongoing
  and every piece of the torrent has data with the torrent's hash.
\<close>

theorem complete_means_all_verified:
  assumes "pm_start t s0" "pm_run s0 s" "isComplete s"
  shows "missingPieces s = [] \<and> ongoingPieces s = [] \<and>
    (\<forall>i < length (splitPieceHashes (pieces (info t))).
       fips_sha1 (piece_bytes (store s ! i)) = splitPieceHashes (pieces (info t)) ! i)"
  by (rule complete_hashes[OF assms])

lemma good_steps:
  assumes "pm_run s0 s" "pm_wf s0" "0 \<le> piece_len s0" "good (downloadedFile s0)"
  shows "good (downloadedFile s)"
proof -
  have "0 \<le> piece_len s0 \<and> good (downloadedFile s0) \<longrightarrow> piece_len s = piece_len s0 \<and> good (downloadedFile s)"
    using assms(1) unfolding pm_run_def
  proof (rule pmi.monotone_steps)
    fix u u' assume wf: "pm_wf u" and st: "\<exists>ev. pm_step ev u u'"
    then have "progress u u'" using pm_step_progress by blast
    then show "0 \<le> piece_len u \<and> good (downloadedFile u) \<longrightarrow> piece_len u' = piece_len u \<and> good (downloadedFile u')"
      by (auto simp: progress_def seek_write_eq not_less)
  qed (use assms in auto)
  with assms show ?thesis by simp
qed

text \<open>
  C6. The file, after any handler calls one at a time: if it could be opened, the total size is positive, the piece length is not
  negative and the data of the pieces had is not longer than the piece length, then the file holds each of them at its place.
  (Torrents that the program reads itself have no positive total size: \<open>nothing_is_written\<close>.)
\<close>

theorem file_holds_pieces:
  assumes "PieceManager True t = Inr s0" "pm_run s0 s"
    and "getTotalFileSize t = Inr tot" "0 < tot" "0 \<le> piece_len s"
    and "\<forall>i \<in> set (havePieces s). int (length (piece_bytes (store s ! i))) \<le> piece_len s"
    and "i \<in> set (havePieces s)"
  shows "take (length (piece_bytes (store s ! i)))
      (drop (i * nat (piece_len s)) (content (downloadedFile s))) = piece_bytes (store s ! i)"
proof -
  have st: "pm_start t s0" using assms(1) by (rule pm_startI)
  have inv: "pm_inv s0 s" using pm_run_inv[OF st assms(2)] .
  have "good (downloadedFile s0)"
    using assms(1) by (rule PieceManager_store) (use assms(3,4) in \<open>simp add: seek_write_eq\<close>)
  then have "good (downloadedFile s)"
    using good_steps[OF assms(2)] assms(5) pm_start_wf[OF st] inv by (auto simp: pm_inv_def)
  with inv assms(5-7) show ?thesis by (auto simp: pm_inv_def had_in_file_def pieces_in_file_def)
qed

text \<open>
  Refinement: the piece manager implements the abstract download, in which a piece
  goes from missing to ongoing to had and never back.
\<close>

theorem manager_refines_download:
  assumes "pm_start t s0" "pm_run s0 s"
  shows "dl_step\<^sup>*\<^sup>* (download_of s0) (download_of s)"
proof -
  have "pm_wf s0" using assms(1) by (rule pm_start_wf)
  with assms(2) show ?thesis unfolding pm_run_def by (rule pms.sim_steps)
qed

section \<open>The blocks handed out\<close>

text \<open>
  C10. A block that \<open>nextRequest\<close> returns belongs to an ongoing piece the peer has, is
  pending afterwards, and was missing before, unless its request is re-issued after
  ten seconds.
\<close>

theorem nextRequest_sound:
  assumes "pm_start t s0" "pm_run s0 s" "nextRequest p now s = Inr (Some b, s')"
  shows "(\<exists>bf. map_get (peers s) p = Some bf \<and> hasPiece bf (fst b) = Inr True) \<and>
    fst b \<in> set (ongoingPieces s') \<and> blk_status (block_at s' b) = pending \<and>
    (blk_status (block_at s b) = missing \<or>
     (\<exists>r \<in> set (pendingRequests s). req_block r = b \<and> 10 \<le> now - timestamp r))"
  using nextRequest_block[OF run_wf[OF assms(1,2)] assms(3)] by (auto simp: max_pending_time_def)

section \<open>A small torrent\<close>

text \<open>One file of three bytes, one piece; a peer that has it, one request, one answer.\<close>

definition ex_torrent :: torrent_file where
  "ex_torrent = \<lparr>announce = [], announceList = [], createdBy = None, creationDate = None,
     info = \<lparr>files = [\<lparr>length_of = Some 3, path = [''a'']\<rparr>], info_name = ''a'',
             pieceLength = Some 16384, pieces = fips_sha1 ''abc''\<rparr>\<rparr>"

definition ex_block :: "block_status \<Rightarrow> bytes \<Rightarrow> piece" where
  "ex_block st d = \<lparr>piece_index = 0, piece_hash = fips_sha1 ''abc'',
     piece_blocks = [\<lparr>blk_piece = 0, blk_offset = 0, blk_length = 3, blk_status = st, blk_data = d\<rparr>]\<rparr>"

definition ex_state :: "nat list \<Rightarrow> nat list \<Rightarrow> nat list \<Rightarrow> piece \<Rightarrow> bytes \<Rightarrow> nat \<Rightarrow> (string, bytes) smap \<Rightarrow> pmanager" where
  "ex_state ms os hs p c n ps = \<lparr>peers = ps, store = [p], missingPieces = ms,
     ongoingPieces = os, havePieces = hs, pendingRequests = [],
     downloadedFile = \<lparr>content = c, good = True, put_pos = 3\<rparr>, piece_len = 16384, totalPieces = 1,
     piecesDownloadedInInterval = n\<rparr>"

abbreviation zeros3 :: bytes where "zeros3 \<equiv> replicate 3 (char_of (0::nat))"
abbreviation ex_peers :: "(string, bytes) smap" where "ex_peers \<equiv> [(''P'', [CHR 0x80])]"

definition "ex0 = ex_state [0] [] [] (ex_block missing []) zeros3 0 []"
definition "ex1 = ex_state [0] [] [] (ex_block missing []) zeros3 0 ex_peers"
definition "ex2 = ex_state [] [0] [] (ex_block pending []) zeros3 0 ex_peers"
definition "ex3 = ex_state [] [] [0] (ex_block retrieved ''abc'') ''abc'' 1 ex_peers"

lemmas ex_defs = ex0_def ex1_def ex2_def ex3_def ex_state_def ex_block_def

lemma length_fips_sha1 [simp]: "length (fips_sha1 m) = 20"
proof -
  have "length (concat (map be32 (regs_list r))) = 20" for r by (cases r) simp
  then show ?thesis by (simp add: fips_sha1_def)
qed

lemma splitPieceHashes_20: "length h = 20 \<Longrightarrow> splitPieceHashes (h @ hs) = h # splitPieceHashes hs"
  by (subst splitPieceHashes.simps) auto

lemma splitPieceHashes_Nil [simp]: "splitPieceHashes [] = []"
  by (simp add: splitPieceHashes.simps)

lemma ex_constructed: "PieceManager True ex_torrent = Inr ex0"
proof -
  have "splitPieceHashes (fips_sha1 ''abc'') = [fips_sha1 ''abc'']"
    using splitPieceHashes_20[of "fips_sha1 ''abc''" "[]"] by simp
  then show ?thesis
    by (simp add: PieceManager_def ex_torrent_def initiatePieces_def getTotalFileSize_def
        block_params_def make_blocks_def ceil_int_def int_max_def block_size_def seek_write_eq overwrite_def signed_modulo_int_def signed_divide_int_def
        ex_defs numeral_3_eq_3 numeral_2_eq_2)
qed

lemma ex_start: "pm_start ex_torrent ex0"
  by (rule pm_startI[OF ex_constructed])

lemma ex_add: "addPeer ''P'' [CHR 0x80] ex0 = ex1"
  by (simp add: addPeer_def ex_defs)

lemma ex_next: "nextRequest ''P'' 0 ex1 = Inr (Some (0, 0), ex2)"
  by (simp add: nextRequest_def nextOngoing_def request_rarest_def getRarestPiece_def next_request_def
      INT16_MAX_def map_get_def hasPiece_def drop_bit_eq_div ex_defs)

lemma ex_received: "blockReceived 0 0 ''abc'' ex2 = (ex3, Inr ())"
  by (simp add: blockReceived_def br_find_def br_store_def block_received_def is_complete_def
      is_hash_matching_def piece_data_def hexDecode_sha1 br_write_def br_commit_def seek_write_eq
      overwrite_def ex_defs Let_def)

lemma ex_run: "pm_run ex0 ex1" "pm_run ex0 ex2" "pm_run ex0 ex3"
proof -
  have s: "pm_step (AddPeer ''P'' [CHR 0x80]) ex0 ex1" "pm_step (NextRequest ''P'' 0) ex1 ex2"
    "pm_step (BlockReceived 0 0 ''abc'') ex2 ex3"
    using pm_step.add[of "''P''" "[CHR 0x80]" ex0] pm_step.request[OF ex_next]
      pm_step.received[OF ex_received] by (simp_all add: ex_add)
  show 1: "pm_run ex0 ex1" using pm_run_step[OF pm_run_refl s(1)] .
  show 2: "pm_run ex0 ex2" using pm_run_step[OF 1 s(2)] .
  show "pm_run ex0 ex3" using pm_run_step[OF 2 s(3)] .
qed


lemma pieces_partitioned_and_verified_witness:
  "havePieces ex3 = [0] \<and> is_complete (store ex3 ! 0) \<and>
   fips_sha1 (piece_bytes (store ex3 ! 0)) = splitPieceHashes (pieces (info ex_torrent)) ! 0"
proof -
  have "havePieces ex3 = [0]" by (simp add: ex_defs)
  with pieces_partitioned_and_verified[OF ex_start ex_run(3)] show ?thesis by simp
qed

lemma complete_means_all_verified_witness:
  "isComplete ex3 \<and> missingPieces ex3 = [] \<and> ongoingPieces ex3 = []"
proof -
  have "isComplete ex3" by (simp add: isComplete_def ex_defs)
  with complete_means_all_verified[OF ex_start ex_run(3)] show ?thesis by simp
qed

lemma file_holds_pieces_witness:
  "take (length (piece_bytes (store ex3 ! 0))) (drop (0 * nat (piece_len ex3)) (content (downloadedFile ex3)))
     = piece_bytes (store ex3 ! 0) \<and> piece_bytes (store ex3 ! 0) = ''abc''"
proof -
  have tot: "getTotalFileSize ex_torrent = Inr 3" by (simp add: getTotalFileSize_def ex_torrent_def)
  have b: "piece_bytes (store ex3 ! 0) = ''abc''" by (simp add: piece_bytes_def ex_defs)
  have "0 \<le> piece_len ex3" "havePieces ex3 = [0]" "piece_len ex3 = 16384" by (simp_all add: ex_defs)
  with file_holds_pieces[OF ex_constructed ex_run(3) tot, of 0] b show ?thesis by simp
qed

lemma manager_refines_download_witness: "dl_step\<^sup>*\<^sup>* (download_of ex0) (download_of ex3)"
  by (rule manager_refines_download[OF ex_start ex_run(3)])

lemma nextRequest_sound_witness:
  "nextRequest ''P'' 0 ex1 = Inr (Some (0, 0), ex2) \<and> 0 \<in> set (ongoingPieces ex2) \<and>
   blk_status (block_at ex2 (0, 0)) = pending"
  using nextRequest_sound[OF ex_start ex_run(1) ex_next] ex_next by simp

section \<open>Runs that cannot finish\<close>

lemma missing_step: "pm_step ev s s' \<Longrightarrow> missingPieces s = [] \<Longrightarrow> missingPieces s' = []"
proof (induction rule: pm_step.induct)
  case (received i off d s s' r)
  then show ?case
    by (auto simp: blockReceived_def br_find_def br_store_def br_commit_def br_write_def Let_def
        split: option.splits sum.splits bool.splits if_splits)
qed (auto simp: addPeer_def updatePeer_def removePeer_def nextRequest_def rbind_Inr_iff
      split: option.splits if_splits)

text \<open>
  C27. Once the last missing piece has been started no block is ever requested again:
  whatever the state of the ongoing pieces, in every later state \<open>nextRequest\<close> returns
  \<open>nullptr\<close> to every peer.
\<close>

theorem no_request_after_last_start:
  assumes "missingPieces s = []" "pm_run s s'"
  shows "nextRequest p now s' = Inr (None, s')"
proof -
  have "missingPieces s' = []"
    using assms(2) unfolding pm_run_def
    by (induction rule: rtranclp_induct) (auto simp: assms(1) intro: missing_step)
  then show ?thesis by (simp add: nextRequest_def)
qed

text \<open>
  \<open>untracked\<close>: a block that is pending without an entry in \<open>pendingRequests\<close>, as the first
  block of a piece is when \<open>getRarestPiece\<close> starts it.
\<close>

definition untracked :: "block_ptr \<Rightarrow> pmanager \<Rightarrow> bool" where
  "untracked b s \<longleftrightarrow> fst b \<in> set (ongoingPieces s) \<and> snd b < length (piece_blocks (store s ! fst b)) \<and>
     blk_status (piece_blocks (store s ! fst b) ! snd b) = pending \<and> b \<notin> req_block ` set (pendingRequests s)"

lemma untracked_request:
  assumes wf: "pm_wf s" and u: "untracked b s" and n: "nextRequest p now s = Inr (x, s')"
  shows "untracked b s'" "x \<noteq> Some b"
proof -
  have "untracked b s' \<and> x \<noteq> Some b"
    using n
  proof (cases rule: nextRequest_cases)
    case (2 bf b' rs)
    from expired_loop_Some[OF 2(3)] have rs: "map req_block rs = map req_block (pendingRequests s)"
      "b' \<in> req_block ` set (pendingRequests s)" by auto
    then have "req_block ` set rs = req_block ` set (pendingRequests s)" by (metis list.set_map)
    with u rs 2 show ?thesis by (auto simp: untracked_def)
  next
    case (3 bf b')
    note o = nextOngoing_Some[OF wf 3(4)]
    have ne: "b' \<noteq> b" using o(5) u by (auto simp: untracked_def block_at_def piece_at_def)
    have "fst b < length (store s)" using u pm_wf_ongoing[OF wf] pm_wfD(1)[OF wf] by (simp add: untracked_def)
    with ne u 3(5) show ?thesis
      by (cases "fst b' = fst b")
        (auto simp: o(6) untracked_def block_at_def piece_at_def nth_list_update prod_eq_iff)
  next
    case (4 bf)
    from request_rarest_Inr[OF wf 4(5)] obtain i where i: "i \<in> set (missingPieces s)"
      "case x of None \<Rightarrow> s' = start_piece i s \<and> piece_blocks (store s ! i) = []
       | Some b \<Rightarrow> \<exists>p. b = (i, 0) \<and> next_request (store s ! i) = Some (0, p)
         \<and> s' = (start_piece i s)\<lparr>store := (store s)[i := p]\<rparr>"
      by (auto simp: candidates_def)
    then have "i \<noteq> fst b" using u pm_wfD(3)[OF wf] by (auto simp: untracked_def lists_wf_def)
    with i u show ?thesis by (cases x) (auto simp: untracked_def start_piece_def)
  qed (use u in auto)
  then show "untracked b s'" "x \<noteq> Some b" by auto
qed

lemma untracked_received:
  assumes wf: "pm_wf s" and u: "untracked b s" and r: "blockReceived i off d s = (s', r)"
    and ne: "i \<noteq> fst b \<or> off \<noteq> snd b * 16384"
  shows "untracked b s'"
proof -
  define k where "k = off div 16384"
  define p where "p = put_block k d (store s ! i)"
  define rs where "rs = without_request (i, k) (pendingRequests s)"
  note c = blockReceived_cases[OF wf, of i off d, folded k_def, folded p_def rs_def, unfolded r]
  have rs: "b \<notin> req_block ` set rs" using u by (auto simp: rs_def without_request_def untracked_def)
  have il: "fst b < length (store s)" using u pm_wf_ongoing[OF wf] pm_wfD(1)[OF wf] by (simp add: untracked_def)
  show ?thesis
  proof (cases "i = fst b")
    case False
    then show ?thesis using c u rs by (auto simp: untracked_def br_commit_def br_write_def split: if_splits)
  next
    case True
    show ?thesis
    proof (cases "off mod 16384 = 0")
      case off: True
      then have "off = k * 16384" unfolding k_def by (metis add.right_neutral div_mult_mod_eq)
      then have kn: "k \<noteq> snd b" using ne True by auto
      have b: "snd b < length (piece_blocks p)" "blk_status (piece_blocks p ! snd b) = pending"
        using u True kn by (auto simp: p_def put_block_def untracked_def)
      then have "\<not> is_complete p" by (auto simp: is_complete_def list_all_length)
      with c u rs b il True show ?thesis by (auto simp: untracked_def split: if_splits)
    qed (use c u in \<open>auto split: if_splits\<close>)
  qed
qed

lemma peers_only:
  "\<exists>m. addPeer p bf s = s\<lparr>peers := m\<rparr>"
  "updatePeer p i s = Inr s' \<Longrightarrow> \<exists>m. s' = s\<lparr>peers := m\<rparr>"
  "removePeer p s = Inr s' \<Longrightarrow> \<exists>m. s' = s\<lparr>peers := m\<rparr>"
proof -
  have "\<exists>m. u = u\<lparr>peers := m\<rparr>" for u :: pmanager by (rule exI[of _ "peers u"]) simp
  then show "removePeer p s = Inr s' \<Longrightarrow> \<exists>m. s' = s\<lparr>peers := m\<rparr>"
    by (cases "isComplete s") (auto simp: removePeer_def split: option.splits)
qed (auto simp: addPeer_def updatePeer_def rbind_Inr_iff split: option.splits)

lemma untracked_peers: "untracked b (s\<lparr>peers := m\<rparr>) = untracked b s"
  by (simp add: untracked_def)

lemma untracked_step:
  assumes "pm_step ev s s'" "pm_wf s" "untracked b s" "\<forall>d. ev \<noteq> BlockReceived (fst b) (snd b * 16384) d"
  shows "untracked b s'"
  using assms(1)
proof (cases rule: pm_step.cases)
  case (received i off d r)
  then show ?thesis using untracked_received[OF assms(2,3), of i off d s' r] assms(4) by auto
next
  case (request p now x)
  then show ?thesis using untracked_request(1)[OF assms(2,3)] by blast
next
  case (add p bf)
  then show ?thesis using peers_only(1)[of p bf s] assms(3) by (auto simp: untracked_peers)
next
  case (update p i)
  then show ?thesis using peers_only(2)[of p i s s'] assms(3) by (auto simp: untracked_peers)
next
  case (remove p)
  then show ?thesis using peers_only(3)[of p s s'] assms(3) by (auto simp: untracked_peers)
qed (use assms(3) in simp_all)

text \<open>
  C28. The first block of every piece is requested once only: as long as the block itself
  does not arrive, no request for it times out and is re-issued, and its piece is never
  had.
\<close>

theorem first_block_never_reissued:
  assumes "pm_start t s0" "pm_run s0 s"
    and "nextRequest p now s = Inr (Some b, s1)" "fst b \<in> set (missingPieces s)"
    and "(\<lambda>u u'. \<exists>ev. (\<forall>d. ev \<noteq> BlockReceived (fst b) (snd b * 16384) d) \<and> pm_step ev u u')\<^sup>*\<^sup>* s1 s2"
  shows "fst b \<notin> set (havePieces s2) \<and> (\<forall>p' now' s3. nextRequest p' now' s2 \<noteq> Inr (Some b, s3))"
proof -
  note wf = run_wf[OF assms(1,2)]
  have no: "fst b \<notin> set (ongoingPieces s)" using assms(4) pm_wfD(3)[OF wf] by (auto simp: lists_wf_def)
  have req: "b \<notin> req_block ` set (pendingRequests s)"
    using no requests_wfD(1)[OF pm_wfD(6)[OF wf]] by auto
  have u1: "untracked b s1"
    using assms(3)
  proof (cases rule: nextRequest_cases)
    case (2 bf b' rs)
    with expired_loop_Some[OF 2(3)] req show ?thesis by auto
  next
    case (3 bf b')
    with nextOngoing_Some(2)[OF wf 3(4)] no show ?thesis by auto
  next
    case (4 bf)
    from nextRequest_block[OF wf assms(3)] have nb: "fst b \<in> set (ongoingPieces s1)"
      "snd b < length (piece_blocks (store s1 ! fst b))" "blk_status (block_at s1 b) = pending" by auto
    from request_rarest_Inr[OF wf 4(5)] have "pendingRequests s1 = pendingRequests s"
      by (auto simp: start_piece_def)
    with nb req show ?thesis by (simp add: untracked_def block_at_def piece_at_def)
  qed simp
  have wf1: "pm_wf s1" using nextRequest_wf[OF assms(3) wf] .
  have "untracked b s2 \<and> pm_wf s2"
    using assms(5) by (induction rule: rtranclp_induct) (auto simp: u1 wf1 intro: untracked_step pm_step_wf)
  then have u: "untracked b s2" "pm_wf s2" by auto
  then have "fst b \<notin> set (havePieces s2)" using pm_wfD(3)[OF u(2)] by (auto simp: untracked_def lists_wf_def)
  with untracked_request(2)[OF u(2,1)] show ?thesis by blast
qed


section \<open>The choice of a new piece\<close>

lemma expired_loop_None:
  assumes "\<forall>r \<in> set rs. \<exists>h. hasPiece bf (fst (req_block r)) = Inr h \<and> (h \<longrightarrow> now - timestamp r < 10)"
  shows "expired_loop bf now rs = Inr None"
  using assms by (induction rs) (auto simp: max_pending_time_def)

lemma ongoing_loop_None:
  assumes "\<forall>i \<in> set is. \<exists>h. hasPiece bf i = Inr h \<and>
     (h \<longrightarrow> (\<forall>b \<in> set (piece_blocks (ps ! i)). blk_status b \<noteq> missing))"
  shows "ongoing_loop bf ps is = Inr None"
  using assms
proof (induction "is")
  case (Cons i "is")
  then obtain h where h: "hasPiece bf i = Inr h"
    "h \<Longrightarrow> \<forall>b \<in> set (piece_blocks (ps ! i)). blk_status b \<noteq> missing" by auto
  then have "(if h then next_request (ps ! i) else None) = None"
    by (simp add: next_request_def next_block_None)
  with Cons h(1) show ?case by simp
qed simp

text \<open>
  When nothing can be re-issued or continued, \<open>nextRequest\<close> starts the missing piece of
  lowest index that the peer has, however many other peers have it; if the peer has
  none of the missing pieces, it dereferences an uninitialised pointer.
\<close>

theorem nextRequest_new_piece:
  assumes "pm_start t s0" "pm_run s0 s" "missingPieces s \<noteq> []"
    and "map_get (peers s) p = Some bf" "totalPieces s \<le> 8 * length bf"
    and "\<forall>r \<in> set (pendingRequests s). hasPiece bf (fst (req_block r)) = Inr True \<longrightarrow> now - timestamp r < 10"
    and "\<forall>i \<in> set (ongoingPieces s). hasPiece bf i = Inr True \<longrightarrow>
           (\<forall>b \<in> set (piece_blocks (store s ! i)). blk_status b \<noteq> missing)"
  shows "if candidates bf s = {} then nextRequest p now s = Inl (Undefined UninitPointer)
    else \<exists>s'. nextRequest p now s
           = Inr (if piece_blocks (store s ! Min (candidates bf s)) = [] then None
                  else Some (Min (candidates bf s), 0), s')"
proof -
  note wf = run_wf[OF assms(1,2)]
  note l = pm_wfD(3)[OF wf, unfolded lists_wf_def]
  have ok: "\<exists>h. hasPiece bf i = Inr h" if "i < totalPieces s" for i
    using bf.has_ok[of i bf] assms(5) that by (auto simp: is_ok_iff)
  have req: "fst (req_block r) < totalPieces s" if "r \<in> set (pendingRequests s)" for r
    using requests_wfD(1)[OF pm_wfD(6)[OF wf] that] pm_wf_ongoing[OF wf] by blast
  have e: "expired_loop bf now (pendingRequests s) = Inr None"
  proof (rule expired_loop_None, rule ballI)
    fix r assume r: "r \<in> set (pendingRequests s)"
    obtain h where "hasPiece bf (fst (req_block r)) = Inr h" using ok[OF req[OF r]] by blast
    with assms(6) r show "\<exists>h. hasPiece bf (fst (req_block r)) = Inr h \<and> (h \<longrightarrow> now - timestamp r < 10)"
      by (cases h) auto
  qed
  have o: "nextOngoing bf now s = Inr None"
  proof -
    have "ongoing_loop bf (store s) (ongoingPieces s) = Inr None"
    proof (rule ongoing_loop_None, rule ballI)
      fix i assume i: "i \<in> set (ongoingPieces s)"
      obtain h where "hasPiece bf i = Inr h" using ok[OF pm_wf_ongoing[OF wf i]] by blast
      with assms(7) i show "\<exists>h. hasPiece bf i = Inr h \<and>
          (h \<longrightarrow> (\<forall>b \<in> set (piece_blocks (store s ! i)). blk_status b \<noteq> missing))"
        by (cases h) auto
    qed
    then show ?thesis by (simp add: nextOngoing_def)
  qed
  have n: "nextRequest p now s = request_rarest bf s"
    using assms(3,4) e o by (simp add: nextRequest_def)
  have g: "getRarestPiece bf s =
    (if candidates bf s = {} then Inl (Undefined UninitPointer)
     else Inr (Min (candidates bf s), start_piece (Min (candidates bf s)) s))"
    unfolding start_piece_def
  proof (rule getRarestPiece_cases)
    show "\<forall>i \<in> set (missingPieces s). is_ok (hasPiece bf i)"
    proof
      fix i assume "i \<in> set (missingPieces s)"
      then have "i < totalPieces s" using l by auto
      then show "is_ok (hasPiece bf i)" using ok by (simp add: is_ok_iff)
    qed
  qed (use l in simp)
  show ?thesis
  proof (cases "candidates bf s = {}")
    case True
    then show ?thesis by (simp add: n request_rarest_def g)
  next
    case False
    define i where "i = Min (candidates bf s)"
    have "i \<in> candidates bf s" unfolding i_def using False by (intro Min_in) (simp_all add: candidates_def)
    then have "\<forall>b \<in> set (piece_blocks (store s ! i)). blk_status b = missing"
      using pm_wfD(4)[OF wf] by (auto simp: candidates_def)
    then have "next_request (store s ! i) = None \<and> piece_blocks (store s ! i) = [] \<or>
        (\<exists>q. next_request (store s ! i) = Some (0, q)) \<and> piece_blocks (store s ! i) \<noteq> []"
      by (cases "piece_blocks (store s ! i)") (auto simp: next_request_def)
    then have "\<exists>s'. request_rarest bf s = Inr (if piece_blocks (store s ! i) = [] then None else Some (i, 0), s')"
      using False by (auto simp: request_rarest_def g[folded i_def] start_piece_def)
    with False show ?thesis unfolding n i_def by (simp only: if_False)
  qed
qed

text \<open>
  The same with a piece of two blocks, and with a peer that has nothing.
\<close>

definition ex2_torrent :: torrent_file where
  "ex2_torrent = \<lparr>announce = [], announceList = [], createdBy = None, creationDate = None,
     info = \<lparr>files = [\<lparr>length_of = Some 40000, path = [''a'']\<rparr>], info_name = ''a'',
             pieceLength = Some 65536, pieces = fips_sha1 ''abc''\<rparr>\<rparr>"

definition ex2_state :: "nat list \<Rightarrow> nat list \<Rightarrow> block_status \<Rightarrow> (string, bytes) smap \<Rightarrow> pmanager" where
  "ex2_state ms os st ps = \<lparr>peers = ps,
     store = [\<lparr>piece_index = 0, piece_hash = fips_sha1 ''abc'', piece_blocks =
       [\<lparr>blk_piece = 0, blk_offset = 0, blk_length = 16384, blk_status = st, blk_data = []\<rparr>,
        \<lparr>blk_piece = 0, blk_offset = 16384, blk_length = 7232, blk_status = missing, blk_data = []\<rparr>]\<rparr>],
     missingPieces = ms, ongoingPieces = os, havePieces = [], pendingRequests = [],
     downloadedFile = seek_write 39999 [char_of (0::nat)] \<lparr>content = [], good = True, put_pos = 0\<rparr>,
     piece_len = 65536, totalPieces = 1, piecesDownloadedInInterval = 0\<rparr>"

lemma ex2_constructed: "PieceManager True ex2_torrent = Inr (ex2_state [0] [] missing [])"
proof -
  have "splitPieceHashes (fips_sha1 ''abc'') = [fips_sha1 ''abc'']"
    using splitPieceHashes_20[of "fips_sha1 ''abc''" "[]"] by simp
  then show ?thesis
    by (simp add: PieceManager_def ex2_torrent_def initiatePieces_def getTotalFileSize_def
        block_params_def make_blocks_def ceil_int_def int_max_def block_size_def signed_modulo_int_def signed_divide_int_def
        ex2_state_def numeral_2_eq_2)
qed

lemma ex2_start: "pm_start ex2_torrent (ex2_state [0] [] missing [])"
  by (rule pm_startI[OF ex2_constructed])

lemma ex2_run: "pm_run (ex2_state [0] [] missing []) (ex2_state [] [0] pending ex_peers)"
proof -
  have "pm_step (AddPeer ''P'' [CHR 0x80]) (ex2_state [0] [] missing []) (ex2_state [0] [] missing ex_peers)"
    using pm_step.add[of "''P''" "[CHR 0x80]" "ex2_state [0] [] missing []"]
    by (simp add: addPeer_def ex2_state_def)
  moreover have "nextRequest ''P'' 0 (ex2_state [0] [] missing ex_peers)
      = Inr (Some (0, 0), ex2_state [] [0] pending ex_peers)"
    by (simp add: nextRequest_def nextOngoing_def request_rarest_def getRarestPiece_def next_request_def
        INT16_MAX_def map_get_def hasPiece_def drop_bit_eq_div ex2_state_def)
  ultimately show ?thesis using pm_step.request pm_run_step pm_run_refl by blast
qed

lemma no_request_after_last_start_witness:
  "nextRequest ''P'' 100 (ex2_state [] [0] pending ex_peers) = Inr (None, ex2_state [] [0] pending ex_peers) \<and>
   blk_status (block_at (ex2_state [] [0] pending ex_peers) (0, 1)) = missing"
proof -
  have "missingPieces (ex2_state [] [0] pending ex_peers) = []" by (simp add: ex2_state_def)
  from no_request_after_last_start[OF this pm_run_refl, of "''P''" 100] show ?thesis
    by (simp add: block_at_def piece_at_def ex2_state_def)
qed

lemma first_block_never_reissued_witness:
  "0 \<notin> set (havePieces ex2) \<and> (\<forall>p' now' s3. nextRequest p' now' ex2 \<noteq> Inr (Some (0, 0), s3))"
proof -
  have "fst (0, 0) \<in> set (missingPieces ex1)" by (simp add: ex_defs)
  from first_block_never_reissued[OF ex_start ex_run(1) ex_next this rtranclp.rtrancl_refl]
  show ?thesis by simp
qed

text \<open>A peer whose bit field is empty.\<close>

lemma nextRequest_new_piece_witness:
  "nextRequest ''Q'' 0 (addPeer ''Q'' [CHR 0x00] ex0) = Inl (Undefined UninitPointer)"
proof -
  have r: "pm_run ex0 (addPeer ''Q'' [CHR 0x00] ex0)"
    using pm_run_step[OF pm_run_refl pm_step.add] .
  have c: "candidates [CHR 0x00] (addPeer ''Q'' [CHR 0x00] ex0) = {}"
    by (auto simp: candidates_def addPeer_def hasPiece_def Let_def ex_defs)
  have "if candidates [CHR 0x00] (addPeer ''Q'' [CHR 0x00] ex0) = {}
      then nextRequest ''Q'' 0 (addPeer ''Q'' [CHR 0x00] ex0) = Inl (Undefined UninitPointer)
      else \<exists>s'. nextRequest ''Q'' 0 (addPeer ''Q'' [CHR 0x00] ex0)
           = Inr (if piece_blocks (store (addPeer ''Q'' [CHR 0x00] ex0)
                      ! Min (candidates [CHR 0x00] (addPeer ''Q'' [CHR 0x00] ex0))) = [] then None
                  else Some (Min (candidates [CHR 0x00] (addPeer ''Q'' [CHR 0x00] ex0)), 0), s')"
    by (rule nextRequest_new_piece[OF ex_start r]) (simp_all add: addPeer_def map_get_def ex_defs)
  with c show ?thesis by simp
qed

section \<open>What the blocks cover\<close>

definition covered :: "piece \<Rightarrow> int" where
  "covered p = sum_list (map blk_length (piece_blocks p))"

lemma make_pieces_nth:
  "make_pieces pl tot i hs = Inr ps \<Longrightarrow> j < length hs \<Longrightarrow>
   \<exists>n r. block_params pl tot (Suc j = length hs) = Inr (n, r) \<and>
     make_blocks (i + j) n r (Suc j = length hs) = Inr (piece_blocks (ps ! j))"
proof (induction hs arbitrary: i j ps)
  case (Cons h hs)
  then obtain n r bs ps' where *: "block_params pl tot (hs = []) = Inr (n, r)"
      "make_blocks i n r (hs = []) = Inr bs" "make_pieces pl tot (Suc i) hs = Inr ps'"
      "ps = \<lparr>piece_index = i, piece_hash = h, piece_blocks = bs\<rparr> # ps'"
    by (auto simp: rbind_Inr_iff)
  show ?case
  proof (cases j)
    case 0
    then show ?thesis using * by auto
  next
    case (Suc m)
    with Cons.IH[OF *(3), of m] Cons.prems(2) show ?thesis by (auto simp: *(4))
  qed
qed simp

lemma make_blocks_covered:
  assumes "make_blocks i n r l = Inr bs" "1 \<le> n"
  shows "sum_list (map blk_length bs) = (n - 1) * 16384 + (if l then r smod 16384 else 16384)"
proof -
  obtain m where m: "nat n = Suc m" using assms(2) by (cases "nat n") auto
  then have n: "n = int m + 1" by simp
  have "map blk_length bs = map (\<lambda>k. if l \<and> int k = n - 1 then r smod 16384 else 16384) [0..<Suc m]"
    using assms m by (auto simp: make_blocks_def block_size_def split: if_splits)
  also have "\<dots> = map (\<lambda>k. 16384) [0..<m] @ [if l then r smod 16384 else 16384]"
    by (simp add: n)
  finally have "sum_list (map blk_length bs) = sum_list (map (\<lambda>k. 16384) [0..<m]) + (if l then r smod 16384 else 16384)"
    by simp
  then show ?thesis by (simp add: n sum_list_triv)
qed

lemma sdiv_smod_nonneg: "0 \<le> a \<Longrightarrow> 0 < b \<Longrightarrow> a sdiv b = a div b \<and> a smod b = a mod (b :: int)"
  by (cases "a = 0") (simp_all add: signed_divide_int_def signed_modulo_int_def)

text \<open>
  C30. The bytes the blocks of a piece cover. For a piece that is not the last one they
  are the whole 16 KiB blocks of the piece length. For the last piece the remainder of
  the total size is covered when it is below 16 KiB and positive; a remainder of 16 KiB
  or more is covered short of 16 KiB, and when the size is a multiple of the piece
  length nothing of the last piece is covered.
\<close>

theorem covered_bytes:
  assumes "PieceManager opened t = Inr s" "getTotalFileSize t = Inr tot" "0 < piece_len s" "0 \<le> tot"
    and "i < totalPieces s"
  shows "covered (store s ! i) =
    (if Suc i < totalPieces s then piece_len s - piece_len s mod 16384
     else if tot mod piece_len s < 16384 then tot mod piece_len s
     else tot mod piece_len s - 16384)"
  using assms(1)
proof (rule PieceManager_store)
  fix pl tot' ps
  assume mk: "make_pieces (sint pl) tot' 0 (splitPieceHashes (pieces (info t))) = Inr ps"
    and t: "getTotalFileSize t = Inr tot'"
    and s: "s = \<lparr>peers = [], store = ps, missingPieces = [0..<length ps], ongoingPieces = [],
          havePieces = [], pendingRequests = [],
          downloadedFile = seek_write (tot' - 1) [char_of (0::nat)] \<lparr>content = [], good = opened, put_pos = 0\<rparr>,
          piece_len = sint pl, totalPieces = length ps, piecesDownloadedInInterval = 0\<rparr>"
  define P where "P = piece_len s"
  have P: "0 < P" "sint pl = P" "tot' = tot" using assms(2,3) t by (simp_all add: P_def s)
  have len: "length ps = length (splitPieceHashes (pieces (info t)))" using make_pieces_wf[OF mk] by simp
  have "i < length (splitPieceHashes (pieces (info t)))" using assms(5) by (simp add: s len)
  from make_pieces_nth[OF mk this] obtain n r where
    bp: "block_params P tot (Suc i = length ps) = Inr (n, r)" and
    mb: "make_blocks i n r (Suc i = length ps) = Inr (piece_blocks (ps ! i))"
    by (auto simp: P len)
  have st: "store s ! i = ps ! i" "totalPieces s = length ps" by (simp_all add: s)
  show ?thesis
  proof (cases "Suc i = length ps")
    case True
    define m where "m = tot mod P"
    have m: "0 \<le> m" using P(1) by (simp add: m_def)
    have sd: "tot smod P = m" "m sdiv 16384 = m div 16384" "m smod 16384 = m mod 16384"
      using sdiv_smod_nonneg[OF assms(4) P(1)] sdiv_smod_nonneg[OF m, of 16384] by (simp_all add: m_def)
    have nr: "n = max (m div 16384) 1" "r = m"
      using bp True P(1) unfolding block_params_def Let_def block_size_def sd by (auto simp: ceil_int_def split: if_splits)
    have "covered (ps ! i) = (n - 1) * 16384 + m mod 16384"
      using make_blocks_covered[OF mb] True unfolding nr sd covered_def by simp
    moreover have "m div 16384 * 16384 + m mod 16384 = m" by (rule div_mult_mod_eq)
    moreover have "16384 \<le> m \<Longrightarrow> 1 \<le> m div 16384" using zdiv_mono1[of 16384 m 16384] by simp
    moreover have "m < 16384 \<Longrightarrow> m div 16384 = 0" using m by simp
    ultimately have "covered (ps ! i) = (if m < 16384 then m else m - 16384)"
      unfolding nr by (cases "m < 16384") (simp_all add: left_diff_distrib)
    then show ?thesis using True by (simp add: st m_def P_def[symmetric])
  next
    case False
    have nr: "n = P div 16384" using bp False P(1) sdiv_smod_nonneg[of P 16384]
      by (auto simp: block_params_def block_size_def ceil_int_def split: if_splits)
    have "covered (ps ! i) = n * 16384"
    proof (cases "1 \<le> n")
      case True
      with make_blocks_covered[OF mb] False show ?thesis by (simp add: covered_def)
    next
      case F: False
      have "0 \<le> n" using P(1) by (simp add: nr pos_imp_zdiv_nonneg_iff)
      with F have "n = 0" by simp
      with mb have "piece_blocks (ps ! i) = []" by (simp add: make_blocks_def block_size_def)
      with \<open>n = 0\<close> show ?thesis by (simp add: covered_def)
    qed
    also have "n * 16384 = P - P mod 16384" by (simp add: nr minus_mod_eq_div_mult)
    finally show ?thesis using False assms(5) by (simp add: st P_def[symmetric])
  qed
qed

lemma covered_bytes_witness:
  "covered (store (ex2_state [0] [] missing []) ! 0) = 23616 \<and> getTotalFileSize ex2_torrent = Inr 40000"
proof -
  note s = ex2_constructed
  have tot: "getTotalFileSize ex2_torrent = Inr 40000" by (simp add: getTotalFileSize_def ex2_torrent_def)
  have v: "piece_len (ex2_state [0] [] missing []) = 65536" "totalPieces (ex2_state [0] [] missing []) = 1"
    by (simp_all add: ex2_state_def)
  from covered_bytes[OF s tot, of 0] tot show ?thesis by (simp add: v)
qed

section \<open>A \<open>Have\<close> message out of range\<close>

text \<open>
  \<open>updatePeer\<close> writes outside the peer's bit field exactly when the announced index
  is past its last bit: the index comes from the network and is not checked.
\<close>

theorem updatePeer_cases:
  "updatePeer p i s =
    (case map_get (peers s) p of
       None \<Rightarrow> Inl (RuntimeError ''Connection has not been established with peer '')
     | Some bf \<Rightarrow>
         if 8 * length bf \<le> i then Inl (Undefined OutOfBounds)
         else Inr (s\<lparr>peers := map_set p (bf[i div 8 :=
                char_of (byte_val (bf ! (i div 8)) OR push_bit (7 - i mod 8) (1::nat))]) (peers s)\<rparr>))"
  by (auto simp: updatePeer_def setPiece_def Let_def split: option.splits)

end
