(* ===== verification/Concurrent.thy ===== *)
theory Concurrent
  imports Download
begin

text \<open>
  The handlers of the piece manager with the mutex only where the source takes it. \<open>blockReceived\<close> works on its
  piece without the mutex, and \<open>removePeer\<close> asks \<open>isComplete\<close> before it takes it, so that other threads run in between.
  What the atomic handlers guarantee holds in the runs in which no two threads are in \<open>blockReceived\<close> for the same piece;
  without that a piece can be counted twice. Storing a block and checking its piece (\<open>br_check\<close>) is one step here; in
  \<open>write\<close> the calls of \<open>seekp\<close> and of \<open>write\<close> on the stream are a step each.
\<close>

section \<open>The thread in a handler\<close>

text \<open>
  \<open>Found\<close> is a thread that has found its piece and released the mutex, \<open>Verified\<close> one whose block completed the piece with
  the right hash, \<open>Sought\<close> one that has called \<open>seekp\<close> in \<open>write\<close>, \<open>Matched\<close> one that
  has written the piece and waits for the mutex to move it to \<open>havePieces\<close>, \<open>Removing\<close> one for which \<open>isComplete\<close> was
  false at the start of \<open>removePeer\<close>, and \<open>Idle\<close> one outside of these.
\<close>

datatype job = Idle | Found nat nat bytes | Verified nat | Sought nat | Matched nat | Removing string

fun held :: "job \<Rightarrow> nat option" where
  "held (Found j off d) = Some j"
| "held (Verified j) = Some j"
| "held (Sought j) = Some j"
| "held (Matched j) = Some j"
| "held Idle = None"
| "held (Removing p) = None"

text \<open>The second half of \<open>removePeer\<close>.\<close>

definition rp_erase :: "string \<Rightarrow> pmanager \<Rightarrow> pmanager res" where
  "rp_erase peerId s =
     (case map_get (peers s) peerId of
        Some _ \<Rightarrow> Inr (s\<lparr>peers := map_erase peerId (peers s)\<rparr>)
      | None \<Rightarrow> Inl (RuntimeError ''Attempting to remove a peer ''))"

lemma removePeer_halves: "removePeer p s = (if isComplete s then Inr s else rp_erase p s)"
  by (simp add: removePeer_def rp_erase_def)

text \<open>\<open>br_store\<close> in three parts: the block and the check of the piece, and the two calls of \<open>write\<close>.\<close>

definition br_check :: "nat \<Rightarrow> nat \<Rightarrow> bytes \<Rightarrow> pmanager \<Rightarrow> pmanager \<times> bool res" where
  "br_check j off d s =
     (case block_received off d (store s ! j) of
        Inl e \<Rightarrow> (s, Inl e)
      | Inr p \<Rightarrow>
          (let s1 = s\<lparr>store := (store s)[j := p]\<rparr> in
           if is_complete p then
             (case is_hash_matching p of
                Inl e \<Rightarrow> (s1, Inl e)
              | Inr True \<Rightarrow> (s1, Inr True)
              | Inr False \<Rightarrow> (s1\<lparr>store := (store s)[j := piece_reset p]\<rparr>, Inr False))
           else (s1, Inr False)))"

definition br_seek :: "nat \<Rightarrow> pmanager \<Rightarrow> pmanager" where
  "br_seek j s = s\<lparr>downloadedFile := seekp (int (piece_index (store s ! j)) * piece_len s) (downloadedFile s)\<rparr>"

definition br_put :: "bytes \<Rightarrow> pmanager \<Rightarrow> pmanager" where
  "br_put d s = s\<lparr>downloadedFile := write_here d (downloadedFile s)\<rparr>"

lemma br_write_halves: "br_write j d s = br_put d (br_seek j s)"
  by (simp add: br_write_def br_put_def br_seek_def seek_write_def)

lemma br_store_parts:
  assumes "j < length (store s)"
  shows "br_store j off d s =
    (case br_check j off d s of
       (s1, Inr True) \<Rightarrow>
         (case piece_data (store s1 ! j) of Inl e \<Rightarrow> (s1, Inl e) | Inr dat \<Rightarrow> (br_put dat (br_seek j s1), Inr True))
     | (s1, r) \<Rightarrow> (s1, r))"
  using assms by (simp add: br_store_def br_check_def Let_def br_write_halves split: sum.splits bool.splits)

fun one_section :: "pm_event \<Rightarrow> bool" where
  "one_section (AddPeer p bf) = True"
| "one_section (UpdatePeer p i) = True"
| "one_section (NextRequest p now) = True"
| "one_section (RemovePeer p) = False"
| "one_section (BlockReceived i off d) = False"

text \<open>
  The steps of one thread on the manager. An exception of \<open>removePeer\<close> is not a step of the conversation: its caller is
  the handler of the failed conversation, and it leaves the thread.
\<close>

inductive job_step :: "pmanager \<times> job \<Rightarrow> pmanager \<times> job \<Rightarrow> bool" where
  handler: "one_section ev \<Longrightarrow> pm_step ev s s' \<Longrightarrow> job_step (s, Idle) (s', Idle)"
| enter: "br_find i off s = (s', Some j) \<Longrightarrow> job_step (s, Idle) (s', Found j off d)"
| enter_fail: "br_find i off s = (s', None) \<Longrightarrow> job_step (s, Idle) (s', Idle)"
| stored: "br_check j off d s = (s', Inr False) \<Longrightarrow> job_step (s, Found j off d) (s', Idle)"
| checked: "br_check j off d s = (s', Inr True) \<Longrightarrow> job_step (s, Found j off d) (s', Verified j)"
| seek: "job_step (s, Verified j) (br_seek j s, Sought j)"
| put: "piece_data (store s ! j) = Inr d \<Longrightarrow> job_step (s, Sought j) (br_put d s, Matched j)"
| store_fail: "br_check j off d s = (s', Inl e) \<Longrightarrow> is_exception e \<Longrightarrow> job_step (s, Found j off d) (s', Idle)"
| commit: "job_step (s, Matched j) (br_commit j s, Idle)"
| check: "\<not> isComplete s \<Longrightarrow> job_step (s, Idle) (s, Removing p)"
| erase: "rp_erase p s = Inr s' \<Longrightarrow> job_step (s, Removing p) (s', Idle)"


inductive jobs_step :: "pmanager \<times> job list \<Rightarrow> pmanager \<times> job list \<Rightarrow> bool" where
  "th < length js \<Longrightarrow> job_step (s, js ! th) (s', j) \<Longrightarrow> jobs_step (s, js) (s', js[th := j])"

section \<open>The handlers with the parts of the state they do not trust\<close>

text \<open>
  While a thread is in \<open>blockReceived\<close> the requests say less than in \<open>pm_wf\<close>: a block can be requested again between the
  removal of its request and its storing. Everything else of the invariant stays.
\<close>

definition cleared :: "pmanager \<Rightarrow> pmanager" where
  "cleared s = s\<lparr>pendingRequests := []\<rparr>"

definition pm_core :: "pmanager \<Rightarrow> bool" where
  "pm_core s \<longleftrightarrow> pm_wf (cleared s)"

lemma cleared_simps [simp]:
  "store (cleared s) = store s" "missingPieces (cleared s) = missingPieces s" "ongoingPieces (cleared s) = ongoingPieces s"
  "havePieces (cleared s) = havePieces s" "pendingRequests (cleared s) = []" "peers (cleared s) = peers s"
  "totalPieces (cleared s) = totalPieces s" "piece_len (cleared s) = piece_len s" "downloadedFile (cleared s) = downloadedFile s"
  by (simp_all add: cleared_def)

lemma pm_wf_core: "pm_wf s \<Longrightarrow> pm_core s"
  by (simp add: pm_core_def cleared_def pm_wf_def lists_wf_def requests_wf_def)

lemma pm_coreD:
  assumes "pm_core s"
  shows "length (store s) = totalPieces s" "\<And>i. i < totalPieces s \<Longrightarrow> piece_wf i (store s ! i)"
    "distinct (missingPieces s @ ongoingPieces s @ havePieces s)"
    "set (missingPieces s @ ongoingPieces s @ havePieces s) = {..<totalPieces s}"
    "\<And>i. i \<in> set (havePieces s) \<Longrightarrow> verified (store s ! i)"
  using pm_wfD[OF assms[unfolded pm_core_def]] by (simp_all add: lists_wf_def)

lemma core_ongoing: "pm_core s \<Longrightarrow> i \<in> set (ongoingPieces s) \<Longrightarrow> i < totalPieces s \<and> piece_wf i (store s ! i)"
  using pm_coreD(2)[of s i] pm_coreD(4)[of s] by auto

lemma core_complete:
  assumes "pm_core s" "isComplete s"
  shows "missingPieces s = []" "ongoingPieces s = []" "set (havePieces s) = {..<totalPieces s}"
proof -
  have "length (missingPieces s @ ongoingPieces s @ havePieces s) = totalPieces s"
    using distinct_card[OF pm_coreD(3)[OF assms(1)]] pm_coreD(4)[OF assms(1)] by (metis card_lessThan)
  then show "missingPieces s = []" "ongoingPieces s = []" using assms(2) by (simp_all add: isComplete_def)
  with pm_coreD(4)[OF assms(1)] show "set (havePieces s) = {..<totalPieces s}" by simp
qed

text \<open>\<open>nextRequest\<close> without the pending requests.\<close>

lemma nextOngoing_cleared:
  "nextOngoing bf now s = Inr (Some (b, s')) \<Longrightarrow> \<exists>u. nextOngoing bf now (cleared s) = Inr (Some (b, u)) \<and> cleared u = cleared s'"
  "nextOngoing bf now s = Inr None \<Longrightarrow> nextOngoing bf now (cleared s) = Inr None"
  by (auto simp: nextOngoing_def rbind_Inr_iff cleared_def)

lemma getRarestPiece_cleared:
  "getRarestPiece bf (cleared s) = rbind (getRarestPiece bf s) (\<lambda>(i, s1). Inr (i, cleared s1))"
  by (simp add: getRarestPiece_def rbind_def cleared_def split: sum.splits option.splits)

lemma request_rarest_cleared:
  "request_rarest bf (cleared s) = rbind (request_rarest bf s) (\<lambda>(x, s1). Inr (x, cleared s1))"
  unfolding request_rarest_def getRarestPiece_cleared
  by (auto simp: rbind_def cleared_def split: sum.splits option.splits)

lemma nextRequest_cleared:
  assumes "nextRequest p now s = Inr (x, s')"
  shows "cleared s' = cleared s \<or> (\<exists>u. nextRequest p now (cleared s) = Inr (x, u) \<and> cleared u = cleared s')"
  using assms
proof (cases rule: nextRequest_cases)
  case (3 bf b)
  with nextOngoing_cleared(1)[OF 3(4)] show ?thesis by (auto simp: nextRequest_def)
next
  case (4 bf)
  from 4(5) have "request_rarest bf (cleared s) = Inr (x, cleared s')" by (simp add: request_rarest_cleared)
  with nextOngoing_cleared(2)[OF 4(4)] 4(1,2) have "nextRequest p now (cleared s) = Inr (x, cleared s')"
    by (simp add: nextRequest_def)
  then show ?thesis by (auto simp: cleared_def)
qed (auto simp: cleared_def)

lemma nextRequest_verified:
  assumes wf: "pm_wf s" and n: "nextRequest p now s = Inr (x, s')" and j: "j \<in> set (ongoingPieces s)"
  shows "j \<in> set (ongoingPieces s') \<and> (verified (store s ! j) \<longrightarrow> store s' ! j = store s ! j)"
  using n
proof (cases rule: nextRequest_cases)
  case (3 bf b)
  note o = nextOngoing_Some[OF wf 3(4)]
  have "\<not> verified (store s ! fst b)"
    using o(4,5) by (auto simp: verified_def is_complete_def list_all_length block_at_def piece_at_def)
  with j show ?thesis by (cases "j = fst b") (simp_all add: o(6))
next
  case (4 bf)
  from request_rarest_Inr[OF wf 4(5)] obtain i where i: "i \<in> set (missingPieces s)"
    "case x of None \<Rightarrow> s' = start_piece i s | Some b \<Rightarrow> \<exists>p. s' = (start_piece i s)\<lparr>store := (store s)[i := p]\<rparr>"
    by (auto simp: candidates_def split: option.splits)
  then have "i \<noteq> j" using j pm_wfD(3)[OF wf] by (auto simp: lists_wf_def)
  with i j show ?thesis by (cases x) (auto simp: start_piece_def)
qed (use j in auto)

section \<open>One thread among the others\<close>

definition job_ok :: "pmanager \<Rightarrow> job \<Rightarrow> bool" where
  "job_ok s j \<longleftrightarrow> (case j of Found i off d \<Rightarrow> i \<in> set (ongoingPieces s)
     | Verified i \<Rightarrow> i \<in> set (ongoingPieces s) \<and> verified (store s ! i)
     | Sought i \<Rightarrow> i \<in> set (ongoingPieces s) \<and> verified (store s ! i)
     | Matched i \<Rightarrow> i \<in> set (ongoingPieces s) \<and> verified (store s ! i) | _ \<Rightarrow> True)"

definition apart :: "job \<Rightarrow> job \<Rightarrow> bool" where
  "apart j k \<longleftrightarrow> held j = None \<or> held j \<noteq> held k"

lemma job_ok_simps [simp]:
  "job_ok s Idle" "job_ok s (Removing p)" "job_ok s (Found i off d) = (i \<in> set (ongoingPieces s))"
  "job_ok s (Verified i) \<longleftrightarrow> i \<in> set (ongoingPieces s) \<and> verified (store s ! i)"
  "job_ok s (Sought i) \<longleftrightarrow> i \<in> set (ongoingPieces s) \<and> verified (store s ! i)"
  "job_ok s (Matched i) \<longleftrightarrow> i \<in> set (ongoingPieces s) \<and> verified (store s ! i)"
  by (simp_all add: job_ok_def)

lemma job_ok_same: "ongoingPieces s' = ongoingPieces s \<Longrightarrow> store s' = store s \<Longrightarrow> job_ok s' j = job_ok s j"
  by (cases j) simp_all

text \<open>What the threads leave as it is in the torrent.\<close>

definition same_layout :: "pmanager \<Rightarrow> pmanager \<Rightarrow> bool" where
  "same_layout s s' \<longleftrightarrow> map layout (store s') = map layout (store s) \<and> totalPieces s' = totalPieces s \<and> piece_len s' = piece_len s"

lemma same_layout_refl [simp]: "same_layout s s"
  by (simp add: same_layout_def)

lemma same_layout_trans: "same_layout s t \<Longrightarrow> same_layout t u \<Longrightarrow> same_layout s u"
  by (simp add: same_layout_def)

lemma progress_layout: "progress s s' \<Longrightarrow> same_layout s s'"
  by (simp add: progress_def same_layout_def)

text \<open>\<open>br_check\<close> on an ongoing piece.\<close>

lemma br_check_cases:
  fixes off :: nat and d :: bytes
  assumes "piece_wf j (store s ! j)"
  defines "k \<equiv> off div 16384"
  defines "p \<equiv> put_block k d (store s ! j)"
  shows "br_check j off d s =
    (if off mod 16384 \<noteq> 0 \<or> length (piece_blocks (store s ! j)) \<le> k
     then (s, Inl (RuntimeError ''Trying to complete a non-existing block ''))
     else if \<not> is_complete p then (s\<lparr>store := (store s)[j := p]\<rparr>, Inr False)
     else if \<not> verified p then (s\<lparr>store := (store s)[j := piece_reset p]\<rparr>, Inr False)
     else (s\<lparr>store := (store s)[j := p]\<rparr>, Inr True))"
proof (cases "off mod 16384 = 0 \<and> k < length (piece_blocks (store s ! j))")
  case False
  then have "store_block off d (piece_blocks (store s ! j)) = None"
    using store_block_wf[OF assms(1)] by (simp add: k_def)
  with False show ?thesis by (auto simp: br_check_def block_received_def)
next
  case True
  have "block_received off d (store s ! j) = Inr p"
    using True store_block_wf[OF assms(1), of off d] by (simp add: block_received_def p_def put_block_def k_def)
  moreover have "is_complete p \<Longrightarrow> is_hash_matching p = Inr (verified p)"
    by (simp add: is_hash_matching_iff verified_def)
  ultimately show ?thesis using True by (simp add: br_check_def Let_def)
qed

lemma core_update:
  assumes c: "pm_core s" and i: "i \<in> set (ongoingPieces s)" and l: "layout p = layout (store s ! i)"
  shows "pm_core (s\<lparr>store := (store s)[i := p]\<rparr>)" "same_layout s (s\<lparr>store := (store s)[i := p]\<rparr>)"
proof -
  have "pm_wf ((cleared s)\<lparr>store := (store (cleared s))[i := p], pendingRequests := []\<rparr>)"
    using c i l by (intro pm_wf_update) (simp_all add: pm_core_def requests_wf_def)
  then show "pm_core (s\<lparr>store := (store s)[i := p]\<rparr>)"
    by (simp add: pm_core_def cleared_def pm_wf_def lists_wf_def requests_wf_def)
  show "same_layout s (s\<lparr>store := (store s)[i := p]\<rparr>)"
    using l by (cases "i < length (store s)")
      (simp_all add: same_layout_def map_update list_update_same_conv not_less list_update_beyond)
qed

lemma br_check_result:
  assumes c: "pm_core s" and j: "j \<in> set (ongoingPieces s)" and b: "br_check j off d s = (s', r)"
  shows "pm_core s' \<and> same_layout s s' \<and> ongoingPieces s' = ongoingPieces s \<and> missingPieces s' = missingPieces s \<and>
    havePieces s' = havePieces s \<and> downloadedFile s' = downloadedFile s \<and> (\<forall>i. i \<noteq> j \<longrightarrow> store s' ! i = store s ! i) \<and>
    (r = Inr True \<longrightarrow> verified (store s' ! j)) \<and> (case r of Inl e \<Rightarrow> is_exception e | Inr _ \<Rightarrow> True)"
proof -
  define p where "p = put_block (off div 16384) d (store s ! j)"
  note w = core_ongoing[OF c j]
  have jl: "j < length (store s)" using w pm_coreD(1)[OF c] by simp
  have l: "layout p = layout (store s ! j)" "layout (piece_reset p) = layout (store s ! j)"
    by (simp_all add: p_def layout_put_block layout_reset)
  note cs = br_check_cases[where off = off and d = d, OF conjunct2[OF w], folded p_def, unfolded b]
  consider "s' = s" "r = Inl (RuntimeError ''Trying to complete a non-existing block '')"
    | "s' = s\<lparr>store := (store s)[j := p]\<rparr>" "r = Inr False" | "s' = s\<lparr>store := (store s)[j := piece_reset p]\<rparr>" "r = Inr False"
    | "s' = s\<lparr>store := (store s)[j := p]\<rparr>" "r = Inr True" "verified p"
    using cs by (auto split: if_splits)
  then show ?thesis
  proof cases
    case 2
    with core_update[OF c j l(1)] show ?thesis by simp
  next
    case 3
    with core_update[OF c j l(2)] show ?thesis by simp
  next
    case 4
    with core_update[OF c j l(1)] jl show ?thesis by simp
  qed (use c in simp)
qed

lemma core_peer_map: "pm_core s \<Longrightarrow> wf_map (peers s)"
  using pm_wfD(7)[of "cleared s"] by (simp add: pm_core_def)

lemma core_peers:
  assumes "pm_core s" "wf_map m"
  shows "pm_core (s\<lparr>peers := m\<rparr>) \<and> same_layout s (s\<lparr>peers := m\<rparr>) \<and>
    dl_step\<^sup>*\<^sup>* (download_of s) (download_of (s\<lparr>peers := m\<rparr>)) \<and> (\<forall>k. job_ok s k \<longrightarrow> job_ok (s\<lparr>peers := m\<rparr>) k)"
proof -
  have "cleared (s\<lparr>peers := m\<rparr>) = (cleared s)\<lparr>peers := m\<rparr>" by (simp add: cleared_def)
  moreover have "job_ok (s\<lparr>peers := m\<rparr>) k = job_ok s k" for k by (rule job_ok_same) simp_all
  ultimately show ?thesis using assms pm_wf_peers[of "cleared s" m]
    by (simp add: pm_core_def same_layout_def download_of_def)
qed

lemma job_handler:
  assumes c: "pm_core s" and h: "one_section ev" "pm_step ev s s'"
  shows "pm_core s' \<and> same_layout s s' \<and> dl_step\<^sup>*\<^sup>* (download_of s) (download_of s') \<and> (\<forall>k. job_ok s k \<longrightarrow> job_ok s' k)"
proof (cases ev)
  case (NextRequest p now)
  then obtain x where n: "nextRequest p now s = Inr (x, s')" using h(2) by (auto elim: pm_step.cases)
  have d: "download_of s = download_of (cleared s)" "same_layout s (cleared s)" "job_ok (cleared s) k = job_ok s k" for s k
    by (simp_all add: download_of_def same_layout_def job_ok_same[of "cleared s" s])
  have wf: "pm_wf (cleared s)" using c by (simp add: pm_core_def)
  from nextRequest_cleared[OF n] show ?thesis
  proof
    assume e: "cleared s' = cleared s"
    then have st: "store s' = store s" "ongoingPieces s' = ongoingPieces s" by (metis cleared_simps(1), metis cleared_simps(3))
    moreover have "missingPieces s' = missingPieces s" "havePieces s' = havePieces s" "totalPieces s' = totalPieces s"
      "piece_len s' = piece_len s"
      using e by (metis cleared_simps(2), metis cleared_simps(4), metis cleared_simps(7), metis cleared_simps(8))
    ultimately have "same_layout s s'" "download_of s' = download_of s" by (simp_all add: same_layout_def download_of_def)
    with st c e job_ok_same[of s' s] show ?thesis by (simp add: pm_core_def)
  next
    assume "\<exists>u. nextRequest p now (cleared s) = Inr (x, u) \<and> cleared u = cleared s'"
    then obtain u where u: "nextRequest p now (cleared s) = Inr (x, u)" "cleared u = cleared s'" by blast
    have "pm_core s'" using pm_wf_core[OF nextRequest_wf[OF u(1) wf]] u(2) by (simp add: pm_core_def)
    moreover have "same_layout s s'"
      using progress_layout[OF progress_request[OF wf u(1)]] arg_cong[OF u(2), of "same_layout s"] by (simp add: same_layout_def)
    moreover have "dl_step\<^sup>*\<^sup>* (download_of s) (download_of s')"
      using download_of_request[OF wf u(1)] u(2) d(1) by metis
    moreover have "job_ok s k \<longrightarrow> job_ok s' k" for k
    proof -
      have "job_ok s k \<longrightarrow> job_ok u k" using nextRequest_verified[OF wf u(1)] by (cases k) auto
      then show ?thesis using d(3)[of u k] d(3)[of s' k] u(2) by simp
    qed
    ultimately show ?thesis by blast
  qed
next
  case (AddPeer p bf)
  with h(2) have "s' = s\<lparr>peers := map_set p bf (peers s)\<rparr>" by (auto elim!: pm_step.cases simp: addPeer_def)
  with core_peers[OF c, of "map_set p bf (peers s)"] core_peer_map[OF c] show ?thesis by (simp add: wf_map_set)
next
  case (UpdatePeer p i)
  with h(2) consider "s' = s" | "updatePeer p i s = Inr s'" by (auto elim!: pm_step.cases)
  then show ?thesis
  proof cases
    case 2
    obtain m where m: "s' = s\<lparr>peers := m\<rparr>" using peers_only(2)[OF 2] by blast
    have "wf_map (peers s')" using 2 core_peer_map[OF c] by (auto simp: updatePeer_def rbind_Inr_iff wf_map_set split: option.splits)
    with m core_peers[OF c, of m] show ?thesis by simp
  qed (use c in simp)
qed (use h(1) in auto)

text \<open>What one thread does to the manager, to its own assertion and to those of the threads on other pieces.\<close>

definition job_result :: "pmanager \<Rightarrow> job \<Rightarrow> pmanager \<Rightarrow> job \<Rightarrow> bool" where
  "job_result s j s' j' \<longleftrightarrow> pm_core s' \<and> same_layout s s' \<and> dl_step\<^sup>*\<^sup>* (download_of s) (download_of s') \<and> job_ok s' j' \<and>
     (\<forall>k. job_ok s k \<longrightarrow> apart j k \<longrightarrow> job_ok s' k)"

lemma find_ongoing:
  assumes "pm_core s" "br_find i off s = (s', x)"
  shows "s' = s\<lparr>pendingRequests := pendingRequests s'\<rparr>" "x = (if i \<in> set (ongoingPieces s) then Some i else None)"
proof -
  have "\<forall>j \<in> set (ongoingPieces s). piece_index (store s ! j) = j"
    using core_ongoing[OF assms(1)] by (auto simp: piece_wf_def)
  then show "s' = s\<lparr>pendingRequests := pendingRequests s'\<rparr>" "x = (if i \<in> set (ongoingPieces s) then Some i else None)"
    using assms(2) find_index[of "ongoingPieces s" "\<lambda>j. piece_index (store s ! j)" i] by (auto simp: br_find_def)
qed

lemma requests_only:
  assumes "pm_core s" "s' = s\<lparr>pendingRequests := rs\<rparr>" "job_ok s j'"
  shows "job_result s j s' j'"
proof -
  have "cleared s' = cleared s" "store s' = store s" "ongoingPieces s' = ongoingPieces s" by (simp_all add: assms(2) cleared_def)
  with assms job_ok_same[of s' s] show ?thesis by (simp add: job_result_def pm_core_def same_layout_def download_of_def)
qed

lemma check_result:
  assumes "pm_core s" "j \<in> set (ongoingPieces s)" "br_check j off d s = (s', r)"
  shows "job_result s (Found j off d) s' (if r = Inr True then Verified j else Idle)"
proof -
  note b = br_check_result[OF assms(1-3)]
  have "job_ok s' k" if "job_ok s k" "apart (Found j off d) k" for k
    using b that by (cases k) (auto simp: apart_def)
  with b assms(2) show ?thesis by (auto simp: job_result_def download_of_def)
qed

lemma file_result:
  assumes "pm_core s" "job_ok s j'"
  shows "job_result s j (s\<lparr>downloadedFile := f\<rparr>) j'"
proof -
  have "job_ok (s\<lparr>downloadedFile := f\<rparr>) k = job_ok s k" for k by (rule job_ok_same) simp_all
  with assms show ?thesis
    by (simp add: job_result_def same_layout_def download_of_def pm_core_def cleared_def pm_wf_def lists_wf_def requests_wf_def)
qed

lemma commit_result:
  assumes c: "pm_core s" and j: "j \<in> set (ongoingPieces s)" "verified (store s ! j)"
  shows "job_result s (Matched j) (br_commit j s) Idle"
proof -
  have "pm_wf (br_commit j (br_write j [] (cleared s)))"
    by (rule commit_wf) (use c j in \<open>simp_all add: pm_core_def\<close>)
  moreover have "cleared (br_commit j s) = (br_commit j (br_write j [] (cleared s)))\<lparr>downloadedFile := downloadedFile s\<rparr>"
    by (simp add: br_commit_def br_write_def cleared_def)
  ultimately have "pm_core (br_commit j s)"
    by (simp add: pm_core_def pm_wf_def lists_wf_def requests_wf_def)
  moreover have "dl_step (download_of s) (download_of (br_commit j s))"
    using dl_step.finish[of j "download_of s"] j(1) by (simp add: download_of_def br_commit_def without_elem)
  moreover have "job_ok (br_commit j s) k" if "job_ok s k" "apart (Matched j) k" for k
    using that by (cases k) (auto simp: apart_def br_commit_def)
  ultimately show ?thesis by (auto simp: job_result_def same_layout_def br_commit_def)
qed

lemma erase_result:
  assumes c: "pm_core s" and r: "rp_erase p s = Inr s'"
  shows "job_result s (Removing p) s' Idle"
proof -
  have "s' = s\<lparr>peers := map_erase p (peers s)\<rparr>" using r by (auto simp: rp_erase_def split: option.splits)
  with core_peers[OF c, of "map_erase p (peers s)"] wf_map_erase[OF core_peer_map[OF c]] show ?thesis
    by (simp add: job_result_def)
qed

lemma job_step_result:
  assumes "job_step (s, j) (s', j')" "pm_core s" "job_ok s j"
  shows "job_result s j s' j'"
  using assms(1)
proof (cases rule: job_step.cases)
  case (handler ev)
  with job_handler[OF assms(2)] show ?thesis by (simp add: job_result_def)
next
  case (enter i off j2 d)
  with find_ongoing[OF assms(2), of i off s'] requests_only[OF assms(2), of s' "pendingRequests s'" "Found j2 off d" j]
  show ?thesis by (auto split: if_splits)
next
  case (enter_fail i off)
  with find_ongoing(1)[OF assms(2), of i off s'] requests_only[OF assms(2), of s' "pendingRequests s'" Idle j] show ?thesis by auto
next
  case (check p)
  then show ?thesis using requests_only[OF assms(2), of s "pendingRequests s" "Removing p" j] by simp
next
  case (stored i off d)
  with check_result[OF assms(2), of i off d s' "Inr False"] assms(3) show ?thesis by simp
next
  case (checked i off d)
  with check_result[OF assms(2), of i off d s' "Inr True"] assms(3) show ?thesis by simp
next
  case (seek i)
  with file_result[OF assms(2), of "Sought i" j] assms(3) show ?thesis by (simp add: br_seek_def)
next
  case (put i d)
  with file_result[OF assms(2), of "Matched i" j] assms(3) show ?thesis by (simp add: br_put_def)
next
  case (store_fail i off d e)
  with check_result[OF assms(2), of i off d s' "Inl e"] assms(3) show ?thesis by simp
qed (use assms(3) commit_result[OF assms(2)] erase_result[OF assms(2)] in auto)

section \<open>The destructor\<close>

text \<open>
  The loops of \<open>~PieceManager\<close> over the pieces. What \<open>delete\<close> has freed is a set; the blocks belong to their
  piece, and the pending requests are objects of their own.
\<close>

primrec delete_pieces :: "nat list \<Rightarrow> nat set \<Rightarrow> nat set res" where
  "delete_pieces [] freed = Inr freed"
| "delete_pieces (piece # pieces_left) freed =
     (if piece \<in> freed then Inl (Undefined DoubleDelete) else delete_pieces pieces_left (insert piece freed))"

definition destroy_manager :: "pmanager \<Rightarrow> unit res" where
  "destroy_manager s =
     rbind (delete_pieces (missingPieces s) {}) (\<lambda>freed.
     rbind (delete_pieces (ongoingPieces s) freed) (\<lambda>freed.
     rbind (delete_pieces (havePieces s) freed) (\<lambda>freed. Inr ())))"

lemma delete_pieces_eq:
  "delete_pieces xs freed =
     (if distinct xs \<and> set xs \<inter> freed = {} then Inr (set xs \<union> freed) else Inl (Undefined DoubleDelete))"
  by (induction xs arbitrary: freed) auto

lemma destroy_manager_eq:
  "destroy_manager s = (if distinct (missingPieces s @ ongoingPieces s @ havePieces s) then Inr () else Inl (Undefined DoubleDelete))"
  by (auto simp: destroy_manager_def delete_pieces_eq)

section \<open>Threads on different pieces\<close>

definition all_apart :: "job list \<Rightarrow> bool" where
  "all_apart js \<longleftrightarrow> (\<forall>i < length js. \<forall>k < length js. i \<noteq> k \<longrightarrow> apart (js ! i) (js ! k))"

interpretation job_rg: rely_guarantee job_step pm_core job_ok
  "\<lambda>s s'. same_layout s s' \<and> dl_step\<^sup>*\<^sup>* (download_of s) (download_of s')" apart
  by unfold_locales (use job_step_result in \<open>auto simp: job_result_def\<close>)

text \<open>The runs in which no two threads are in \<open>blockReceived\<close> for the same piece.\<close>

definition apart_step :: "pmanager \<times> job list \<Rightarrow> pmanager \<times> job list \<Rightarrow> bool" where
  "apart_step x y \<longleftrightarrow> jobs_step x y \<and> all_apart (snd y)"

definition jobs_inv :: "pmanager \<times> job list \<Rightarrow> bool" where
  "jobs_inv x \<longleftrightarrow> pm_core (fst x) \<and> all_apart (snd x) \<and> (\<forall>k < length (snd x). job_ok (fst x) (snd x ! k))"

definition jobs_start :: "torrent_file \<Rightarrow> pmanager \<times> job list \<Rightarrow> bool" where
  "jobs_start t x \<longleftrightarrow> pm_start t (fst x) \<and> set (snd x) \<subseteq> {Idle}"

lemma apart_step_inv:
  assumes "jobs_inv x" "apart_step x y"
  shows "jobs_inv y" "same_layout (fst x) (fst y)" "dl_step\<^sup>*\<^sup>* (download_of (fst x)) (download_of (fst y))"
proof -
  from assms(2) obtain s js s' th j where x: "x = (s, js)" "y = (s', js[th := j])" "th < length js"
    "job_step (s, js ! th) (s', j)" and a: "all_apart (js[th := j])"
    by (auto simp: apart_step_def elim: jobs_step.cases)
  note m = job_rg.one_of_many[of s js th s' j]
  have pre: "pm_core s" "\<forall>k < length js. job_ok s (js ! k)" "\<forall>k < length js. k \<noteq> th \<longrightarrow> apart (js ! th) (js ! k)"
    using assms(1) x(1,3) by (auto simp: jobs_inv_def all_apart_def)
  from m[OF pre(1,2) x(3,4) pre(3)] a show "jobs_inv y" "same_layout (fst x) (fst y)"
    "dl_step\<^sup>*\<^sup>* (download_of (fst x)) (download_of (fst y))"
    by (simp_all add: jobs_inv_def x(1,2))
qed

interpretation jobs: simulation "jobs_start t" apart_step jobs_inv dl_step "\<lambda>x. download_of (fst x)"
proof
  show "jobs_inv x" if "jobs_start t x" for x
  proof -
    have "snd x ! k = Idle" if "k < length (snd x)" for k
      using \<open>jobs_start t x\<close> nth_mem[OF that] by (auto simp: jobs_start_def)
    with that show ?thesis
      by (auto simp: jobs_start_def jobs_inv_def all_apart_def apart_def intro: pm_wf_core pm_start_wf)
  qed
qed (use apart_step_inv in blast)+

lemma had_verified:
  assumes "pm_start t s0" "pm_core s" "same_layout s0 s" "i \<in> set (havePieces s)"
  shows "is_complete (store s ! i) \<and> fips_sha1 (piece_bytes (store s ! i)) = splitPieceHashes (pieces (info t)) ! i"
proof -
  have h: "map piece_hash (store s) = splitPieceHashes (pieces (info t))"
    using start_hashes[of t s0] layout_hash[of "store s" "store s0"] assms(1,3) by (simp add: same_layout_def)
  have "i < length (store s)" using assms(4) pm_coreD(1,4)[OF assms(2)] by auto
  then have "piece_hash (store s ! i) = splitPieceHashes (pieces (info t)) ! i" by (simp flip: h)
  with pm_coreD(5)[OF assms(2,4)] show ?thesis by (simp add: verified_iff)
qed

lemma all_verified:
  assumes "pm_start t s0" "pm_core s" "same_layout s0 s" "isComplete s" "i < length (splitPieceHashes (pieces (info t)))"
  shows "fips_sha1 (piece_bytes (store s ! i)) = splitPieceHashes (pieces (info t)) ! i"
proof -
  have "length (splitPieceHashes (pieces (info t))) = totalPieces s"
    using start_hashes[of t s0] layout_hash[of "store s" "store s0"] assms(1,3) pm_coreD(1)[OF assms(2)]
    by (metis length_map same_layout_def)
  with core_complete(3)[OF assms(2,4)] had_verified[OF assms(1-3), of i] assms(5) show ?thesis by simp
qed

text \<open>
  C2. The piece manager under its threads, in every interleaving of the handlers as the source locks them in which no two
  threads are in \<open>blockReceived\<close> for the same piece: every piece is in exactly one of the three lists, the pieces in
  \<open>havePieces\<close> have data with the hash of the torrent, \<open>isComplete\<close> tells the truth, no piece a thread
  works on is missing or had, the destructor deletes every piece once, and the run is one of the abstract download.
\<close>

theorem threads_on_different_pieces:
  assumes "pm_start t s0" "apart_step\<^sup>*\<^sup>* (s0, replicate n Idle) (s, js)"
  shows "distinct (missingPieces s @ ongoingPieces s @ havePieces s) \<and>
    set (missingPieces s @ ongoingPieces s @ havePieces s) = {..<totalPieces s} \<and>
    (\<forall>i \<in> set (havePieces s). is_complete (store s ! i) \<and>
       fips_sha1 (piece_bytes (store s ! i)) = splitPieceHashes (pieces (info t)) ! i) \<and>
    (isComplete s \<longrightarrow> missingPieces s = [] \<and> ongoingPieces s = [] \<and> (\<forall>i < length (splitPieceHashes (pieces (info t))).
       fips_sha1 (piece_bytes (store s ! i)) = splitPieceHashes (pieces (info t)) ! i)) \<and>
    (\<forall>j \<in> set js. \<forall>i. held j = Some i \<longrightarrow> i \<in> set (ongoingPieces s)) \<and>
    destroy_manager s = Inr () \<and> dl_step\<^sup>*\<^sup>* (download_of s0) (download_of s)"
proof -
  have st: "jobs_start t (s0, replicate n Idle)" using assms(1) by (auto simp: jobs_start_def)
  note inv = jobs.inv_reachable[OF st assms(2)]
  have c: "pm_core s" using inv by (simp add: jobs_inv_def)
  have "same_layout (fst (s0, replicate n Idle)) (fst (s, js))"
    by (rule jobs.monotone_steps[OF assms(2) jobs.inv_init[OF st]])
      (use apart_step_inv(2) same_layout_trans in auto)
  then have l: "same_layout s0 s" by simp
  have h: "i \<in> set (ongoingPieces s)" if "j \<in> set js" "held j = Some i" for i j
    using inv that by (cases j) (auto simp: jobs_inv_def in_set_conv_nth)
  show ?thesis
    using pm_coreD(3,4)[OF c] had_verified[OF assms(1) c l] all_verified[OF assms(1) c l] core_complete(1,2)[OF c] h
      jobs.sim_steps[OF assms(2) jobs.inv_init[OF st]] by (auto simp: destroy_manager_eq)
qed

text \<open>Two threads: one downloads the only piece.\<close>

lemma ex_job_steps: "job_step\<^sup>*\<^sup>* (ex0, Idle) (ex3, Idle)"
proof -
  define s3 where "s3 = ex2\<lparr>store := [ex_block retrieved ''abc'']\<rparr>"
  have e: "br_commit 0 (br_put ''abc'' (br_seek 0 s3)) = ex3"
    by (simp add: s3_def br_commit_def br_put_def br_seek_def seekp_def write_here_def overwrite_def ex_defs)
  have "job_step (ex0, Idle) (ex1, Idle)"
    using job_step.handler[OF _ pm_step.add[of "''P''" "[CHR 0x80]" ex0]] by (simp add: ex_add)
  moreover have "job_step (ex1, Idle) (ex2, Idle)" using job_step.handler[OF _ pm_step.request[OF ex_next]] by simp
  moreover have "job_step (ex2, Idle) (ex2, Found 0 0 ''abc'')"
    by (rule job_step.enter[of 0]) (simp add: br_find_def ex_defs)
  moreover have "job_step (ex2, Found 0 0 ''abc'') (s3, Verified 0)"
    by (rule job_step.checked) (simp add: s3_def br_check_def block_received_def is_complete_def
      is_hash_matching_def piece_data_def hexDecode_sha1 ex_defs Let_def)
  moreover have "job_step (s3, Verified 0) (br_seek 0 s3, Sought 0)" by (rule job_step.seek)
  moreover have "job_step (br_seek 0 s3, Sought 0) (br_put ''abc'' (br_seek 0 s3), Matched 0)"
    by (rule job_step.put) (simp add: s3_def br_seek_def piece_data_def is_complete_def ex_defs)
  moreover have "job_step (br_put ''abc'' (br_seek 0 s3), Matched 0) (ex3, Idle)"
    using job_step.commit[of "br_put ''abc'' (br_seek 0 s3)" 0] by (simp only: e)
  ultimately show ?thesis by (meson converse_rtranclp_into_rtranclp rtranclp.rtrancl_refl)
qed

lemma alone_step: "job_step (s, j) (s', j') \<Longrightarrow> apart_step (s, [j, Idle]) (s', [j', Idle])"
  using jobs_step.intros[of 0 "[j, Idle]" s s' j'] by (auto simp: apart_step_def all_apart_def apart_def less_Suc_eq)

lemma alone_steps: "job_step\<^sup>*\<^sup>* (s, j) (s', j') \<Longrightarrow> apart_step\<^sup>*\<^sup>* (s, [j, Idle]) (s', [j', Idle])"
  by (induction rule: rtranclp_induct2) (auto intro: rtranclp.rtrancl_into_rtrancl alone_step)

lemma ex_jobs: "apart_step\<^sup>*\<^sup>* (ex0, replicate 2 Idle) (ex3, replicate 2 Idle)"
  using alone_steps[OF ex_job_steps] by (simp add: numeral_2_eq_2)

lemma threads_on_different_pieces_witness:
  "isComplete ex3 \<and> ongoingPieces ex3 = [] \<and> fips_sha1 (piece_bytes (store ex3 ! 0)) = splitPieceHashes (pieces (info ex_torrent)) ! 0 \<and>
   dl_step\<^sup>*\<^sup>* (download_of ex0) (download_of ex3)"
proof -
  have "isComplete ex3" "havePieces ex3 = [0]" by (simp_all add: isComplete_def ex_defs)
  with threads_on_different_pieces[OF ex_start ex_jobs] show ?thesis by simp
qed

section \<open>Two threads on one piece\<close>

text \<open>\<open>havePieces\<close> never shrinks, so that a manager that has more pieces than there are is never complete.\<close>

lemma nextRequest_have: "nextRequest p now s = Inr (x, s') \<Longrightarrow> havePieces s' = havePieces s \<and> totalPieces s' = totalPieces s"
  by (erule nextRequest_cases)
    (auto simp: nextOngoing_def request_rarest_def getRarestPiece_def rbind_Inr_iff split: option.splits)

lemma br_check_have: "br_check j off d s = (s', r) \<Longrightarrow> havePieces s' = havePieces s \<and> totalPieces s' = totalPieces s"
  by (auto simp: br_check_def Let_def split: sum.splits if_splits bool.splits)

lemma overfull_step:
  assumes "job_step x y" "totalPieces (fst x) < length (havePieces (fst x))"
  shows "totalPieces (fst y) < length (havePieces (fst y))"
  using assms
proof (induction rule: job_step.induct)
  case (handler ev s s')
  from handler(2,1,3) show ?case
    by (induction rule: pm_step.induct)
      (auto simp: addPeer_def updatePeer_def rbind_Inr_iff dest: nextRequest_have split: option.splits)
qed (auto simp: br_find_def br_commit_def rp_erase_def br_seek_def br_put_def dest: br_check_have split: option.splits)

lemma overfull_steps:
  "jobs_step\<^sup>*\<^sup>* (s, js) (s', js') \<Longrightarrow> totalPieces s < length (havePieces s) \<Longrightarrow> \<not> isComplete s'"
proof -
  assume "jobs_step\<^sup>*\<^sup>* (s, js) (s', js')" "totalPieces s < length (havePieces s)"
  then have "totalPieces s' < length (havePieces s')"
  proof (induction rule: rtranclp_induct2)
    case (step u js u' js')
    then show ?case using overfull_step by (fastforce elim!: jobs_step.cases)
  qed simp
  then show "\<not> isComplete s'" by (simp add: isComplete_def)
qed

lemma br_check_matching:
  assumes "block_received off d (store s ! j) = Inr p" "is_complete p" "fips_sha1 (piece_bytes p) = piece_hash p"
  shows "br_check j off d s = (s\<lparr>store := (store s)[j := p]\<rparr>, Inr True)"
  using assms is_hash_matching_iff[of p True] by (simp add: br_check_def piece_bytes_def)

text \<open>A thread whose piece is verified writes it and moves it to \<open>havePieces\<close>.\<close>

definition written :: "nat \<Rightarrow> pmanager \<Rightarrow> pmanager" where
  "written j s = br_commit j (br_write j (piece_bytes (store s ! j)) s)"

lemma written_steps:
  assumes "th < length js" "js ! th = Verified j" "is_complete (store s ! j)"
  shows "jobs_step\<^sup>*\<^sup>* (s, js) (written j s, js[th := Idle])"
proof -
  let ?d = "piece_bytes (store s ! j)"
  have d: "piece_data (store (br_seek j s) ! j) = Inr ?d"
    using assms(3) by (simp add: piece_data_def br_seek_def piece_bytes_def)
  have "jobs_step (s, js) (br_seek j s, js[th := Sought j])"
    using jobs_step.intros[of th js s "br_seek j s" "Sought j"] job_step.seek[of s j] assms(1,2) by simp
  moreover have "jobs_step (br_seek j s, js[th := Sought j]) (br_write j ?d s, js[th := Matched j])"
    using jobs_step.intros[of th "js[th := Sought j]" "br_seek j s" "br_write j ?d s" "Matched j"] job_step.put[OF d] assms(1)
    by (simp add: br_write_halves)
  moreover have "jobs_step (br_write j ?d s, js[th := Matched j]) (written j s, js[th := Idle])"
    using jobs_step.intros[of th "js[th := Matched j]" "br_write j ?d s" "written j s" Idle] job_step.commit[of "br_write j ?d s" j] assms(1)
    by (simp add: written_def)
  ultimately show ?thesis by (meson converse_rtranclp_into_rtranclp rtranclp.rtrancl_refl)
qed

lemma written_simps [simp]:
  "store (written j s) = store s" "missingPieces (written j s) = missingPieces s" "totalPieces (written j s) = totalPieces s"
  "havePieces (written j s) = havePieces s @ [j]"
  by (simp_all add: written_def br_commit_def br_write_def)

lemma put_block_again: "put_block k d (put_block k d p) = put_block k d p"
  by (cases "k < length (piece_blocks p)") (simp_all add: put_block_def list_update_beyond)

lemma block_received_wf:
  "piece_wf i p \<Longrightarrow> k < length (piece_blocks p) \<Longrightarrow> block_received (k * 16384) d p = Inr (put_block k d p)"
  by (simp add: block_received_def store_block_wf put_block_def)

text \<open>
  C29. The race: when a block completes a piece with the right hash and two threads
  deliver it at the same time, the piece can be put into \<open>havePieces\<close> twice. Then \<open>isComplete\<close> becomes true
  with a piece still to be downloaded; or, when it was the last piece, \<open>isComplete\<close> is false in every later state, whatever the
  threads do. The destructor would delete the piece twice.
\<close>

theorem piece_counted_twice:
  assumes wf: "pm_wf s" and j: "j \<in> set (ongoingPieces s)" and k: "k < length (piece_blocks (store s ! j))"
    and c: "is_complete (put_block k d (store s ! j))"
    and h: "fips_sha1 (piece_bytes (put_block k d (store s ! j))) = piece_hash (store s ! j)"
  shows "\<exists>s'. jobs_step\<^sup>*\<^sup>* (s, [Idle, Idle]) (s', [Idle, Idle]) \<and>
    havePieces s' = havePieces s @ [j, j] \<and> missingPieces s' = missingPieces s \<and>
    (isComplete s' \<longleftrightarrow> length (havePieces s) + 2 = totalPieces s) \<and>
    destroy_manager s' = Inl (Undefined DoubleDelete) \<and>
    (length (havePieces s) + 1 = totalPieces s \<longrightarrow>
      (\<forall>u js. jobs_step\<^sup>*\<^sup>* (s', [Idle, Idle]) (u, js) \<longrightarrow> \<not> isComplete u))"
proof -
  define off where "off = k * 16384"
  define p where "p = put_block k d (store s ! j)"
  have jl: "j < length (store s)" and pw: "piece_wf j (store s ! j)"
    using j pm_wf_ongoing[OF wf] pm_wfD(1,2)[OF wf] by auto
  have ix: "\<forall>i \<in> set (ongoingPieces s). piece_index (store s ! i) = i"
    using wf pm_wf_ongoing pm_wfD(2) by (fastforce simp: piece_wf_def)
  have f: "find (\<lambda>i. piece_index (store s ! i) = j) (ongoingPieces s) = Some j"
    using find_index[OF ix, of j] j by simp
  define s1 where "s1 = fst (br_find j off s)"
  define s2 where "s2 = fst (br_find j off s1)"
  have find1: "br_find j off s = (s1, Some j)" "br_find j off s1 = (s2, Some j)"
    using f by (simp_all add: s1_def s2_def br_find_def)
  have s2: "store s2 = store s" "ongoingPieces s2 = ongoingPieces s" "havePieces s2 = havePieces s"
    "missingPieces s2 = missingPieces s" "totalPieces s2 = totalPieces s"
    by (simp_all add: s1_def s2_def br_find_def)
  have ph: "piece_hash p = piece_hash (store s ! j)" by (simp add: p_def put_block_def)
  have pwp: "piece_wf j p" unfolding p_def by (rule piece_wf_layout[OF layout_put_block pw])
  have kp: "k < length (piece_blocks p)" using k by (simp add: p_def put_block_def)
  have r1: "block_received off d (store s2 ! j) = Inr p"
    using block_received_wf[OF pw k, of d] by (simp add: s2 p_def off_def)
  have c3: "br_check j off d s2 = (s2\<lparr>store := (store s2)[j := p]\<rparr>, Inr True)"
    by (rule br_check_matching[OF r1]) (use c h ph in \<open>simp_all add: p_def\<close>)
  define s3 where "s3 = s2\<lparr>store := (store s2)[j := p]\<rparr>"
  have s3: "store s3 ! j = p" "havePieces s3 = havePieces s" "missingPieces s3 = missingPieces s"
    "totalPieces s3 = totalPieces s"
    using jl by (simp_all add: s3_def s2)
  have r2: "block_received off d (store s3 ! j) = Inr p"
    using block_received_wf[OF pwp kp, of d] by (simp add: s3 off_def) (simp add: p_def put_block_again)
  have c4: "br_check j off d s3 = (s3, Inr True)"
  proof -
    have "s3\<lparr>store := (store s3)[j := p]\<rparr> = s3" by (simp add: s3_def)
    with br_check_matching[OF r2] c h ph show ?thesis by (simp add: p_def)
  qed
  let ?f = "Found j off d"
  have steps: "jobs_step (s, [Idle, Idle]) (s1, [?f, Idle])" "jobs_step (s1, [?f, Idle]) (s2, [?f, ?f])"
    "jobs_step (s2, [?f, ?f]) (s3, [Verified j, ?f])" "jobs_step (s3, [Verified j, ?f]) (s3, [Verified j, Verified j])"
    using jobs_step.intros[of 0 "[Idle, Idle]" s s1 ?f] jobs_step.intros[of 1 "[?f, Idle]" s1 s2 ?f]
      jobs_step.intros[of 0 "[?f, ?f]" s2 s3 "Verified j"] jobs_step.intros[of 1 "[Verified j, ?f]" s3 s3 "Verified j"]
      job_step.enter[OF find1(1), of d] job_step.enter[OF find1(2), of d] job_step.checked[OF c3[folded s3_def]] job_step.checked[OF c4]
    by simp_all
  then have "jobs_step\<^sup>*\<^sup>* (s, [Idle, Idle]) (s3, [Verified j, Verified j])"
    by (blast intro: converse_rtranclp_into_rtranclp[where r = jobs_step])
  moreover have "jobs_step\<^sup>*\<^sup>* (s3, [Verified j, Verified j]) (written j s3, [Idle, Verified j])"
    using written_steps[of 0 "[Verified j, Verified j]" j s3] c by (simp add: s3 p_def)
  moreover have "jobs_step\<^sup>*\<^sup>* (written j s3, [Idle, Verified j]) (written j (written j s3), [Idle, Idle])"
    using written_steps[of 1 "[Idle, Verified j]" j "written j s3"] c by (simp add: s3 p_def)
  ultimately have run: "jobs_step\<^sup>*\<^sup>* (s, [Idle, Idle]) (written j (written j s3), [Idle, Idle])"
    by (meson rtranclp_trans)
  have hp: "havePieces (written j (written j s3)) = havePieces s @ [j, j]" by (simp add: s3)
  have "\<not> isComplete u" if "jobs_step\<^sup>*\<^sup>* (written j (written j s3), [Idle, Idle]) (u, js)"
    "length (havePieces s) + 1 = totalPieces s" for u js
    using overfull_steps[OF that(1)] that(2) hp by (simp add: s3)
  moreover have "destroy_manager (written j (written j s3)) = Inl (Undefined DoubleDelete)"
    by (simp add: destroy_manager_eq hp)
  moreover have "isComplete (written j (written j s3)) \<longleftrightarrow> length (havePieces s) + 2 = totalPieces s"
    by (simp add: isComplete_def hp s3)
  ultimately show ?thesis using run hp by (intro exI[of _ "written j (written j s3)"]) (simp add: s3)
qed

lemma piece_counted_twice_witness:
  "\<exists>s'. jobs_step\<^sup>*\<^sup>* (ex2, [Idle, Idle]) (s', [Idle, Idle]) \<and> havePieces s' = [0, 0]"
proof -
  have wf: "pm_wf ex2" using run_wf[OF ex_start ex_run(2)] .
  have "0 \<in> set (ongoingPieces ex2)" "0 < length (piece_blocks (store ex2 ! 0))"
    "is_complete (put_block 0 ''abc'' (store ex2 ! 0))"
    "fips_sha1 (piece_bytes (put_block 0 ''abc'' (store ex2 ! 0))) = piece_hash (store ex2 ! 0)"
    "havePieces ex2 = []"
    by (simp_all add: ex_defs put_block_def is_complete_def piece_bytes_def)
  with piece_counted_twice[OF wf, of 0 0 "''abc''"] show ?thesis by auto
qed

section \<open>After the download\<close>

text \<open>When all pieces are had no thread finds a piece any more, and the pieces stay as they are.\<close>

lemma complete_job:
  assumes "pm_core s" "job_ok s j" "isComplete s" "job_step (s, j) (s', j')"
  shows "isComplete s' \<and> held j' = None \<and> (\<forall>p. j' \<noteq> Removing p)"
proof -
  note e = core_complete(1,2)[OF assms(1,3)]
  from assms(4) show ?thesis
  proof (cases rule: job_step.cases)
    case (handler ev)
    from handler(4,3) have "havePieces s' = havePieces s \<and> totalPieces s' = totalPieces s"
      by (induction rule: pm_step.induct)
        (auto simp: addPeer_def updatePeer_def rbind_Inr_iff dest: nextRequest_have split: option.splits)
    with handler(2) assms(3) show ?thesis by (simp add: isComplete_def)
  qed (use assms e in \<open>auto simp: br_find_def rp_erase_def isComplete_def split: option.splits\<close>)
qed

text \<open>After a failed write nothing is written any more.\<close>

lemma br_check_file: "br_check j off d s = (s', r) \<Longrightarrow> downloadedFile s' = downloadedFile s"
  by (auto simp: br_check_def Let_def split: sum.splits if_splits bool.splits)

lemma nextRequest_file: "nextRequest p now s = Inr (x, s') \<Longrightarrow> downloadedFile s' = downloadedFile s"
  by (erule nextRequest_cases)
    (auto simp: nextOngoing_def request_rarest_def getRarestPiece_def rbind_Inr_iff split: option.splits)

lemma failed_file_job:
  assumes "job_step x y" "\<not> good (downloadedFile (fst x))"
  shows "downloadedFile (fst y) = downloadedFile (fst x)"
  using assms
proof (induction rule: job_step.induct)
  case (handler ev s s')
  from handler(2,1) show ?case
    by (induction rule: pm_step.induct)
      (auto simp: addPeer_def updatePeer_def rbind_Inr_iff dest: nextRequest_file split: option.splits)
qed (auto simp: br_find_def br_commit_def rp_erase_def br_seek_def br_put_def seekp_def write_here_def
  dest: br_check_file split: option.splits)

section \<open>A handler without the other threads\<close>

lemma br_check_error: "br_check j off d s = (s', Inl e) \<Longrightarrow> is_exception e"
  by (auto simp: br_check_def block_received_def is_hash_matching_def piece_data_def hexDecode_sha1 Let_def
      split: option.splits sum.splits if_splits bool.splits)

lemma handler_alone:
  assumes "pm_step ev s s'" "pm_wf s"
  shows "job_step\<^sup>*\<^sup>* (s, Idle) (s', Idle)"
  using assms(1)
proof (cases rule: pm_step.cases)
  case (remove p)
  show ?thesis
  proof (cases "isComplete s")
    case True
    with remove show ?thesis by (simp add: removePeer_halves)
  next
    case False
    with remove have "rp_erase p s = Inr s'" by (simp add: removePeer_halves)
    with job_step.check[OF False] job_step.erase show ?thesis by (meson converse_rtranclp_into_rtranclp rtranclp.rtrancl_refl)
  qed
next
  case (received i off d r)
  obtain s1 x where f: "br_find i off s = (s1, x)" by fastforce
  show ?thesis
  proof (cases x)
    case None
    with f received(2) job_step.enter_fail[of i off s] show ?thesis by (auto simp: blockReceived_def)
  next
    case (Some j)
    with f have 1: "job_step (s, Idle) (s1, Found j off d)" by (auto intro: job_step.enter)
    have s1: "store s1 = store s" "j \<in> set (ongoingPieces s)" using f Some by (auto simp: br_find_def find_Some_iff)
    then have jl: "j < length (store s1)" using pm_wf_ongoing[OF assms(2)] pm_wfD(1)[OF assms(2)] by simp
    obtain s2 y where b: "br_check j off d s1 = (s2, y)" by fastforce
    have "job_step\<^sup>*\<^sup>* (s1, Found j off d) (s', Idle)"
    proof (cases "y = Inr True")
      case True
      have v: "is_complete (store s2 ! j)"
        using b True jl by (auto simp: br_check_def Let_def split: sum.splits if_splits bool.splits)
      then have d: "piece_data (store (br_seek j s2) ! j) = Inr (piece_bytes (store s2 ! j))"
        by (simp add: br_seek_def piece_data_def piece_bytes_def)
      have "br_store j off d s1 = (br_put (piece_bytes (store s2 ! j)) (br_seek j s2), Inr True)"
        using br_store_parts[OF jl, of off d] b True v by (simp add: piece_data_def piece_bytes_def)
      with received(2) f Some have "s' = br_commit j (br_put (piece_bytes (store s2 ! j)) (br_seek j s2))"
        by (simp add: blockReceived_def)
      with True job_step.checked[of j off d s1 s2] job_step.seek[of s2 j] job_step.put[OF d] job_step.commit b show ?thesis
        by (meson converse_rtranclp_into_rtranclp rtranclp.rtrancl_refl)
    next
      case False
      have "br_store j off d s1 = (s2, y)" using br_store_parts[OF jl, of off d] b False by (auto split: sum.splits bool.splits)
      with received(2) f Some False have "s' = s2" by (cases y) (auto simp: blockReceived_def)
      with False b job_step.stored[of j off d s1 s2] job_step.store_fail[of j off d s1 s2] br_check_error[of j off d s1 s2]
      show ?thesis by (cases y) auto
    qed
    with 1 show ?thesis by (rule converse_rtranclp_into_rtranclp)
  qed
qed (use assms job_step.handler[of ev s s'] in auto)

end
