(* ===== verification/FileWrites.thy ===== *)
theory FileWrites
  imports Concurrent
begin

text \<open>
  The output file under the threads. \<open>PieceManager::write\<close> calls \<open>seekp\<close> and \<open>write\<close> on the one
  stream of all threads without the mutex. While at most one thread is between the two calls the file holds every piece at its
  place; two threads there at a time can write both pieces at the place of one.
\<close>

section \<open>One thread at a time in \<open>write\<close>\<close>

fun in_write :: "job \<Rightarrow> bool" where
  "in_write (Sought j) = True"
| "in_write (Found j off d) = False"
| "in_write (Verified j) = False"
| "in_write (Matched j) = False"
| "in_write (Removing p) = False"
| "in_write Idle = False"

definition one_writer :: "job list \<Rightarrow> bool" where
  "one_writer js \<longleftrightarrow> (\<forall>i < length js. \<forall>k < length js. in_write (js ! i) \<and> in_write (js ! k) \<longrightarrow> i = k)"

definition serial_step :: "pmanager \<times> job list \<Rightarrow> pmanager \<times> job list \<Rightarrow> bool" where
  "serial_step x y \<longleftrightarrow> apart_step x y \<and> one_writer (snd y)"

text \<open>The pieces that were written: those had, and those whose thread waits to move them to \<open>havePieces\<close>.\<close>

definition on_disk :: "pmanager \<times> job list \<Rightarrow> nat set" where
  "on_disk x = {i. i \<in> set (havePieces (fst x)) \<or> Matched i \<in> set (snd x)}"

definition writing_at :: "pmanager \<times> job list \<Rightarrow> bool" where
  "writing_at x \<longleftrightarrow> (\<forall>j. Sought j \<in> set (snd x) \<longrightarrow> put_pos (downloadedFile (fst x)) = j * nat (piece_len (fst x)))"

definition file_inv :: "pmanager \<times> job list \<Rightarrow> bool" where
  "file_inv x \<longleftrightarrow> jobs_inv x \<and> one_writer (snd x) \<and> pieces_in_file (on_disk x) (fst x) \<and>
     (0 \<le> piece_len (fst x) \<longrightarrow> good (downloadedFile (fst x)) \<and> writing_at x)"

section \<open>What a step does to the written pieces\<close>

text \<open>A piece is settled when its data do not change any more.\<close>

definition settled :: "pmanager \<Rightarrow> nat \<Rightarrow> bool" where
  "settled s i \<longleftrightarrow> i \<in> set (havePieces s) \<or> i \<in> set (ongoingPieces s) \<and> verified (store s ! i)"

lemma settled_cleared [simp]: "settled (cleared s) i = settled s i"
  by (simp add: settled_def)

lemma handler_settled:
  assumes c: "pm_core s" and h: "one_section ev" "pm_step ev s s'"
  shows "havePieces s' = havePieces s \<and> downloadedFile s' = downloadedFile s \<and> (settled s i \<longrightarrow> store s' ! i = store s ! i)"
proof (cases ev)
  case (NextRequest p now)
  then obtain x where n: "nextRequest p now s = Inr (x, s')" using h(2) by (auto elim: pm_step.cases)
  have wf: "pm_wf (cleared s)" using c by (simp add: pm_core_def)
  have "store s' ! i = store s ! i" if i: "settled s i"
    using nextRequest_cleared[OF n]
  proof
    assume "cleared s' = cleared s"
    then show ?thesis by (metis cleared_simps(1))
  next
    assume "\<exists>u. nextRequest p now (cleared s) = Inr (x, u) \<and> cleared u = cleared s'"
    then obtain u where u: "nextRequest p now (cleared s) = Inr (x, u)" "cleared u = cleared s'" by blast
    have "store u ! i = store s ! i"
      using i nextRequest_verified[OF wf u(1), of i] progress_request[OF wf u(1)] by (auto simp: settled_def progress_def)
    then show ?thesis using u(2) by (metis cleared_simps(1))
  qed
  with nextRequest_have[OF n] nextRequest_file[OF n] show ?thesis by simp
qed (use h in \<open>auto elim!: pm_step.cases simp: addPeer_def updatePeer_def rbind_Inr_iff split: option.splits\<close>)

text \<open>The steps by their effect on the file: the three that belong to \<open>write\<close>, and the others.\<close>

definition elsewhere :: "job \<Rightarrow> bool" where
  "elsewhere j \<longleftrightarrow> (\<forall>i. j \<noteq> Sought i \<and> j \<noteq> Matched i)"

lemma elsewhere_simps [simp]:
  "elsewhere Idle" "elsewhere (Found i off d)" "elsewhere (Verified i)" "elsewhere (Removing p)"
  "\<not> elsewhere (Sought i)" "\<not> elsewhere (Matched i)"
  by (simp_all add: elsewhere_def)

lemma job_step_file:
  assumes "job_step (s, j) (s', j')" "pm_core s" "job_ok s j"
  obtains (seek) i where "j = Verified i" "j' = Sought i" "s' = br_seek i s"
    | (put) i where "j = Sought i" "j' = Matched i" "s' = br_put (piece_bytes (store s ! i)) s"
    | (commit) i where "j = Matched i" "j' = Idle" "s' = br_commit i s"
    | (other) "elsewhere j" "elsewhere j'" "havePieces s' = havePieces s" "downloadedFile s' = downloadedFile s"
        "\<And>i. settled s i \<Longrightarrow> held j \<noteq> Some i \<Longrightarrow> store s' ! i = store s ! i"
  using assms(1)
proof (cases rule: job_step.cases)
  case (handler ev)
  with handler_settled[OF assms(2), of ev s'] show ?thesis by (intro other) auto
next
  case (put i d)
  then have "d = piece_bytes (store s ! i)" using assms(3) by (auto simp: piece_data_def piece_bytes_def split: if_splits)
  with put that(2) show ?thesis by simp
next
  case (stored i off d)
  with br_check_result[OF assms(2), of i off d s'] assms(3) show ?thesis by (intro other) auto
next
  case (checked i off d)
  with br_check_result[OF assms(2), of i off d s'] assms(3) show ?thesis by (intro other) auto
next
  case (store_fail i off d e)
  with br_check_result[OF assms(2), of i off d s'] assms(3) show ?thesis by (intro other) auto
next
  case (enter i off j d)
  then show ?thesis by (intro other) (auto simp: br_find_def)
next
  case (enter_fail i off)
  then show ?thesis by (intro other) (auto simp: br_find_def)
next
  case (erase p)
  then show ?thesis by (intro other) (auto simp: rp_erase_def split: option.splits)
next
  case (check p)
  then show ?thesis by (intro other) auto
qed (use that in auto)


section \<open>The invariant\<close>

lemma in_update:
  assumes "i < length js" "js ! i \<noteq> y" "x \<noteq> y"
  shows "y \<in> set (js[i := x]) \<longleftrightarrow> y \<in> set js"
  using assms by (auto simp: in_set_conv_nth nth_list_update)

lemma at_disk_settled:
  assumes "jobs_inv (s, js)" "i \<in> on_disk (s, js)"
  shows "settled s i"
  using assms by (auto simp: jobs_inv_def on_disk_def settled_def in_set_conv_nth)

lemma on_disk_not_held:
  assumes inv: "jobs_inv (s, js)" and th: "th < length js" "elsewhere (js ! th)" and i: "i \<in> on_disk (s, js)"
  shows "held (js ! th) \<noteq> Some i"
proof
  assume h: "held (js ! th) = Some i"
  then have "i \<in> set (ongoingPieces s)" using inv th(1) by (cases "js ! th") (auto simp: jobs_inv_def)
  then have "i \<notin> set (havePieces s)" using inv pm_coreD(3)[of s] by (auto simp: jobs_inv_def)
  then obtain k where k: "k < length js" "js ! k = Matched i" using i by (auto simp: on_disk_def in_set_conv_nth)
  then have "k \<noteq> th" using th(2) by auto
  with inv k(1) th(1) have "apart (js ! th) (js ! k)" by (simp add: jobs_inv_def all_apart_def)
  with k(2) h show False by (simp add: apart_def)
qed

lemma one_writer_only:
  assumes "one_writer js" "th < length js" "in_write (js ! th)" "Sought i \<in> set js"
  shows "js ! th = Sought i"
  using assms by (auto simp: one_writer_def in_set_conv_nth)

lemma put_written:
  assumes "put_pos f = p" "good f"
  shows "good (write_here d f)" "content (write_here d f) = overwrite p d (content f)"
  using assms by (simp_all add: write_here_def)

lemma file_inv_step:
  assumes inv: "file_inv x" and st: "serial_step x y"
  shows "file_inv y"
proof -
  from st obtain s js s' th j where x: "x = (s, js)" "y = (s', js[th := j])" "th < length js"
    "job_step (s, js ! th) (s', j)" and ow': "one_writer (js[th := j])"
    by (auto simp: serial_step_def apart_step_def elim: jobs_step.cases)
  have ji: "jobs_inv (s, js)" and ow: "one_writer js" and pf: "pieces_in_file (on_disk (s, js)) s"
    and gw: "0 \<le> piece_len s \<Longrightarrow> good (downloadedFile s) \<and> writing_at (s, js)"
    using inv by (simp_all add: file_inv_def x(1))
  have ji': "jobs_inv y" and ly: "same_layout s s'"
    using apart_step_inv(1,2)[of x y] ji st by (simp_all add: serial_step_def x(1,2))
  then have pl: "piece_len s' = piece_len s" by (simp add: same_layout_def)
  have c: "pm_core s" "job_ok s (js ! th)" using ji x(3) by (simp_all add: jobs_inv_def)
  have mem: "js ! th \<in> set js" using x(3) by simp
  have "pieces_in_file (on_disk y) s' \<and> (0 \<le> piece_len s' \<longrightarrow> good (downloadedFile s') \<and> writing_at y)"
    using x(4) c
  proof (cases rule: job_step_file)
    case (seek i)
    have "on_disk y = on_disk (s, js)"
      using seek x(3) by (auto simp: on_disk_def x(2) br_seek_def in_update)
    moreover have ix: "piece_index (store s ! i) = i"
      using seek(1) c core_ongoing[OF c(1), of i] by (simp add: piece_wf_def)
    moreover have nn: "\<not> int i * piece_len s < 0" if "0 \<le> piece_len s" using that by (simp add: not_less)
    moreover have "writing_at y" if "0 \<le> piece_len s"
    proof -
      have "k = i" if "Sought k \<in> set (js[th := j])" for k
        using one_writer_only[OF ow', of th k] that x(3) seek(2) by simp
      with gw[OF that] nn[OF that] show ?thesis
        by (auto simp: writing_at_def x(2) seek(3) br_seek_def seekp_def ix nat_mult_distrib)
    qed
    moreover have "good (seekp q f) \<Longrightarrow> good f \<and> content (seekp q f) = content f" for q f
      by (auto simp: seekp_def split: if_splits)
    ultimately show ?thesis using pf gw
      by (simp add: pieces_in_file_def seek(3) br_seek_def seekp_def)
  next
    case (put i)
    have d: "on_disk y = insert i (on_disk (s, js))"
    proof -
      have "Matched k \<in> set (js[th := j]) \<longleftrightarrow> k = i \<or> Matched k \<in> set js" for k
        using put(1,2) x(3) in_update[of th js "Matched k" j] set_update_memI[OF x(3), of j] by (cases "k = i") auto
      then show ?thesis by (auto simp: on_disk_def x(2) put(3) br_put_def)
    qed
    have w: "good (downloadedFile s') \<and> content (downloadedFile s')
        = overwrite (i * nat (piece_len s)) (piece_bytes (store s' ! i)) (content (downloadedFile s))"
      if "0 \<le> piece_len s"
    proof -
      have "put_pos (downloadedFile s) = i * nat (piece_len s)" "good (downloadedFile s)"
        using gw[OF that] mem put(1) by (auto simp: writing_at_def)
      from put_written[OF this] show ?thesis by (simp add: put(3) br_put_def)
    qed
    have "pieces_in_file (on_disk y) s'"
      unfolding d by (rule pieces_in_file_write[OF pf pl]) (use w gw put(3) in \<open>auto simp: br_put_def\<close>)
    moreover have "writing_at y"
    proof -
      have "Sought k \<notin> set (js[th := j])" for k
      proof
        assume "Sought k \<in> set (js[th := j])"
        then obtain n where n: "n < length js" "js[th := j] ! n = Sought k" by (auto simp: in_set_conv_nth)
        with put(2) x(3) have "n \<noteq> th" by auto
        with n ow x(3) put(1) show False by (auto simp: one_writer_def)
      qed
      then show ?thesis by (simp add: writing_at_def x(2))
    qed
    ultimately show ?thesis using w pl by simp
  next
    case (commit i)
    have "on_disk y = on_disk (s, js)"
    proof -
      have "k \<in> on_disk y \<longleftrightarrow> k \<in> on_disk (s, js)" for k
        using commit x(3) in_update[of th js "Matched k" j] mem by (cases "k = i") (simp_all add: on_disk_def x(2) br_commit_def)
      then show ?thesis by blast
    qed
    moreover have "Sought k \<in> set (js[th := j]) \<longleftrightarrow> Sought k \<in> set js" for k
      using commit(1,2) x(3) by (simp add: in_update)
    ultimately show ?thesis using pf gw
      by (simp add: pieces_in_file_def writing_at_def x(2) commit(3) br_commit_def)
  next
    case other
    have e: "y' \<in> set (js[th := j]) \<longleftrightarrow> y' \<in> set js" if "\<not> elsewhere y'" for y'
      using other(1,2) that x(3) by (intro in_update) auto
    then have d: "on_disk y = on_disk (s, js)" by (simp add: on_disk_def x(2) other(3))
    have "pieces_in_file (on_disk y) s'"
      unfolding d using pf other(4) pl
      by (rule pieces_in_file_same) (use other(5) at_disk_settled[OF ji] on_disk_not_held[OF ji x(3) other(1)] in blast)
    with gw e show ?thesis by (simp add: writing_at_def x(2) other(4) pl)
  qed
  with ji' ow' show ?thesis by (simp add: file_inv_def x(2))
qed

text \<open>The start of a download with a positive size and a file that could be opened.\<close>

definition sized_start :: "torrent_file \<Rightarrow> pmanager \<times> job list \<Rightarrow> bool" where
  "sized_start t x \<longleftrightarrow> jobs_start t x \<and> PieceManager True t = Inr (fst x) \<and> (\<exists>tot. getTotalFileSize t = Inr tot \<and> 0 < tot)"

interpretation files: invariant_system "sized_start t" serial_step file_inv
proof
  fix x assume a: "sized_start t x"
  then obtain tot where t: "getTotalFileSize t = Inr tot" "0 < tot" by (auto simp: sized_start_def)
  have idle: "set (snd x) \<subseteq> {Idle}" and pm: "PieceManager True t = Inr (fst x)" and js: "jobs_start t x"
    using a by (auto simp: sized_start_def jobs_start_def)
  have g: "good (downloadedFile (fst x)) \<and> havePieces (fst x) = []"
    using pm by (rule PieceManager_store) (use t in \<open>simp add: seek_write_eq\<close>)
  have "js ! k = Idle" if "set js \<subseteq> {Idle}" "k < length js" for js and k :: nat
    using that nth_mem by blast
  then have "one_writer (snd x)" using idle by (simp add: one_writer_def)
  moreover have "on_disk x = {}" "writing_at x" using g idle by (auto simp: on_disk_def writing_at_def)
  ultimately show "file_inv x" using g jobs.inv_init[OF js] by (simp add: file_inv_def pieces_in_file_def)
qed (use file_inv_step in blast)

text \<open>
  C7. The file under the threads: in every interleaving in which no two threads are in \<open>blockReceived\<close> for the same piece
  and no two are between the two calls of \<open>write\<close>, the file holds the data of every piece had at its place, if it could be
  opened, the total size is positive, the piece length is not negative and no piece that was written or is about to be is longer than it.
  (Torrents that the program reads itself have no positive total size: \<open>nothing_is_written\<close>.)
\<close>

theorem threads_fill_the_file:
  assumes "PieceManager True t = Inr s0" "serial_step\<^sup>*\<^sup>* (s0, replicate n Idle) (s, js)"
    and "getTotalFileSize t = Inr tot" "0 < tot" "0 \<le> piece_len s"
    and "\<forall>i. i \<in> set (havePieces s) \<or> Matched i \<in> set js \<longrightarrow> int (length (piece_bytes (store s ! i))) \<le> piece_len s"
    and "i \<in> set (havePieces s)"
  shows "take (length (piece_bytes (store s ! i))) (drop (i * nat (piece_len s)) (content (downloadedFile s)))
    = piece_bytes (store s ! i)"
proof -
  have "sized_start t (s0, replicate n Idle)" using assms(1,3,4) by (auto simp: sized_start_def jobs_start_def intro: pm_startI)
  from files.inv_reachable[OF this assms(2)] have "file_inv (s, js)" .
  with assms(5-7) show ?thesis by (auto simp: file_inv_def pieces_in_file_def on_disk_def)
qed


text \<open>The run of two threads of which one downloads the only piece.\<close>

lemma serial_alone: "job_step\<^sup>*\<^sup>* (s, j) (s', j') \<Longrightarrow> serial_step\<^sup>*\<^sup>* (s, [j, Idle]) (s', [j', Idle])"
proof (induction rule: rtranclp_induct2)
  case (step u x v y)
  have "one_writer [y, Idle]" by (auto simp: one_writer_def less_Suc_eq)
  with alone_step[OF step(2)] have "serial_step (u, [x, Idle]) (v, [y, Idle])" by (simp add: serial_step_def)
  with step.IH show ?case by (rule rtranclp.rtrancl_into_rtrancl)
qed simp

lemma threads_fill_the_file_witness:
  "take 3 (content (downloadedFile ex3)) = ''abc'' \<and> piece_bytes (store ex3 ! 0) = ''abc''"
proof -
  have run: "serial_step\<^sup>*\<^sup>* (ex0, replicate 2 Idle) (ex3, [Idle, Idle])"
    using serial_alone[OF ex_job_steps] by (simp add: numeral_2_eq_2)
  have tot: "getTotalFileSize ex_torrent = Inr 3" by (simp add: getTotalFileSize_def ex_torrent_def)
  have b: "piece_bytes (store ex3 ! 0) = ''abc''" by (simp add: piece_bytes_def ex_defs)
  have "0 \<le> piece_len ex3" "havePieces ex3 = [0]" "piece_len ex3 = 16384" by (simp_all add: ex_defs)
  with threads_fill_the_file[OF ex_constructed run tot, of 0] b show ?thesis by (simp add: numeral_3_eq_3)
qed

section \<open>Two threads in \<open>write\<close>\<close>

lemma apart_step_left:
  "job_step (s, x) (s', x') \<Longrightarrow> apart x' y \<Longrightarrow> apart y x' \<Longrightarrow> apart_step (s, [x, y]) (s', [x', y])"
  using jobs_step.intros[of 0 "[x, y]" s s' x'] by (auto simp: apart_step_def all_apart_def less_Suc_eq)

lemma apart_step_right:
  "job_step (s, y) (s', y') \<Longrightarrow> apart x y' \<Longrightarrow> apart y' x \<Longrightarrow> apart_step (s, [x, y]) (s', [x, y'])"
  using jobs_step.intros[of 1 "[x, y]" s s' y'] by (auto simp: apart_step_def all_apart_def less_Suc_eq)

text \<open>A thread that delivers the block that completes its piece with the right hash.\<close>

lemma deliver:
  assumes c: "pm_core s" and j: "j \<in> set (ongoingPieces s)" and a: "a < length (piece_blocks (store s ! j))"
    and v: "verified (put_block a d (store s ! j))"
  obtains s1 s2 where "job_step (s, Idle) (s1, Found j (a * 16384) d)" "job_step (s1, Found j (a * 16384) d) (s2, Verified j)"
    "pm_core s2" "store s2 = (store s)[j := put_block a d (store s ! j)]" "ongoingPieces s2 = ongoingPieces s"
    "havePieces s2 = havePieces s" "totalPieces s2 = totalPieces s" "piece_len s2 = piece_len s"
    "downloadedFile s2 = downloadedFile s"
proof -
  define s1 where "s1 = fst (br_find j (a * 16384) s)"
  define s2 where "s2 = s1\<lparr>store := (store s)[j := put_block a d (store s ! j)]\<rparr>"
  obtain x where f: "br_find j (a * 16384) s = (s1, x)" by (cases "br_find j (a * 16384) s") (simp add: s1_def)
  note o = find_ongoing[OF c f]
  have s1: "store s1 = store s" "ongoingPieces s1 = ongoingPieces s" "havePieces s1 = havePieces s"
    "totalPieces s1 = totalPieces s" "piece_len s1 = piece_len s" "downloadedFile s1 = downloadedFile s"
    by (subst o(1), simp)+
  have e: "job_step (s, Idle) (s1, Found j (a * 16384) d)" using f o(2) j by (auto intro: job_step.enter)
  have c1: "pm_core s1" using job_step_result[OF e c] by (simp add: job_result_def)
  have w: "piece_wf j (store s1 ! j)" using core_ongoing[OF c j] s1(1) by simp
  have "br_check j (a * 16384) d s1 = (s2, Inr True)"
    using br_check_cases[OF w, of "a * 16384" d] a v by (simp add: s1(1) s2_def verified_def not_le)
  then have k: "job_step (s1, Found j (a * 16384) d) (s2, Verified j)" by (rule job_step.checked)
  have "pm_core s2" using job_step_result[OF k c1] j s1(2) by (simp add: job_result_def)
  with e k show thesis by (rule that) (simp_all add: s2_def s1)
qed

lemma seek_twice:
  assumes "good f" "0 \<le> q" "0 \<le> p"
  shows "content (write_here e (write_here d (seekp p (seekp q f))))
    = overwrite (nat p + length d) e (overwrite (nat p) d (content f))"
  using assms by (simp add: seekp_def write_here_def)

lemma length_overwrite_here: "d \<noteq> [] \<Longrightarrow> p + length d \<le> length (overwrite p d c)"
  by (simp add: overwrite_def)

lemma overwrite_next: "take (length d) (drop p (overwrite (p + length d) e (overwrite p d c))) = d"
  using overwrite_elsewhere[of p "length d" "p + length d" e "overwrite p d c"] overwrite_here[of d p c]
    length_overwrite_here[of d p c] by (cases "d = []") simp_all

lemma overwrite_before: "p \<le> q \<Longrightarrow> p \<le> length c \<Longrightarrow> take p (overwrite q d c) = take p c"
  using overwrite_elsewhere[of 0 p q d c] by simp

text \<open>
  C26. The race in \<open>write\<close>: two threads that complete different pieces at the same time can both call \<open>seekp\<close>
  before either writes. The data of the first piece are then written at the place of the second, and those of the second behind
  them; both pieces are verified and counted as had, so that the download can end as complete with a wrong file.
\<close>

theorem writes_collide:
  assumes c: "pm_wf s" and j: "j \<in> set (ongoingPieces s)" and k: "k \<in> set (ongoingPieces s)" and jk: "j \<noteq> k"
    and a: "a < length (piece_blocks (store s ! j))" "verified (put_block a d (store s ! j))"
    and b: "b < length (piece_blocks (store s ! k))" "verified (put_block b e (store s ! k))"
    and f: "good (downloadedFile s)" "0 \<le> piece_len s"
  shows "\<exists>s'. apart_step\<^sup>*\<^sup>* (s, [Idle, Idle]) (s', [Idle, Idle]) \<and>
    havePieces s' = havePieces s @ [j, k] \<and> (isComplete s' \<longleftrightarrow> length (havePieces s) + 2 = totalPieces s) \<and>
    verified (store s' ! j) \<and> verified (store s' ! k) \<and>
    piece_bytes (store s' ! j) = piece_bytes (put_block a d (store s ! j)) \<and>
    piece_bytes (store s' ! k) = piece_bytes (put_block b e (store s ! k)) \<and>
    take (length (piece_bytes (store s' ! j))) (drop (k * nat (piece_len s)) (content (downloadedFile s')))
      = piece_bytes (store s' ! j) \<and>
    (k * nat (piece_len s) \<le> length (content (downloadedFile s)) \<longrightarrow>
      take (k * nat (piece_len s)) (content (downloadedFile s'))
        = take (k * nat (piece_len s)) (content (downloadedFile s)))"
proof -
  let ?p = "put_block a d (store s ! j)" and ?q = "put_block b e (store s ! k)"
  let ?fj = "Found j (a * 16384) d" and ?fk = "Found k (b * 16384) e"
  note core = pm_wf_core[OF c]
  have l: "j < length (store s)" "k < length (store s)"
    using core_ongoing[OF core j] core_ongoing[OF core k] pm_coreD(1)[OF core] by simp_all
  obtain s1 s2 where 1: "job_step (s, Idle) (s1, ?fj)" "job_step (s1, ?fj) (s2, Verified j)" "pm_core s2"
    "store s2 = (store s)[j := ?p]" "ongoingPieces s2 = ongoingPieces s" "havePieces s2 = havePieces s"
    "totalPieces s2 = totalPieces s" "piece_len s2 = piece_len s" "downloadedFile s2 = downloadedFile s"
    by (rule deliver[OF core j a])
  have sk: "store s2 ! k = store s ! k" using 1(4) jk by simp
  obtain s3 s4 where 2: "job_step (s2, Idle) (s3, ?fk)" "job_step (s3, ?fk) (s4, Verified k)" "pm_core s4"
    "store s4 = (store s2)[k := ?q]" "ongoingPieces s4 = ongoingPieces s2" "havePieces s4 = havePieces s2"
    "totalPieces s4 = totalPieces s2" "piece_len s4 = piece_len s2" "downloadedFile s4 = downloadedFile s2"
    using deliver[OF 1(3), of k b e] k b 1(5) sk by metis
  define s6 where "s6 = br_seek k (br_seek j s4)"
  define s8 where "s8 = br_put (piece_bytes ?q) (br_put (piece_bytes ?p) s6)"
  define s' where "s' = br_commit k (br_commit j s8)"
  have st: "store s6 = store s4" "store s8 = store s4" "store s' = store s4"
    by (simp_all add: s6_def s8_def s'_def br_seek_def br_put_def br_commit_def)
  have pq: "store s4 ! j = ?p" "store s4 ! k = ?q" using 1(4) 2(4) jk l by simp_all
  have ix: "piece_index (store s4 ! k) = k" "piece_index (store s4 ! j) = j"
    using core_ongoing[OF 2(3), of k] core_ongoing[OF 2(3), of j] j k 1(5) 2(5) by (simp_all add: piece_wf_def)
  have d1: "piece_data (store s6 ! j) = Inr (piece_bytes ?p)"
    using a(2) by (simp add: st pq piece_data_def piece_bytes_def verified_def)
  have d2: "piece_data (store (br_put (piece_bytes ?p) s6) ! k) = Inr (piece_bytes ?q)"
    using b(2) by (simp add: br_put_def st pq piece_data_def piece_bytes_def verified_def)
  have ap: "apart x y" if "held x \<in> {None, Some j}" "held y \<in> {None, Some k}" for x y
    using that jk by (auto simp: apart_def)
  have ap': "apart y x" if "held x \<in> {None, Some j}" "held y \<in> {None, Some k}" for x y
    using that jk by (auto simp: apart_def)
  note left = apart_step_left[OF _ ap ap'] and right = apart_step_right[OF _ ap ap']
  have "apart_step (s, [Idle, Idle]) (s1, [?fj, Idle])" by (rule left[OF 1(1)]) simp_all
  moreover have "apart_step (s1, [?fj, Idle]) (s2, [Verified j, Idle])" by (rule left[OF 1(2)]) simp_all
  moreover have "apart_step (s2, [Verified j, Idle]) (s3, [Verified j, ?fk])" by (rule right[OF 2(1)]) simp_all
  moreover have "apart_step (s3, [Verified j, ?fk]) (s4, [Verified j, Verified k])" by (rule right[OF 2(2)]) simp_all
  moreover have "apart_step (s4, [Verified j, Verified k]) (br_seek j s4, [Sought j, Verified k])"
    by (rule left[OF job_step.seek]) simp_all
  moreover have "apart_step (br_seek j s4, [Sought j, Verified k]) (s6, [Sought j, Sought k])"
    unfolding s6_def by (rule right[OF job_step.seek]) simp_all
  moreover have "apart_step (s6, [Sought j, Sought k]) (br_put (piece_bytes ?p) s6, [Matched j, Sought k])"
    by (rule left[OF job_step.put[OF d1]]) simp_all
  moreover have "apart_step (br_put (piece_bytes ?p) s6, [Matched j, Sought k]) (s8, [Matched j, Matched k])"
    unfolding s8_def by (rule right[OF job_step.put[OF d2]]) simp_all
  moreover have "apart_step (s8, [Matched j, Matched k]) (br_commit j s8, [Idle, Matched k])"
    by (rule left[OF job_step.commit]) simp_all
  moreover have "apart_step (br_commit j s8, [Idle, Matched k]) (s', [Idle, Idle])"
    unfolding s'_def by (rule right[OF job_step.commit]) simp_all
  ultimately have run: "apart_step\<^sup>*\<^sup>* (s, [Idle, Idle]) (s', [Idle, Idle])"
    by (meson converse_rtranclp_into_rtranclp rtranclp.rtrancl_refl)
  have nn: "0 \<le> int k * piece_len s" "0 \<le> int j * piece_len s" using f(2) by simp_all
  have "content (downloadedFile s') = overwrite (k * nat (piece_len s) + length (piece_bytes ?p)) (piece_bytes ?q)
      (overwrite (k * nat (piece_len s)) (piece_bytes ?p) (content (downloadedFile s)))"
    using seek_twice[OF f(1) nn(2,1), of "piece_bytes ?q" "piece_bytes ?p"]
    by (simp add: s'_def br_commit_def s8_def br_put_def s6_def br_seek_def ix 1 2(8,9) nat_mult_distrib)
  moreover have "havePieces s' = havePieces s @ [j, k]" "totalPieces s' = totalPieces s"
    by (simp_all add: s'_def br_commit_def s8_def br_put_def s6_def br_seek_def 1 2(6,7))
  moreover have "n \<le> length c \<Longrightarrow> take n (overwrite (n + m) v (overwrite n u c)) = take n c" for n m u v c
    using overwrite_before[of n n c u] overwrite_before[of n "n + m" "overwrite n u c" v]
    by (simp add: overwrite_def split: if_splits)
  ultimately show ?thesis using run a(2) b(2) by (intro exI[of _ s']) (simp add: st pq overwrite_next isComplete_def)
qed


text \<open>Two pieces that two threads complete: the second is had, and the file holds the first in its place.\<close>

definition two_torrent :: torrent_file where
  "two_torrent = \<lparr>announce = [], announceList = [], createdBy = None, creationDate = None,
     info = \<lparr>files = [\<lparr>length_of = Some 20000, path = [''a'']\<rparr>], info_name = ''a'',
             pieceLength = Some 16384, pieces = fips_sha1 ''abc'' @ fips_sha1 ''xyz''\<rparr>\<rparr>"

definition two_piece :: "nat \<Rightarrow> bytes \<Rightarrow> int \<Rightarrow> block_status \<Rightarrow> piece" where
  "two_piece i d n st = \<lparr>piece_index = i, piece_hash = fips_sha1 d,
     piece_blocks = [\<lparr>blk_piece = i, blk_offset = 0, blk_length = n, blk_status = st, blk_data = []\<rparr>]\<rparr>"

definition two_state :: "nat list \<Rightarrow> nat list \<Rightarrow> block_status \<Rightarrow> block_status \<Rightarrow> (string, bytes) smap \<Rightarrow> pmanager" where
  "two_state ms os st st' ps = \<lparr>peers = ps, store = [two_piece 0 ''abc'' 16384 st, two_piece 1 ''xyz'' 3616 st'],
     missingPieces = ms, ongoingPieces = os, havePieces = [], pendingRequests = [],
     downloadedFile = seek_write 19999 [char_of (0::nat)] \<lparr>content = [], good = True, put_pos = 0\<rparr>,
     piece_len = 16384, totalPieces = 2, piecesDownloadedInInterval = 0\<rparr>"

lemma two_start: "pm_start two_torrent (two_state [0, 1] [] missing missing [])"
proof -
  have "splitPieceHashes (fips_sha1 ''abc'' @ fips_sha1 ''xyz'') = [fips_sha1 ''abc'', fips_sha1 ''xyz'']"
    using splitPieceHashes_20[of "fips_sha1 ''abc''" "fips_sha1 ''xyz''"] splitPieceHashes_20[of "fips_sha1 ''xyz''" "[]"] by simp
  then show ?thesis
    by (intro pm_startI[of True]) (simp add: PieceManager_def two_torrent_def initiatePieces_def getTotalFileSize_def
        block_params_def make_blocks_def ceil_int_def int_max_def block_size_def signed_modulo_int_def signed_divide_int_def
        two_state_def two_piece_def numeral_2_eq_2)
qed

lemma two_requests:
  "nextRequest ''P'' 0 (two_state [0, 1] [] missing missing [(''P'', [CHR 0xC0])])
     = Inr (Some (0, 0), two_state [1] [0] pending missing [(''P'', [CHR 0xC0])])"
  "nextRequest ''P'' 0 (two_state [1] [0] pending missing [(''P'', [CHR 0xC0])])
     = Inr (Some (1, 0), two_state [] [0, 1] pending pending [(''P'', [CHR 0xC0])])"
  by (simp_all add: nextRequest_def nextOngoing_def request_rarest_def getRarestPiece_def next_request_def
      INT16_MAX_def map_get_def hasPiece_def drop_bit_eq_div two_state_def two_piece_def)

definition two_both :: pmanager where
  "two_both = two_state [] [0, 1] pending pending [(''P'', [CHR 0xC0])]"

lemma two_both_wf: "pm_wf two_both"
proof -
  have "addPeer ''P'' [CHR 0xC0] (two_state [0, 1] [] missing missing []) = two_state [0, 1] [] missing missing [(''P'', [CHR 0xC0])]"
    by (simp add: addPeer_def two_state_def)
  with pm_step.add[of "''P''" "[CHR 0xC0]" "two_state [0, 1] [] missing missing []"]
  have "pm_run (two_state [0, 1] [] missing missing []) (two_state [0, 1] [] missing missing [(''P'', [CHR 0xC0])])"
    using pm_run_step[OF pm_run_refl] by simp
  from run_wf[OF two_start pm_run_step[OF pm_run_step[OF this pm_step.request[OF two_requests(1)]] pm_step.request[OF two_requests(2)]]]
  show ?thesis by (simp add: two_both_def)
qed

lemma writes_collide_witness:
  "\<exists>s'. apart_step\<^sup>*\<^sup>* (two_both, [Idle, Idle]) (s', [Idle, Idle]) \<and> isComplete s' \<and>
     piece_bytes (store s' ! 1) = ''xyz'' \<and> take 3 (drop 16384 (content (downloadedFile s'))) = ''abc''"
proof -
  have two: "0 \<in> set (ongoingPieces two_both)" "1 \<in> set (ongoingPieces two_both)" "0 \<noteq> (1::nat)"
    "0 < length (piece_blocks (store two_both ! 0))" "0 < length (piece_blocks (store two_both ! 1))"
    "verified (put_block 0 ''abc'' (store two_both ! 0))" "verified (put_block 0 ''xyz'' (store two_both ! 1))"
    "good (downloadedFile two_both)" "0 \<le> piece_len two_both" "length (havePieces two_both) + 2 = totalPieces two_both"
    "piece_bytes (put_block 0 ''abc'' (store two_both ! 0)) = ''abc''"
    "piece_bytes (put_block 0 ''xyz'' (store two_both ! 1)) = ''xyz''" "piece_len two_both = 16384"
    by (simp_all add: two_both_def two_state_def two_piece_def verified_iff put_block_def is_complete_def piece_bytes_def seek_write_eq)
  from writes_collide[OF two_both_wf two(1-4) two(6,5,7-9)] two(10-13) show ?thesis by (auto simp: numeral_3_eq_3)
qed

end
