(* ===== verification/PeerConnection.thy ===== *)
theory PeerConnection
  imports Wire Download SharedQueue
begin

text \<open>
  \<open>src/network_part/PeerConnection.cpp\<close>: one connection thread. The record holds the
  members of the class, the piece manager it shares, and the two directions of its
  socket. A handler returns the state it reached together with its result, because an
  exception leaves the members as they are. Here the thread is alone on its piece manager; Threads has
  it among the others, which act between any two of its critical sections, and shows that each of its lives here is one there.
  A peer taken from the queue has the values it was pushed with, although \<open>start\<close> reads it through the reference that
  \<open>pop_front\<close> returns to a destroyed element (\<open>shared_queue_fifo\<close>); what it would do with other values is not modelled.
\<close>

record pconn =
  sock :: int
  choked :: bool
  terminated :: bool
  requestPending :: bool
  clientId :: bytes
  infoHash :: bytes
  peer_ip :: string
  peerBitField :: bytes
  peerId :: bytes
  manager :: pmanager
  incoming :: "arrival list"
  outgoing :: out_channel
  calls :: nat                      \<comment> \<open>how often the clock was read\<close>

type_synonym 'a io = "pconn \<times> 'a res"

definition io_bind :: "'a io \<Rightarrow> ('a \<Rightarrow> pconn \<Rightarrow> 'b io) \<Rightarrow> 'b io" where
  "io_bind m f = (case m of (c, Inl e) \<Rightarrow> (c, Inl e) | (c, Inr x) \<Rightarrow> f x c)"

lemma io_bind_simps [simp]:
  "io_bind (c, Inl e) f = (c, Inl e)"
  "io_bind (c, Inr x) f = f x c"
  by (simp_all add: io_bind_def)

definition lift_res :: "pconn \<Rightarrow> 'a res \<Rightarrow> 'a io" where
  "lift_res c r = (c, r)"

section \<open>Sending and receiving\<close>

definition pc_send :: "bytes \<Rightarrow> pconn \<Rightarrow> unit io" where
  "pc_send data c =
     (case sendData data (outgoing c) of
        Inl e \<Rightarrow> (c, Inl e)
      | Inr ch \<Rightarrow> (c\<lparr>outgoing := ch\<rparr>, Inr ()))"

definition pc_receiveMessage :: "pconn \<Rightarrow> message io" where
  "pc_receiveMessage c =
     (case receiveMessage (sock c) (incoming c) of
        Inl e \<Rightarrow> (c, Inl e)
      | Inr (m, is) \<Rightarrow> (c\<lparr>incoming := is\<rparr>, Inr m))"

section \<open>The handshake\<close>

definition protocol :: bytes where
  "protocol = ''BitTorrent protocol''"

definition createHandshakeMessage :: "pconn \<Rightarrow> bytes res" where
  "createHandshakeMessage c =
     (let buffer = [char_of (length protocol)] @ protocol @ replicate 8 (char_of (0::nat))
                     @ infoHash c @ clientId c
      in if length buffer = length protocol + 49 then Inr buffer else Inl Aborted)"

text \<open>
  \<open>performHandshake\<close>, over what \<open>createConnection\<close> meets. A failed \<open>createConnection\<close> is
  rethrown with a longer message; \<open>sock\<close> keeps its old value then.
\<close>

definition performHandshake :: "connect_env \<Rightarrow> pconn \<Rightarrow> unit io" where
  "performHandshake env c =
     (case fst (createConnection env) of
        Inl e \<Rightarrow> (c, Inl (RuntimeError ''Cannot connect to peer [''))
      | Inr s \<Rightarrow>
          (let c = c\<lparr>sock := s\<rparr> in
           io_bind (lift_res c (createHandshakeMessage c)) (\<lambda>handshakeMessage c.
           io_bind (pc_send handshakeMessage c) (\<lambda>_ c.
             case receiveData (sock c) 68 (incoming c) of
               Inl e \<Rightarrow> (c, Inl e)
             | Inr (reply, is) \<Rightarrow>
                 (let c = c\<lparr>incoming := is\<rparr> in
                  if reply = [] then (c, Inl (RuntimeError ''No response from peer''))
                  else if length reply < 48 then (c, Inl (RuntimeError ''Invalid handshake response length''))
                  else
                    io_bind (lift_res c (substr reply 48 20)) (\<lambda>pid c.
                    io_bind (lift_res (c\<lparr>peerId := pid\<rparr>) (substr reply 28 20)) (\<lambda>receivedInfoHash c.
                      if receivedInfoHash \<noteq> infoHash c
                      then (c, Inl (RuntimeError ''Mismatching info hash''))
                      else (c, Inr ()))))))))"

definition receiveBitField :: "pconn \<Rightarrow> unit io" where
  "receiveBitField c =
     io_bind (pc_receiveMessage c) (\<lambda>m c.
       if msg_id m \<noteq> bitField_id
       then (c, Inl (RuntimeError ''Receive BitField from peer: FAILED [Wrong message ID]''))
       else (c\<lparr>peerBitField := payload m, manager := addPeer (peerId c) (payload m) (manager c)\<rparr>, Inr ()))"

definition sendInterested :: "pconn \<Rightarrow> unit io" where
  "sendInterested c = pc_send (to_string (BitTorrentMessage interested [])) c"

definition receiveUnchoke :: "pconn \<Rightarrow> unit io" where
  "receiveUnchoke c =
     io_bind (pc_receiveMessage c) (\<lambda>m c.
       if msg_id m \<noteq> unchoke
       then (c, Inl (RuntimeError ''Receive Unchoke message from peer: FAILED [Wrong message ID: ''))
       else (c\<lparr>choked := False\<rparr>, Inr ()))"

text \<open>\<open>establishNewConnection\<close> turns every exception into \<open>false\<close>.\<close>

definition establishNewConnection :: "connect_env \<Rightarrow> pconn \<Rightarrow> bool io" where
  "establishNewConnection env c =
     (case io_bind (performHandshake env c) (\<lambda>_ c.
           io_bind (receiveBitField c) (\<lambda>_ c. sendInterested c)) of
        (c', Inr _) \<Rightarrow> (c', Inr True)
      | (c', Inl e) \<Rightarrow> if is_exception e then (c', Inr False) else (c', Inl e))"

section \<open>Requests and messages\<close>

definition request_payload :: "block \<Rightarrow> bytes" where
  "request_payload b =
     be32 (of_nat (blk_piece b)) @ be32 (of_nat (blk_offset b)) @ be32 (of_int (blk_length b))"

definition requestPiece :: "(nat \<Rightarrow> int) \<Rightarrow> pconn \<Rightarrow> unit io" where
  "requestPiece time c =
     (case nextRequest (peerId c) (time (calls c)) (manager c) of
        Inl e \<Rightarrow> (c, Inl e)
      | Inr (None, pm) \<Rightarrow> (c\<lparr>manager := pm, calls := Suc (calls c)\<rparr>, Inr ())
      | Inr (Some b, pm) \<Rightarrow>
          io_bind (pc_send (to_string (BitTorrentMessage request_id (request_payload (block_at pm b))))
                     (c\<lparr>manager := pm, calls := Suc (calls c)\<rparr>))
            (\<lambda>_ c. (c\<lparr>requestPending := True\<rparr>, Inr ())))"

text \<open>The \<open>switch\<close> of the message loop.\<close>

definition on_piece :: "bytes \<Rightarrow> pconn \<Rightarrow> unit io" where
  "on_piece p c0 =
     (let c = c0\<lparr>requestPending := False\<rparr> in
      io_bind (lift_res c (rbind (substr p 0 4) bytesToInt)) (\<lambda>index c.
      io_bind (lift_res c (rbind (substr p 4 4) bytesToInt)) (\<lambda>begn c.
      io_bind (lift_res c (substr_from p 8)) (\<lambda>blockData c.
        case blockReceived index begn blockData (manager c) of
          (pm, r) \<Rightarrow> (c\<lparr>manager := pm\<rparr>, r)))))"

definition dispatch :: "message \<Rightarrow> pconn \<Rightarrow> unit io" where
  "dispatch m c =
     (if msg_id m = choke then (c\<lparr>choked := True\<rparr>, Inr ())
      else if msg_id m = unchoke then (c\<lparr>choked := False\<rparr>, Inr ())
      else if msg_id m = piece_id then on_piece (payload m) c
      else if msg_id m = have_id then
        io_bind (lift_res c (bytesToInt (payload m))) (\<lambda>pieceIndex c.
          case updatePeer (peerId c) pieceIndex (manager c) of
            Inl e \<Rightarrow> (c, Inl e)
          | Inr pm \<Rightarrow> (c\<lparr>manager := pm\<rparr>, Inr ()))
      else if msg_id m = bitField_id then
        (c\<lparr>manager := addPeer (peerId c) (payload m) (manager c)\<rparr>, Inr ())
      else (c, Inr ()))"

definition handle_message :: "(nat \<Rightarrow> int) \<Rightarrow> message \<Rightarrow> pconn \<Rightarrow> unit io" where
  "handle_message time m c =
     (if 10 < msg_id m then (c, Inl (RuntimeError ''Received invalid message Id from peer ''))
      else
        io_bind (dispatch m c) (\<lambda>_ c.
          if \<not> choked c \<and> \<not> requestPending c then requestPiece time c else (c, Inr ())))"

definition closeSock :: "pconn \<Rightarrow> unit io" where
  "closeSock c =
     (if sock c = 0 then (c, Inr ())
      else
        (let c1 = c\<lparr>sock := 0, requestPending := False\<rparr> in
         if peerBitField c1 = [] then (c1, Inr ())
         else
           (let c2 = c1\<lparr>peerBitField := []\<rparr> in
            case removePeer (peerId c2) (manager c2) of
              Inl e \<Rightarrow> (c2, Inl e)
            | Inr pm \<Rightarrow> (c2\<lparr>manager := pm\<rparr>, Inr ()))))"

section \<open>The thread\<close>

text \<open>
  The message loop ends when the download is complete, or with an exception; it waits
  for ever (\<open>Blocks\<close>) when nothing more arrives. Every message takes something from what
  arrived.
\<close>

definition pending_input :: "arrival list \<Rightarrow> nat" where
  "pending_input is = sum_list (map (\<lambda>a. case a of Data bs \<Rightarrow> Suc (length bs) | _ \<Rightarrow> 1) is)"

lemma pending_input_simps [simp]:
  "pending_input [] = 0"
  "pending_input (Data bs # is) = Suc (length bs) + pending_input is"
  "pending_input (Closed # is) = Suc (pending_input is)"
  "pending_input (Failed # is) = Suc (pending_input is)"
  by (simp_all add: pending_input_def)

lemma sys_recv_pending: "sys_recv n is = Inr (r, is') \<Longrightarrow> 0 < n \<Longrightarrow> pending_input is' \<le> pending_input is"
  by (induction n "is" rule: sys_recv.induct) (auto split: if_splits)

lemma sys_recv_Got_pending: "sys_recv n is = Inr (Got bs, is') \<Longrightarrow> 0 < n \<Longrightarrow> pending_input is' < pending_input is"
  by (induction n "is" rule: sys_recv.induct) (auto split: if_splits)

lemma recv_loop_pending: "recv_loop n b is = Inr (x, is') \<Longrightarrow> pending_input is' \<le> pending_input is"
proof (induction n b "is" rule: recv_loop.induct)
  case (1 n b "is")
  show ?case
  proof (cases "length b < n")
    case True
    from "1.prems"[unfolded recv_loop.simps[of n b "is"]] True obtain r is1 where
      r: "sys_recv (n - length b) is = Inr (r, is1)"
      "(case r of Got bs \<Rightarrow> recv_loop n (b @ bs) is1
        | Zero \<Rightarrow> Inl (RuntimeError ''Connection closed by peer during message receive'')
        | Minus1 \<Rightarrow> Inl (RuntimeError ''Error receiving data: '')) = Inr (x, is')"
      by (auto simp: rbind_Inr_iff)
    show ?thesis
    proof (cases r)
      case (Got bs)
      with r have "recv_loop n (b @ bs) is1 = Inr (x, is')" by simp
      from "1.IH"[OF True r(1) refl Got this] sys_recv_pending[OF r(1)] True show ?thesis by simp
    qed (use r in simp_all)
  qed (use "1.prems" in \<open>simp add: recv_loop.simps\<close>)
qed

lemma recv_sized_pending: "recv_sized n is = Inr (x, is') \<Longrightarrow> pending_input is' \<le> pending_input is"
  using recv_loop_pending by (auto simp: recv_sized_def split: if_splits)

lemma receiveData_pending:
  assumes "receiveData s 0 is = Inr (x, is')"
  shows "pending_input is' < pending_input is"
proof -
  from assms obtain r is1 where r: "sys_recv 4 is = Inr (r, is1)"
    by (auto simp: receiveData_def rbind_Inr_iff split: if_splits)
  show ?thesis
  proof (cases r)
    case (Got bs)
    with sys_recv_Got_pending[of 4 "is" bs is1] r have lt: "pending_input is1 < pending_input is" by simp
    from assms r Got have "is' = is1 \<or> (\<exists>n. recv_sized n is1 = Inr (x, is'))"
      by (auto simp: receiveData_def Let_def split: if_splits)
    with lt recv_sized_pending show ?thesis by fastforce
  qed (use assms r in \<open>auto simp: receiveData_def split: if_splits\<close>)
qed

lemma receiveMessage_pending: "receiveMessage s is = Inr (m, is') \<Longrightarrow> pending_input is' < pending_input is"
  by (auto simp: receiveMessage_def rbind_Inr_iff split: if_splits dest: receiveData_pending)

section \<open>What a handler changes\<close>

lemma pc_send_effect:
  assumes "pc_send d c = (c', r)"
  shows "\<exists>ch. c' = c\<lparr>outgoing := ch\<rparr>"
    and "d \<noteq> [] \<Longrightarrow> answers (outgoing c) = [] \<Longrightarrow> sent (outgoing c') = sent (outgoing c) @ d"
    and "\<not> is_ok r \<Longrightarrow> c' = c"
proof -
  have "c = c\<lparr>outgoing := outgoing c\<rparr>" by simp
  then have "\<exists>ch. c = c\<lparr>outgoing := ch\<rparr>" by blast
  with assms show "\<exists>ch. c' = c\<lparr>outgoing := ch\<rparr>"
    by (cases "sendData d (outgoing c)") (auto simp: pc_send_def)
  show "d \<noteq> [] \<Longrightarrow> answers (outgoing c) = [] \<Longrightarrow> sent (outgoing c') = sent (outgoing c) @ d"
    using assms by (auto simp: pc_send_def sendData_def)
  show "\<not> is_ok r \<Longrightarrow> c' = c" using assms by (auto simp: pc_send_def split: sum.splits)
qed

text \<open>\<open>moved c c'\<close>: only the flags, the manager (by its own steps), the output and the clock.\<close>

definition moved :: "pconn \<Rightarrow> pconn \<Rightarrow> bool" where
  "moved c c' \<longleftrightarrow> pm_run (manager c) (manager c') \<and>
     c' = c\<lparr>manager := manager c', outgoing := outgoing c', requestPending := requestPending c',
            choked := choked c', calls := calls c'\<rparr>"

lemma moved_refl [simp]: "moved c c"
  by (simp add: moved_def)

lemma pm_run_trans: "pm_run a b \<Longrightarrow> pm_run b c \<Longrightarrow> pm_run a c"
  unfolding pm_run_def by (rule rtranclp_trans)

lemma moved_trans:
  assumes "moved a b" "moved b c"
  shows "moved a c"
proof -
  have b: "b = a\<lparr>manager := manager b, outgoing := outgoing b, requestPending := requestPending b,
      choked := choked b, calls := calls b\<rparr>" and c: "c = b\<lparr>manager := manager c, outgoing := outgoing c,
      requestPending := requestPending c, choked := choked c, calls := calls c\<rparr>"
    using assms by (auto simp: moved_def)
  have "c = a\<lparr>manager := manager c, outgoing := outgoing c, requestPending := requestPending c,
      choked := choked c, calls := calls c\<rparr>"
    by (subst c, subst b) simp
  with assms show ?thesis unfolding moved_def using pm_run_trans by blast
qed

lemma moved_frame:
  assumes "moved c c'"
  shows "incoming c' = incoming c" "sock c' = sock c" "peerId c' = peerId c" "peerBitField c' = peerBitField c"
    "clientId c' = clientId c" "infoHash c' = infoHash c" "terminated c' = terminated c" "peer_ip c' = peer_ip c"
proof -
  have c: "c' = c\<lparr>manager := manager c', outgoing := outgoing c', requestPending := requestPending c',
      choked := choked c', calls := calls c'\<rparr>" using assms by (simp add: moved_def)
  show "incoming c' = incoming c" "sock c' = sock c" "peerId c' = peerId c" "peerBitField c' = peerBitField c"
    "clientId c' = clientId c" "infoHash c' = infoHash c" "terminated c' = terminated c" "peer_ip c' = peer_ip c"
    by (subst c, simp)+
qed

lemma run_received: "blockReceived i off d s = (s', r) \<Longrightarrow> pm_run s s'"
  using pm_run_step[OF pm_run_refl pm_step.received] .

lemma on_piece_effect:
  assumes "on_piece p c = (c', r)"
  shows "moved c c'" "\<not> requestPending c'" "outgoing c' = outgoing c" "choked c' = choked c"
proof -
  define c1 where "c1 = c\<lparr>requestPending := False\<rparr>"
  have same: "c1 = c1\<lparr>manager := manager c\<rparr>" by (simp add: c1_def)
  note op = assms[unfolded on_piece_def lift_res_def Let_def, folded c1_def]
  obtain pm where "c' = c1\<lparr>manager := pm\<rparr>" "pm_run (manager c) pm"
  proof (cases "rbind (substr p 0 4) bytesToInt")
    case (Inl e)
    with op that[of "manager c"] same show thesis by simp
  next
    case i: (Inr i)
    show thesis
    proof (cases "rbind (substr p 4 4) bytesToInt")
      case (Inl e)
      with op i that[of "manager c"] same show thesis by simp
    next
      case b: (Inr b)
      show thesis
      proof (cases "substr_from p 8")
        case (Inl e)
        with op i b that[of "manager c"] same show thesis by simp
      next
        case (Inr d)
        obtain pm x where br: "blockReceived i b d (manager c) = (pm, x)" by fastforce
        with op i b Inr that[of pm] run_received[OF br] show thesis by (simp add: c1_def)
      qed
    qed
  qed
  then show "moved c c'" "\<not> requestPending c'" "outgoing c' = outgoing c" "choked c' = choked c"
    by (simp_all add: moved_def c1_def)
qed

lemma dispatch_effect:
  assumes "dispatch m c = (c', r)"
  shows "moved c c' \<and> outgoing c' = outgoing c \<and>
    (requestPending c' = (requestPending c \<and> msg_id m \<noteq> piece_id))"
proof (cases "msg_id m = piece_id")
  case True
  then have "on_piece (payload m) c = (c', r)" using assms by (simp add: dispatch_def message_ids)
  from on_piece_effect[OF this] True show ?thesis by simp
next
  case np: False
  have run: "updatePeer p i s = Inr s' \<Longrightarrow> pm_run s s'" "pm_run s (addPeer p bf s)" for p i s s' bf
    by (erule pm_run_step[OF pm_run_refl pm_step.update], rule pm_run_step[OF pm_run_refl pm_step.add])
  show ?thesis
  proof (cases "msg_id m = have_id")
    case True
    show ?thesis
    proof (cases "bytesToInt (payload m)")
      case (Inr i)
      with assms True np show ?thesis
        by (cases "updatePeer (peerId c) i (manager c)")
          (auto simp: dispatch_def message_ids lift_res_def moved_def run(1))
    qed (use assms True np in \<open>auto simp: dispatch_def message_ids lift_res_def\<close>)
  next
    case False
    with assms np run(2) show ?thesis
      by (auto simp: dispatch_def moved_def split: if_splits)
  qed
qed

lemma requestPiece_effect:
  assumes "requestPiece time c = (c', r)"
  shows "moved c c'" "choked c' = choked c"
    and "sent (outgoing c') \<noteq> sent (outgoing c) \<Longrightarrow> requestPending c' \<and> r = Inr () \<and>
      (\<exists>b. nextRequest (peerId c) (time (calls c)) (manager c) = Inr (Some b, manager c') \<and>
        (answers (outgoing c) = [] \<longrightarrow> sent (outgoing c') = sent (outgoing c) @
           to_string (BitTorrentMessage request_id (request_payload (block_at (manager c') b)))))"
    and "requestPending c \<Longrightarrow> requestPending c'"
proof -
  have run: "nextRequest p now s = Inr (x, s') \<Longrightarrow> pm_run s s'" for p now s x s'
    using pm_run_step[OF pm_run_refl pm_step.request] .
  have "moved c c' \<and> choked c' = choked c \<and> (requestPending c \<longrightarrow> requestPending c') \<and>
    (sent (outgoing c') \<noteq> sent (outgoing c) \<longrightarrow> requestPending c' \<and> r = Inr () \<and>
      (\<exists>b. nextRequest (peerId c) (time (calls c)) (manager c) = Inr (Some b, manager c') \<and>
        (answers (outgoing c) = [] \<longrightarrow> sent (outgoing c') = sent (outgoing c) @
           to_string (BitTorrentMessage request_id (request_payload (block_at (manager c') b))))))"
  proof (cases "nextRequest (peerId c) (time (calls c)) (manager c)")
    case (Inr x)
    obtain ob pm where x: "x = (ob, pm)" by (cases x)
    note r = run[OF Inr[unfolded x]]
    show ?thesis
    proof (cases ob)
      case None
      with assms Inr x r show ?thesis by (auto simp: requestPiece_def moved_def)
    next
      case (Some b)
      define d where "d = to_string (BitTorrentMessage request_id (request_payload (block_at pm b)))"
      define c1 where "c1 = c\<lparr>manager := pm, calls := Suc (calls c)\<rparr>"
      obtain c2 y where p: "pc_send d c1 = (c2, y)" by fastforce
      obtain ch where c2: "c2 = c1\<lparr>outgoing := ch\<rparr>" using pc_send_effect(1)[OF p] by blast
      have dn: "d \<noteq> []" by (simp add: d_def to_string_def)
      have c': "(c', r) = (case y of Inl e \<Rightarrow> (c2, Inl e) | Inr z \<Rightarrow> (c2\<lparr>requestPending := True\<rparr>, Inr ()))"
        using assms Inr x Some p by (auto simp: requestPiece_def d_def c1_def split: sum.splits)
      show ?thesis
      proof (cases y)
        case (Inl e)
        with pc_send_effect(3)[OF p] have "c2 = c1" by simp
        with c' Inl r show ?thesis by (auto simp: c1_def moved_def)
      next
        case yr: (Inr z)
        have "answers (outgoing c) = [] \<longrightarrow> sent ch = sent (outgoing c) @ d"
          using pc_send_effect(2)[OF p dn] by (simp add: c1_def c2)
        with c' yr r Inr x Some show ?thesis by (auto simp: c2 c1_def moved_def d_def)
      qed
    qed
  qed (use assms in \<open>auto simp: requestPiece_def\<close>)
  then show "moved c c'" "choked c' = choked c" "requestPending c \<Longrightarrow> requestPending c'"
    and "sent (outgoing c') \<noteq> sent (outgoing c) \<Longrightarrow> requestPending c' \<and> r = Inr () \<and>
      (\<exists>b. nextRequest (peerId c) (time (calls c)) (manager c) = Inr (Some b, manager c') \<and>
        (answers (outgoing c) = [] \<longrightarrow> sent (outgoing c') = sent (outgoing c) @
           to_string (BitTorrentMessage request_id (request_payload (block_at (manager c') b)))))"
    by blast+
qed

lemma handle_message_effect:
  assumes h: "handle_message time m c = (c', r)"
  shows "moved c c'"
    and "requestPending c \<Longrightarrow> msg_id m \<noteq> piece_id \<Longrightarrow> requestPending c' \<and> outgoing c' = outgoing c"
    and "sent (outgoing c') \<noteq> sent (outgoing c) \<Longrightarrow>
      (\<not> requestPending c \<or> msg_id m = piece_id) \<and> requestPending c' \<and> \<not> choked c' \<and> r = Inr () \<and>
      (\<exists>b now pm. nextRequest (peerId c) now pm = Inr (Some b, manager c') \<and>
        (answers (outgoing c) = [] \<longrightarrow> sent (outgoing c') = sent (outgoing c) @
           to_string (BitTorrentMessage request_id (request_payload (block_at (manager c') b)))))"
proof -
  have "moved c c' \<and>
    (requestPending c \<longrightarrow> msg_id m \<noteq> piece_id \<longrightarrow> requestPending c' \<and> outgoing c' = outgoing c) \<and>
    (sent (outgoing c') \<noteq> sent (outgoing c) \<longrightarrow>
      (\<not> requestPending c \<or> msg_id m = piece_id) \<and> requestPending c' \<and> \<not> choked c' \<and> r = Inr () \<and>
      (\<exists>b now pm. nextRequest (peerId c) now pm = Inr (Some b, manager c') \<and>
        (answers (outgoing c) = [] \<longrightarrow> sent (outgoing c') = sent (outgoing c) @
           to_string (BitTorrentMessage request_id (request_payload (block_at (manager c') b))))))"
  proof (cases "10 < msg_id m")
    case True
    with h show ?thesis by (simp add: handle_message_def)
  next
    case False
    obtain c1 x where d: "dispatch m c = (c1, x)" by fastforce
    note de = dispatch_effect[OF d]
    show ?thesis
    proof (cases x)
      case (Inl e)
      with h False d de show ?thesis by (simp add: handle_message_def)
    next
      case (Inr u)
      show ?thesis
      proof (cases "\<not> choked c1 \<and> \<not> requestPending c1")
        case True
        with h False d Inr have rp: "requestPiece time c1 = (c', r)" by (simp add: handle_message_def)
        have fr: "peerId c1 = peerId c" using de moved_frame by blast
        note re = requestPiece_effect[OF rp]
        have "moved c c'" using de re(1) moved_trans by blast
        with de re(2-3) True fr show ?thesis by auto
      next
        case F: False
        with h False d Inr have "c' = c1" by (auto simp: handle_message_def)
        with de show ?thesis by auto
      qed
    qed
  qed
  then show "moved c c'"
    and "requestPending c \<Longrightarrow> msg_id m \<noteq> piece_id \<Longrightarrow> requestPending c' \<and> outgoing c' = outgoing c"
    and "sent (outgoing c') \<noteq> sent (outgoing c) \<Longrightarrow>
      (\<not> requestPending c \<or> msg_id m = piece_id) \<and> requestPending c' \<and> \<not> choked c' \<and> r = Inr () \<and>
      (\<exists>b now pm. nextRequest (peerId c) now pm = Inr (Some b, manager c') \<and>
        (answers (outgoing c) = [] \<longrightarrow> sent (outgoing c') = sent (outgoing c) @
           to_string (BitTorrentMessage request_id (request_payload (block_at (manager c') b)))))"
    by blast+
qed

lemma io_bind_cong [fundef_cong]:
  "m = m' \<Longrightarrow> (\<And>x c. m' = (c, Inr x) \<Longrightarrow> f x c = f' x c) \<Longrightarrow> io_bind m f = io_bind m' f'"
  by (auto simp: io_bind_def split: prod.splits sum.splits)

lemma io_bind_cases:
  assumes "io_bind m f = (c, r)"
  obtains (fail) e where "m = (c, Inl e)" "r = Inl e" | (ok) c1 x where "m = (c1, Inr x)" "f x c1 = (c, r)"
proof (cases m)
  case (Pair c1 y)
  then show thesis using assms fail ok by (cases y) auto
qed

lemma pc_receive_Inr:
  "pc_receiveMessage c = (c1, Inr m) \<Longrightarrow>
   \<exists>is. receiveMessage (sock c) (incoming c) = Inr (m, is) \<and> c1 = c\<lparr>incoming := is\<rparr>"
  by (auto simp: pc_receiveMessage_def split: sum.splits)

function message_loop :: "(nat \<Rightarrow> int) \<Rightarrow> pconn \<Rightarrow> unit io" where
  "message_loop time c =
     (if isComplete (manager c) then (c, Inr ())
      else
        io_bind (pc_receiveMessage c) (\<lambda>m c.
        io_bind (handle_message time m c) (\<lambda>_ c.
          message_loop time c)))"
  by pat_completeness auto
termination
proof (relation "measure (\<lambda>(time, c). pending_input (incoming c))")
  fix time :: "nat \<Rightarrow> int" and c c1 c2 :: pconn and m u
  assume r: "pc_receiveMessage c = (c1, Inr m)" and h: "handle_message time m c1 = (c2, Inr u)"
  from pc_receive_Inr[OF r] receiveMessage_pending have "pending_input (incoming c1) < pending_input (incoming c)"
    by fastforce
  moreover have "incoming c2 = incoming c1" using handle_message_effect(1)[OF h] moved_frame by blast
  ultimately show "((time, c2), (time, c)) \<in> measure (\<lambda>(time, c). pending_input (incoming c))" by simp
qed simp

declare message_loop.simps [simp del]

text \<open>
  \<open>start\<close>: the queue of peers, each with what the network does with the connection to it.
\<close>

type_synonym attempt = "string \<times> connect_env \<times> arrival list \<times> nat option list"

definition dummy_peer_ip :: string where
  "dummy_peer_ip = ''0.0.0.0''"

definition talk :: "(nat \<Rightarrow> int) \<Rightarrow> connect_env \<Rightarrow> pconn \<Rightarrow> unit io" where
  "talk time env c =
     io_bind (establishNewConnection env c) (\<lambda>established c.
       if established then message_loop time c else (c, Inr ()))"

fun start :: "(nat \<Rightarrow> int) \<Rightarrow> attempt list \<Rightarrow> pconn \<Rightarrow> unit io" where
  "start time queue c =
     (if terminated c \<or> isComplete (manager c) then (c, Inr ())
      else case queue of
        [] \<Rightarrow> (c, Inl Blocks)
      | (ip, env, is, as) # queue' \<Rightarrow>
          if ip = dummy_peer_ip then (c\<lparr>peer_ip := ip\<rparr>, Inr ())
          else
            (case talk time env (c\<lparr>peer_ip := ip, incoming := is, outgoing := \<lparr>answers = as, sent = []\<rparr>\<rparr>) of
               (c1, Inr _) \<Rightarrow> start time queue' c1
             | (c1, Inl e) \<Rightarrow>
                 if is_exception e
                 then io_bind (closeSock c1) (\<lambda>_ c2. start time queue' c2)
                 else (c1, Inl e)))"

declare start.simps [simp del]

section \<open>The connection uses the manager by its handlers only\<close>

abbreviation runs :: "pconn \<Rightarrow> pconn \<Rightarrow> bool" where
  "runs c c' \<equiv> pm_run (manager c) (manager c')"

lemma runs_receive: "pc_receiveMessage c = (c', r) \<Longrightarrow> manager c' = manager c"
  by (auto simp: pc_receiveMessage_def split: sum.splits)

lemma runs_send: "pc_send d c = (c', r) \<Longrightarrow> manager c' = manager c"
  using pc_send_effect(1) by fastforce

lemma runs_handshake:
  assumes "performHandshake env c = (c', r)"
  shows "manager c' = manager c"
proof (cases "fst (createConnection env)")
  case (Inl e)
  with assms show ?thesis by (simp add: performHandshake_def)
next
  case (Inr s)
  define c0 where "c0 = c\<lparr>sock := s\<rparr>"
  have m0: "manager c0 = manager c" by (simp add: c0_def)
  note h = assms[unfolded performHandshake_def Inr sum.case Let_def, folded c0_def]
  from h show ?thesis
  proof (cases rule: io_bind_cases)
    case (fail e)
    then show ?thesis using m0 by (auto simp: lift_res_def)
  next
    case (ok c1 msg)
    then have m1: "manager c1 = manager c" using m0 by (auto simp: lift_res_def)
    from ok(2) show ?thesis
    proof (cases rule: io_bind_cases)
      case (fail e)
      with runs_send[of msg c1 c'] m1 show ?thesis by simp
    next
      case o2: (ok c2 u)
      with runs_send[of msg c1 c2] m1 have m2: "manager c2 = manager c" by simp
      from o2(2) m2 show ?thesis
        by (auto simp: lift_res_def elim!: io_bind_cases split: sum.splits prod.splits if_splits)
    qed
  qed
qed

lemma runs_bitField: "receiveBitField c = (c', r) \<Longrightarrow> runs c c'"
  using pm_run_step[OF pm_run_refl pm_step.add]
  by (auto simp: receiveBitField_def dest!: runs_receive elim!: io_bind_cases split: if_splits)

lemma runs_establish: "establishNewConnection env c = (c', r) \<Longrightarrow> runs c c'"
proof -
  assume e: "establishNewConnection env c = (c', r)"
  obtain c1 x where b1: "io_bind (performHandshake env c) (\<lambda>_ c. io_bind (receiveBitField c) (\<lambda>_ c. sendInterested c))
      = (c1, x)" by fastforce
  have "c1 = c'" using e unfolding establishNewConnection_def b1 by (cases x) (auto split: if_splits)
  with b1 have b: "io_bind (performHandshake env c) (\<lambda>_ c. io_bind (receiveBitField c) (\<lambda>_ c. sendInterested c))
      = (c', x)" by simp
  from b show ?thesis
  proof (cases rule: io_bind_cases)
    case (fail e)
    with runs_handshake show ?thesis by fastforce
  next
    case (ok c1 u)
    note h = runs_handshake[OF ok(1)]
    from ok(2) show ?thesis
    proof (cases rule: io_bind_cases)
      case (fail e)
      with runs_bitField[of c1 c'] h show ?thesis by simp
    next
      case o2: (ok c2 v)
      with runs_bitField[of c1 c2] runs_send[of _ c2 c'] h show ?thesis by (simp add: sendInterested_def)
    qed
  qed
qed

lemma runs_loop: "message_loop time c = (c', r) \<Longrightarrow> runs c c'"
proof (induction time c rule: message_loop.induct)
  case (1 time c)
  show ?case
  proof (cases "isComplete (manager c)")
    case True
    with "1.prems" show ?thesis by (simp add: message_loop.simps)
  next
    case False
    with "1.prems" have b: "io_bind (pc_receiveMessage c) (\<lambda>m c. io_bind (handle_message time m c)
        (\<lambda>_ c. message_loop time c)) = (c', r)"
      unfolding message_loop.simps[of time c] by (simp only: if_False)
    then show ?thesis
    proof (cases rule: io_bind_cases)
      case (fail e)
      with runs_receive[of c c'] show ?thesis by simp
    next
      case (ok c1 m)
      note rc = runs_receive[OF ok(1)]
      from ok(2) show ?thesis
      proof (cases rule: io_bind_cases)
        case (fail e)
        with handle_message_effect(1)[of time m c1 c' r] rc show ?thesis by (simp add: moved_def)
      next
        case o2: (ok c2 u)
        from "1.IH"[OF False ok(1) o2] handle_message_effect(1)[OF o2(1)] rc pm_run_trans
        show ?thesis by (auto simp: moved_def)
      qed
    qed
  qed
qed

lemma runs_close: "closeSock c = (c', r) \<Longrightarrow> runs c c'"
  using pm_run_step[OF pm_run_refl pm_step.remove]
  by (auto simp: closeSock_def Let_def split: if_splits sum.splits)

lemma runs_talk: "talk time env c = (c', r) \<Longrightarrow> runs c c'"
  using runs_establish runs_loop pm_run_trans
  by (auto simp: talk_def elim!: io_bind_cases split: if_splits) blast+

lemma runs_start: "start time queue c = (c', r) \<Longrightarrow> runs c c'"
proof (induction queue arbitrary: c)
  case (Cons a queue)
  obtain ip env "is" as where a: "a = (ip, env, is, as)" by (cases a)
  define c0 where "c0 = c\<lparr>peer_ip := ip, incoming := is, outgoing := \<lparr>answers = as, sent = []\<rparr>\<rparr>"
  obtain c1 x where t: "talk time env c0 = (c1, x)" by fastforce
  have rt: "runs c c1" using runs_talk[OF t] by (simp add: c0_def)
  show ?case
  proof (cases "terminated c \<or> isComplete (manager c) \<or> ip = dummy_peer_ip")
    case True
    with Cons.prems show ?thesis by (auto simp: start.simps[of time "(ip, env, is, as) # queue" c] a split: if_splits)
  next
    case False
    then have st: "(case (c1, x) of (c1, Inr _) \<Rightarrow> start time queue c1
        | (c1, Inl e) \<Rightarrow> if is_exception e then io_bind (closeSock c1) (\<lambda>_ c2. start time queue c2)
            else (c1, Inl e)) = (c', r)"
      using Cons.prems t by (simp add: start.simps[of time "(ip, env, is, as) # queue" c] a c0_def)
    show ?thesis
    proof (cases x)
      case (Inr u)
      with st have "start time queue c1 = (c', r)" by simp
      from Cons.IH[OF this] rt pm_run_trans show ?thesis by blast
    next
      case (Inl e)
      show ?thesis
      proof (cases "is_exception e")
        case True
        with st Inl have "io_bind (closeSock c1) (\<lambda>_ c2. start time queue c2) = (c', r)" by simp
        then show ?thesis
        proof (cases rule: io_bind_cases)
          case (fail e')
          with runs_close[of c1 c'] rt pm_run_trans show ?thesis by blast
        next
          case (ok c2 u)
          from Cons.IH[OF ok(2)] runs_close[OF ok(1)] rt pm_run_trans show ?thesis by blast
        qed
      qed (use st Inl rt in simp)
    qed
  qed
next
  case Nil
  then show ?case by (auto simp: start.simps[of time "[]" c] split: if_splits)
qed

end
