(* ===== verification/Session.thy ===== *)
theory Session
  imports PeerConnection
begin

text \<open>
  What a connection thread guarantees over whole conversations: the handshake of two
  clients that run this code, the one request that is outstanding at a time, the manager
  that only sees its own handlers, and the ways in which a conversation is lost.
\<close>

section \<open>The handshake\<close>

definition handshake_of :: "bytes \<Rightarrow> bytes \<Rightarrow> bytes" where
  "handshake_of ih cid = char_of (length protocol) # protocol @ replicate 8 (char_of (0::nat)) @ ih @ cid"

lemma createHandshake_ok:
  "length (infoHash c) = 20 \<Longrightarrow> length (clientId c) = 20 \<Longrightarrow>
   createHandshakeMessage c = Inr (handshake_of (infoHash c) (clientId c))"
  by (simp add: createHandshakeMessage_def handshake_of_def protocol_def)

lemma handshake_of_parts:
  assumes "length ih = 20" "length cid = 20"
  shows "length (handshake_of ih cid) = 68" "take 20 (drop 28 (handshake_of ih cid)) = ih"
    "take 20 (drop 48 (handshake_of ih cid)) = cid"
proof -
  have "handshake_of ih cid = (char_of (length protocol) # protocol @ replicate 8 (char_of (0::nat))) @ ih @ cid"
    by (simp add: handshake_of_def)
  moreover have "length (char_of (length protocol) # protocol @ replicate 8 (char_of (0::nat))) = 28" by (simp add: protocol_def)
  ultimately obtain pre where e: "handshake_of ih cid = pre @ ih @ cid" and p: "length pre = 28" by blast
  show "length (handshake_of ih cid) = 68" using assms p by (simp add: e)
  show "take 20 (drop 28 (handshake_of ih cid)) = ih" using assms p by (simp add: e)
  show "take 20 (drop 48 (handshake_of ih cid)) = cid" using assms p by (simp add: e)
qed

lemma handshake_reply:
  assumes "fst (createConnection env) = Inr s" "0 < s" "answers (outgoing c) = []"
    and "length (infoHash c) = 20" "length (clientId c) = 20"
    and "createHandshakeMessage d = Inr msg" "length (infoHash d) = 20" "length (clientId d) = 20"
    and "concat ps = msg" "[] \<notin> set ps" "incoming c = map Data ps @ rest"
  shows "performHandshake env c =
    (c\<lparr>sock := s, outgoing := (outgoing c)\<lparr>sent := sent (outgoing c) @ handshake_of (infoHash c) (clientId c)\<rparr>,
       incoming := rest, peerId := clientId d\<rparr>,
     if infoHash c = infoHash d then Inr () else Inl (RuntimeError ''Mismatching info hash''))"
proof -
  have msg: "msg = handshake_of (infoHash d) (clientId d)"
    using assms(6) createHandshake_ok[OF assms(7,8)] by simp
  note parts = handshake_of_parts[OF assms(7,8)]
  have len: "length (concat ps) = 68" using parts(1) assms(9) msg by simp
  have recv: "receiveData s 68 (map Data ps @ rest) = Inr (msg, rest)"
    using recv_loop_pieces[OF assms(10), of "[]" 68 rest] len assms(2,9)
    by (simp add: receiveData_def recv_sized_def)
  have ne: "handshake_of i j \<noteq> []" for i j by (simp add: handshake_of_def)
  have sub: "substr msg 48 20 = Inr (clientId d)" "substr msg 28 20 = Inr (infoHash d)" "msg \<noteq> []" "\<not> length msg < 48"
    using parts ne assms(8) by (simp_all add: substr_def msg)
  have cr: "createHandshakeMessage (c\<lparr>sock := s\<rparr>) = Inr (handshake_of (infoHash c) (clientId c))"
    using createHandshake_ok[of "c\<lparr>sock := s\<rparr>"] assms(4,5) by simp
  show ?thesis
    using assms(1,3,11) recv sub by (simp add: performHandshake_def lift_res_def cr pc_send_def sendData_def ne)
qed

text \<open>
  C16. Two clients that run this code: when the peer's handshake arrives, cut in any way,
  the connection takes the peer's identifier from it and goes on exactly when both have
  the same info hash; what follows the handshake is left unread.
\<close>

theorem handshake_agreement:
  assumes "fst (createConnection env) = Inr s" "0 < s" "answers (outgoing c) = []"
    and "length (infoHash c) = 20" "length (clientId c) = 20"
    and "createHandshakeMessage d = Inr msg" "length (infoHash d) = 20" "length (clientId d) = 20"
    and "concat ps = msg" "[] \<notin> set ps" "incoming c = map Data ps @ rest"
  shows "performHandshake env c =
    (c\<lparr>sock := s, outgoing := (outgoing c)\<lparr>sent := sent (outgoing c) @ handshake_of (infoHash c) (clientId c)\<rparr>,
       incoming := rest, peerId := clientId d\<rparr>,
     if infoHash c = infoHash d then Inr () else Inl (RuntimeError ''Mismatching info hash''))"
  by (rule handshake_reply[OF assms])

definition ex_env :: connect_env where
  "ex_env = \<lparr>socket_ret = 5, pton_ret = 1, getfl = (2, 0x802), setfl = (0, 0), select_ret = 1, so_error = 0\<rparr>"

lemma ex_env_ok: "fst (createConnection ex_env) = Inr 5"
  by (simp add: ex_env_def createConnection_def setSocketBlocking_def word_eq_iff_unsigned)

definition ex_conn :: "string \<Rightarrow> arrival list \<Rightarrow> pmanager \<Rightarrow> pconn" where
  "ex_conn cid is m = \<lparr>sock = 0, choked = True, terminated = False, requestPending = False,
     clientId = cid, infoHash = ''ABCDEFGHIJKLMNOPQRST'', peer_ip = ''1.2.3.4'', peerBitField = [],
     peerId = [], manager = m, incoming = is, outgoing = \<lparr>answers = [], sent = []\<rparr>, calls = 0\<rparr>"

abbreviation "id_a \<equiv> ''-UT1000-aaaaaaaaaaaa''"
abbreviation "id_b \<equiv> ''-UT1000-bbbbbbbbbbbb''"

lemma handshake_agreement_witness:
  "snd (performHandshake ex_env (ex_conn id_a
     [Data (take 3 (handshake_of ''ABCDEFGHIJKLMNOPQRST'' id_b)),
      Data (drop 3 (handshake_of ''ABCDEFGHIJKLMNOPQRST'' id_b)), Closed] ex0)) = Inr ()"
proof -
  let ?h = "handshake_of ''ABCDEFGHIJKLMNOPQRST'' id_b"
  let ?c = "ex_conn id_a [Data (take 3 ?h), Data (drop 3 ?h), Closed] ex0"
  have cr: "createHandshakeMessage (ex_conn id_b [] ex0) = Inr ?h"
    using createHandshake_ok[of "ex_conn id_b [] ex0"] by (simp add: ex_conn_def)
  have ne: "[] \<notin> set [take 3 ?h, drop 3 ?h]" using handshake_of_parts(1)[of "''ABCDEFGHIJKLMNOPQRST''" id_b] by auto
  have inc: "incoming ?c = map Data [take 3 ?h, drop 3 ?h] @ [Closed]" by (simp add: ex_conn_def)
  from handshake_agreement[OF ex_env_ok _ _ _ _ cr _ _ _ ne inc] show ?thesis
    by (simp add: ex_conn_def)
qed

section \<open>One request at a time\<close>

text \<open>The bytes of a request for a block.\<close>

definition request_bytes :: "block \<Rightarrow> bytes" where
  "request_bytes b = to_string (BitTorrentMessage request_id (request_payload b))"

definition outstanding :: "pconn \<Rightarrow> nat" where
  "outstanding c = (if requestPending c then 1 else 0)"

lemma pc_send_answers: "pc_send d c = (c', r) \<Longrightarrow> answers (outgoing c) = [] \<Longrightarrow> answers (outgoing c') = []"
  by (auto simp: pc_send_def sendData_def split: if_splits)

lemma requestPiece_answers:
  "requestPiece time c = (c', r) \<Longrightarrow> answers (outgoing c) = [] \<Longrightarrow> answers (outgoing c') = []"
  by (auto simp: requestPiece_def pc_send_def sendData_def io_bind_def split: sum.splits option.splits prod.splits if_splits)

lemma handle_message_answers:
  assumes "handle_message time m c = (c', r)" "answers (outgoing c) = []"
  shows "answers (outgoing c') = []"
proof (cases "10 < msg_id m")
  case False
  then have "io_bind (dispatch m c) (\<lambda>_ c. if \<not> choked c \<and> \<not> requestPending c then requestPiece time c else (c, Inr ()))
      = (c', r)" using assms(1) by (simp add: handle_message_def)
  then show ?thesis
  proof (cases rule: io_bind_cases)
    case (fail e)
    with dispatch_effect[of m c c'] assms(2) show ?thesis by simp
  next
    case (ok c1 u)
    with dispatch_effect[of m c c1] assms(2) have "answers (outgoing c1) = []" by simp
    with ok(2) requestPiece_answers[of time c1 c' r] show ?thesis by (auto split: if_splits)
  qed
qed (use assms in \<open>simp add: handle_message_def\<close>)

lemma handle_message_pending:
  assumes "handle_message time m c = (c', r)"
  shows "outstanding c \<le> outstanding c' + (if msg_id m = piece_id then 1 else 0)"
  using handle_message_effect(2)[OF assms] by (auto simp: outstanding_def)

text \<open>One message: at most one request goes out, and only when none is outstanding.\<close>

lemma handle_message_requests:
  assumes "handle_message time m c = (c', r)" "answers (outgoing c) = []"
  shows "\<exists>bs. sent (outgoing c') = sent (outgoing c) @ concat (map request_bytes bs) \<and>
    length bs + outstanding c \<le> outstanding c' + (if msg_id m = piece_id then 1 else 0)"
proof (cases "sent (outgoing c') = sent (outgoing c)")
  case True
  with handle_message_pending[OF assms(1)] show ?thesis by (intro exI[of _ "[]"]) simp
next
  case False
  from handle_message_effect(3)[OF assms(1) this] assms(2) obtain b where
    b: "\<not> requestPending c \<or> msg_id m = piece_id" "requestPending c'"
      "sent (outgoing c') = sent (outgoing c) @ request_bytes b"
    unfolding request_bytes_def by blast
  then show ?thesis by (intro exI[of _ "[b]"]) (auto simp: outstanding_def)
qed

lemma message_loop_step:
  "\<not> isComplete (manager c) \<Longrightarrow> pc_receiveMessage c = (c1, Inr m) \<Longrightarrow> handle_message time m c1 = (c2, x) \<Longrightarrow>
   message_loop time c = (case x of Inl e \<Rightarrow> (c2, Inl e) | Inr _ \<Rightarrow> message_loop time c2)"
  by (subst message_loop.simps) (simp split: sum.splits)

lemma receive_next:
  "0 < sock c \<Longrightarrow> wire_ok m \<Longrightarrow> pieces_of m ps \<Longrightarrow> incoming c = map Data ps @ rest \<Longrightarrow>
   pc_receiveMessage c = (c\<lparr>incoming := rest\<rparr>, Inr m)"
  by (simp add: pc_receiveMessage_def receiveMessage_pieces)

lemma message_loop_end:
  "incoming c = [] \<Longrightarrow> 0 < sock c \<Longrightarrow> \<not> isComplete (manager c) \<Longrightarrow> message_loop time c = (c, Inl Blocks)"
  by (subst message_loop.simps) (simp add: pc_receiveMessage_def receiveMessage_def receiveData_def)

text \<open>
  C15. One request is outstanding at a time: in a conversation in which the peer sends
  the messages \<open>ms\<close>, everything the connection sends is requests, and their number is at
  most the number of blocks that arrived, plus the one request that may have gone out
  before any block. A connection that waits for a block the peer will not send, because
  it choked the connection after the request, therefore sends nothing more.
\<close>

theorem one_request_per_block:
  assumes "0 < sock c" "list_all2 (\<lambda>m ps. wire_ok m \<and> pieces_of m ps) ms pss"
    and "incoming c = map Data (concat pss)" "answers (outgoing c) = []"
    and "message_loop time c = (c', r)"
  shows "\<exists>bs. sent (outgoing c') = sent (outgoing c) @ concat (map request_bytes bs) \<and>
    length bs \<le> (if requestPending c then 0 else 1) + length (filter (\<lambda>m. msg_id m = piece_id) ms)"
proof -
  have "\<exists>bs. sent (outgoing c') = sent (outgoing c) @ concat (map request_bytes bs) \<and>
    length bs + outstanding c \<le> outstanding c' + length (filter (\<lambda>m. msg_id m = piece_id) ms)"
    using assms(2,1,3-5)
  proof (induction arbitrary: c rule: list_all2_induct)
    case Nil
    have "c' = c"
    proof (cases "isComplete (manager c)")
      case True
      with Nil(4) show ?thesis by (simp add: message_loop.simps[of time c])
    qed (use Nil message_loop_end[of c time] in simp)
    then show ?case by (intro exI[of _ "[]"]) simp
  next
    case (Cons m ms ps pss)
    show ?case
    proof (cases "isComplete (manager c)")
      case True
      with Cons.prems(4) show ?thesis by (intro exI[of _ "[]"]) (simp add: message_loop.simps[of time c])
    next
      case False
      define c1 where "c1 = c\<lparr>incoming := map Data (concat pss)\<rparr>"
      have r: "pc_receiveMessage c = (c1, Inr m)"
        using receive_next[of c m ps "map Data (concat pss)"] Cons by (simp add: c1_def)
      obtain c2 x where h: "handle_message time m c1 = (c2, x)" by fastforce
      note lp = message_loop_step[OF False r h, unfolded Cons.prems(4)]
      have a1: "answers (outgoing c1) = []" using Cons.prems(3) by (simp add: c1_def)
      from handle_message_requests[OF h a1] obtain bs where bs:
        "sent (outgoing c2) = sent (outgoing c) @ concat (map request_bytes bs)"
        "length bs + outstanding c \<le> outstanding c2 + (if msg_id m = piece_id then 1 else 0)"
        by (auto simp: c1_def outstanding_def)
      show ?thesis
      proof (cases x)
        case (Inl e)
        with lp bs show ?thesis by (intro exI[of _ bs]) (auto split: if_splits)
      next
        case (Inr u)
        note fr = moved_frame[OF handle_message_effect(1)[OF h]]
        from Cons.IH[of c2] Inr lp Cons.prems fr handle_message_answers[OF h a1] obtain bs' where
          "sent (outgoing c') = sent (outgoing c2) @ concat (map request_bytes bs')"
          "length bs' + outstanding c2 \<le> outstanding c' + length (filter (\<lambda>m. msg_id m = piece_id) ms)"
          by (auto simp: c1_def)
        with bs show ?thesis by (intro exI[of _ "bs @ bs'"]) (auto split: if_splits)
      qed
    qed
  qed
  then show ?thesis by (auto simp: outstanding_def split: if_splits)
qed

definition ex_talking :: "arrival list \<Rightarrow> pconn" where
  "ex_talking is = (ex_conn id_a is ex1)\<lparr>sock := 5, peerId := ''P'', peerBitField := [CHR 0x80]\<rparr>"

abbreviation "choke_msg \<equiv> BitTorrentMessage choke []"
abbreviation "unchoke_msg \<equiv> BitTorrentMessage unchoke []"

lemma control_msg_ok: "wire_ok (BitTorrentMessage i [])" "pieces_of (BitTorrentMessage i []) [to_string (BitTorrentMessage i [])]"
  by (simp_all add: wire_ok_def pieces_of_def BitTorrentMessage_def length_to_string) (simp add: to_string_def)

lemma one_request_per_block_witness:
  "\<exists>bs. sent (outgoing (fst (message_loop (\<lambda>_. 0)
      (ex_talking [Data (to_string unchoke_msg), Data (to_string choke_msg), Data (to_string unchoke_msg)]))))
    = concat (map request_bytes bs) \<and> length bs \<le> 1"
proof -
  let ?ms = "[unchoke_msg, choke_msg, unchoke_msg]"
  let ?pss = "map (\<lambda>m. [to_string m]) ?ms"
  let ?c = "ex_talking (map Data (concat ?pss))"
  obtain c' r where l: "message_loop (\<lambda>_. 0) ?c = (c', r)" by fastforce
  have "list_all2 (\<lambda>m ps. wire_ok m \<and> pieces_of m ps) ?ms ?pss" by (simp add: control_msg_ok)
  from one_request_per_block[OF _ this _ _ l] l show ?thesis
    by (simp add: ex_talking_def ex_conn_def BitTorrentMessage_def message_ids)
qed

section \<open>How a conversation is lost\<close>

text \<open>
  A keep-alive message ends the conversation: \<open>receiveMessage\<close> gives it the
  identifier 255, which the loop refuses.
\<close>

lemma keepalive_ends_conversation:
  assumes "0 < sock c" "\<not> isComplete (manager c)" "incoming c = Data (be32 0) # is"
  shows "message_loop time c = (c\<lparr>incoming := is\<rparr>, Inl (RuntimeError ''Received invalid message Id from peer ''))"
proof -
  have r: "pc_receiveMessage c = (c\<lparr>incoming := is\<rparr>, Inr (BitTorrentMessage 255 []))"
    using receive_keepAlive[OF assms(1)] assms(3) by (simp add: pc_receiveMessage_def)
  have "handle_message time (BitTorrentMessage 255 []) (c\<lparr>incoming := is\<rparr>)
      = (c\<lparr>incoming := is\<rparr>, Inl (RuntimeError ''Received invalid message Id from peer ''))"
    by (simp add: handle_message_def BitTorrentMessage_def)
  from message_loop_step[OF assms(2) r this] show ?thesis by simp
qed

lemma keepalive_ends_conversation_witness:
  "snd (message_loop (\<lambda>_. 0) (ex_talking [Data (be32 0), Data (to_string unchoke_msg)]))
   = Inl (RuntimeError ''Received invalid message Id from peer '')"
  by (subst keepalive_ends_conversation) (simp_all add: ex_talking_def ex_conn_def isComplete_def ex_defs)

lemma handshake_sock:
  assumes "performHandshake env c = (c', r)" "fst (createConnection env) = Inr s"
  shows "sock c' = s"
proof -
  have snd_sock: "pc_send d u = (u', x) \<Longrightarrow> sock u' = sock u" for d u u' x
    using pc_send_effect(1) by fastforce
  note h = assms(1)[unfolded performHandshake_def assms(2) sum.case Let_def]
  from h show ?thesis
  proof (cases rule: io_bind_cases)
    case (ok c1 msg)
    then have m1: "sock c1 = s" by (auto simp: lift_res_def)
    from ok(2) show ?thesis
    proof (cases rule: io_bind_cases)
      case (fail e)
      with snd_sock m1 show ?thesis by simp
    next
      case o2: (ok c2 u)
      with snd_sock m1 have m2: "sock c2 = s" by simp
      from o2(2) m2 show ?thesis
        by (auto simp: lift_res_def elim!: io_bind_cases split: sum.splits prod.splits if_splits)
    qed
  qed (auto simp: lift_res_def)
qed

lemma bitField_sock: "receiveBitField c = (c', r) \<Longrightarrow> sock c' = sock c"
  by (auto simp: receiveBitField_def pc_receiveMessage_def io_bind_def split: sum.splits prod.splits if_splits)

lemma establish_sock:
  assumes "establishNewConnection env c = (c', r)" "fst (createConnection env) = Inr s"
  shows "sock c' = s"
proof -
  obtain c1 x where b: "io_bind (performHandshake env c) (\<lambda>_ c. io_bind (receiveBitField c) (\<lambda>_ c. sendInterested c))
      = (c1, x)" by fastforce
  have e: "c1 = c'" using assms(1) unfolding establishNewConnection_def b by (cases x) (auto split: if_splits)
  from b show ?thesis
  proof (cases rule: io_bind_cases)
    case (fail y)
    with handshake_sock[OF _ assms(2)] e show ?thesis by simp
  next
    case (ok c2 u)
    note s2 = handshake_sock[OF ok(1) assms(2)]
    have sends: "sendInterested v = (v', y) \<Longrightarrow> sock v' = sock v" for v v' y
      using pc_send_effect(1) by (fastforce simp: sendInterested_def)
    from ok(2) show ?thesis
    proof (cases rule: io_bind_cases)
      case (fail y)
      with bitField_sock[of c2] s2 e show ?thesis by simp
    next
      case (ok c3 v)
      with bitField_sock[of c2 c3] sends[of c3 c1] s2 e show ?thesis by simp
    qed
  qed
qed

text \<open>
  When the set-up of a connection fails after the socket was connected, the socket
  is not closed: \<open>establishNewConnection\<close> returns \<open>false\<close>, the thread takes the next
  peer from the queue with the socket still in \<open>sock\<close>, and the next connection puts its
  own socket there.
\<close>

theorem failed_setup_leaks_socket:
  assumes "\<not> terminated c" "\<not> isComplete (manager c)" "ip \<noteq> dummy_peer_ip"
    and "establishNewConnection env (c\<lparr>peer_ip := ip, incoming := is, outgoing := \<lparr>answers = as, sent = []\<rparr>\<rparr>)
      = (c', Inr False)"
    and "fst (createConnection env) = Inr s" "fst (createConnection env') = Inr s'"
  shows "start time ((ip, env, is, as) # queue) c = start time queue c' \<and> sock c' = s \<and>
    sock (fst (performHandshake env' c')) = s'"
proof -
  obtain c2 r2 where h: "performHandshake env' c' = (c2, r2)" by fastforce
  show ?thesis
    using assms(1-4) establish_sock[OF assms(4,5)] handshake_sock[OF h assms(6)] h
    by (simp add: start.simps[of time "(ip, env, is, as) # queue"] talk_def)
qed

definition ex_failed :: pconn where
  "ex_failed = fst (establishNewConnection ex_env ((ex_conn id_a [] ex1)\<lparr>peer_ip := ''5.6.7.8'', incoming := [Closed],
     outgoing := \<lparr>answers = [], sent = []\<rparr>\<rparr>))"

lemma ex_failed_eq:
  "establishNewConnection ex_env ((ex_conn id_a [] ex1)\<lparr>peer_ip := ''5.6.7.8'', incoming := [Closed],
     outgoing := \<lparr>answers = [], sent = []\<rparr>\<rparr>) = (ex_failed, Inr False)"
proof -
  let ?c = "(ex_conn id_a [] ex1)\<lparr>peer_ip := ''5.6.7.8'', incoming := [Closed], outgoing := \<lparr>answers = [], sent = []\<rparr>\<rparr>"
  have cr: "createHandshakeMessage (?c\<lparr>sock := 5\<rparr>) = Inr (handshake_of ''ABCDEFGHIJKLMNOPQRST'' id_a)"
    using createHandshake_ok[of "?c\<lparr>sock := 5\<rparr>"] by (simp add: ex_conn_def)
  have ne: "handshake_of i j \<noteq> []" for i j by (simp add: handshake_of_def)
  have "snd (performHandshake ex_env ?c) = Inl (RuntimeError ''Connection closed by peer during message receive'')"
    by (simp add: performHandshake_def ex_env_ok Let_def lift_res_def cr[simplified] pc_send_def sendData_def ne
        receiveData_def recv_sized_def recv_loop.simps[of 68])
  then obtain c1 where "performHandshake ex_env ?c
      = (c1, Inl (RuntimeError ''Connection closed by peer during message receive''))"
    by (cases "performHandshake ex_env ?c") auto
  then have "snd (establishNewConnection ex_env ?c) = Inr False" by (simp add: establishNewConnection_def)
  then show ?thesis unfolding ex_failed_def by (metis prod.collapse)
qed

lemma failed_setup_leaks_socket_witness:
  "start (\<lambda>_. 0) ((''5.6.7.8'', ex_env, [Closed], []) # []) (ex_conn id_a [] ex1)
   = start (\<lambda>_. 0) [] ex_failed \<and> sock ex_failed = 5"
  using failed_setup_leaks_socket[OF _ _ _ ex_failed_eq ex_env_ok ex_env_ok, of "\<lambda>_. 0" "[]"]
  by (simp add: ex_conn_def isComplete_def ex_defs dummy_peer_ip_def)

text \<open>
  Two connections to the same peer: after the first one is closed, closing the other
  throws, because the manager no longer knows the peer. The handler of \<open>start\<close> calls
  \<open>closeSock\<close> inside its \<open>catch\<close> block, so that the exception leaves the thread.
\<close>

theorem second_close_throws:
  assumes "sock c \<noteq> 0" "peerBitField c \<noteq> []" "closeSock c = (c1, Inr ())" "\<not> isComplete (manager c)"
    and "sock d \<noteq> 0" "peerBitField d \<noteq> []" "peerId d = peerId c" "manager d = manager c1"
  shows "closeSock d = (d\<lparr>sock := 0, requestPending := False, peerBitField := []\<rparr>,
    Inl (RuntimeError ''Attempting to remove a peer ''))"
proof -
  have m1: "manager c1 = (manager c)\<lparr>peers := map_erase (peerId c) (peers (manager c))\<rparr>"
    using assms(1-4) by (auto simp: closeSock_def removePeer_def Let_def split: option.splits)
  have "map_of (map_erase k m) k = None" for k :: string and m :: "(string, bytes) smap"
    by (induction m) (auto simp: map_erase_def)
  with assms(4-8) m1 show ?thesis
    by (simp add: closeSock_def removePeer_def Let_def map_get_def isComplete_def)
qed

lemma second_close_throws_witness:
  "snd (closeSock ((ex_talking [])\<lparr>manager := ex0\<rparr>)) = Inl (RuntimeError ''Attempting to remove a peer '')"
proof -
  let ?c = "ex_talking []"
  let ?c1 = "?c\<lparr>sock := 0, requestPending := False, peerBitField := [], manager := ex0\<rparr>"
  have "closeSock ?c = (?c1, Inr ())"
    by (simp add: closeSock_def removePeer_def isComplete_def ex_talking_def ex_conn_def ex_defs map_get_def map_erase_def)
  from second_close_throws[OF _ _ this, of "?c\<lparr>manager := ex0\<rparr>"] show ?thesis
    by (simp add: ex_talking_def ex_conn_def isComplete_def ex_defs)
qed

section \<open>The thread as a whole\<close>

lemma start_returns:
  "start time queue c = (c', Inr ()) \<Longrightarrow> dummy_peer_ip \<notin> fst ` set queue \<Longrightarrow> terminated c' \<or> isComplete (manager c')"
proof (induction queue arbitrary: c)
  case Nil
  then show ?case by (auto simp: start.simps[of time "[]" c] split: if_splits)
next
  case (Cons a queue)
  obtain ip env "is" as where a: "a = (ip, env, is, as)" by (cases a)
  define c0 where "c0 = c\<lparr>peer_ip := ip, incoming := is, outgoing := \<lparr>answers = as, sent = []\<rparr>\<rparr>"
  obtain c1 x where t: "talk time env c0 = (c1, x)" by fastforce
  have ip: "ip \<noteq> dummy_peer_ip" using Cons.prems(2) a by auto
  show ?case
  proof (cases "terminated c \<or> isComplete (manager c)")
    case True
    with Cons.prems(1) show ?thesis by (auto simp: start.simps[of time "a # queue" c])
  next
    case False
    then have st: "(case (c1, x) of (c1, Inr _) \<Rightarrow> start time queue c1
        | (c1, Inl e) \<Rightarrow> if is_exception e then io_bind (closeSock c1) (\<lambda>_ c2. start time queue c2)
            else (c1, Inl e)) = (c', Inr ())"
      using Cons.prems(1) t ip by (simp add: start.simps[of time "(ip, env, is, as) # queue" c] a c0_def)
    then obtain c2 where "start time queue c2 = (c', Inr ())"
      by (cases x) (auto split: if_splits elim!: io_bind_cases)
    with Cons.IH[of c2] Cons.prems(2) show ?thesis by simp
  qed
qed

text \<open>
  C3. One connection thread that is alone on its piece manager, whatever the peers send: when the manager is one that
  handler calls reached from a torrent, no peer of the queue is the dummy peer of \<open>terminate\<close>, and \<open>start\<close>
  returns without the connection having been stopped, then every piece of the torrent has data with the torrent's hash.
  (With other threads in between this needs the threads on different pieces: \<open>piece_counted_twice\<close>.)
\<close>

theorem thread_downloads:
  assumes "pm_start t s0" "pm_run s0 (manager c)"
    and "start time queue c = (c', Inr ())" "dummy_peer_ip \<notin> fst ` set queue" "\<not> terminated c'"
  shows "\<forall>i < length (splitPieceHashes (pieces (info t))).
    fips_sha1 (piece_bytes (store (manager c') ! i)) = splitPieceHashes (pieces (info t)) ! i"
proof -
  have run: "pm_run s0 (manager c')" using pm_run_trans[OF assms(2) runs_start[OF assms(3)]] .
  have c: "isComplete (manager c')" using start_returns[OF assms(3,4)] assms(5) by simp
  show ?thesis using complete_hashes[OF assms(1) run c] by blast
qed

text \<open>A whole run: handshake, bit field, unchoke, request and piece.\<close>

definition ex_at :: "nat list \<Rightarrow> nat list \<Rightarrow> nat list \<Rightarrow> piece \<Rightarrow> bytes \<Rightarrow> nat \<Rightarrow> pmanager" where
  "ex_at ms os hs p c n = ex_state ms os hs p c n [(id_b, [CHR 0x80])]"

definition "ex_m1 = ex_at [0] [] [] (ex_block missing []) zeros3 0"
definition "ex_m2 = ex_at [] [0] [] (ex_block pending []) zeros3 0"
definition "ex_m3 = ex_at [] [] [0] (ex_block retrieved ''abc'') ''abc'' 1"

lemmas ex_m_defs = ex_m1_def ex_m2_def ex_m3_def ex_at_def ex_state_def ex_block_def

definition run_state :: "arrival list \<Rightarrow> bytes \<Rightarrow> bool \<Rightarrow> bool \<Rightarrow> bytes \<Rightarrow> pmanager \<Rightarrow> nat \<Rightarrow> pconn" where
  "run_state is bf ch rp snt m n = \<lparr>sock = 5, choked = ch, terminated = False, requestPending = rp,
     clientId = id_a, infoHash = ''ABCDEFGHIJKLMNOPQRST'', peer_ip = ''1.2.3.4'', peerBitField = bf,
     peerId = id_b, manager = m, incoming = is, outgoing = \<lparr>answers = [], sent = snt\<rparr>, calls = n\<rparr>"

abbreviation "ex_hs \<equiv> handshake_of ''ABCDEFGHIJKLMNOPQRST''"
abbreviation "ex_piece \<equiv> BitTorrentMessage piece_id (replicate 8 (char_of (0::nat)) @ ''abc'')"
abbreviation "ex_tail \<equiv> [Data (to_string unchoke_msg), Data (to_string ex_piece)]"
abbreviation "ex_arrivals \<equiv> Data (ex_hs id_b) # Data (to_string (BitTorrentMessage bitField_id [CHR 0x80])) # ex_tail"

lemma receive_one:
  assumes "length p < 100"
  shows "pc_receiveMessage (run_state (Data (to_string (BitTorrentMessage i p)) # rest) bf ch rp snt m n)
    = (run_state rest bf ch rp snt m n, Inr (BitTorrentMessage i p))"
proof -
  let ?m = "BitTorrentMessage i p"
  have "wire_ok ?m" "pieces_of ?m [to_string ?m]"
    using assms by (simp_all add: wire_ok_def pieces_of_def BitTorrentMessage_def length_to_string) (simp add: to_string_def)
  from receive_next[OF _ this, of "run_state (Data (to_string ?m) # rest) bf ch rp snt m n" rest]
  show ?thesis by (simp add: run_state_def)
qed

lemma ex_handshake:
  "\<exists>snt. performHandshake ex_env ((ex_conn id_a ex_arrivals ex0)\<lparr>peer_ip := ''1.2.3.4'', outgoing := \<lparr>answers = [], sent = []\<rparr>\<rparr>)
    = (run_state (tl ex_arrivals) [] True False snt ex0 0, Inr ())"
proof -
  let ?c = "(ex_conn id_a ex_arrivals ex0)\<lparr>peer_ip := ''1.2.3.4'', outgoing := \<lparr>answers = [], sent = []\<rparr>\<rparr>"
  have cr: "createHandshakeMessage (ex_conn id_b [] ex0) = Inr (ex_hs id_b)"
    using createHandshake_ok[of "ex_conn id_b [] ex0"] by (simp add: ex_conn_def)
  have ne: "[] \<notin> set [ex_hs id_b]" by (simp add: handshake_of_def)
  have inc: "incoming ?c = map Data [ex_hs id_b] @ tl ex_arrivals" by (simp add: ex_conn_def)
  from handshake_reply[OF ex_env_ok _ _ _ _ cr _ _ _ ne inc] show ?thesis
    by (simp add: ex_conn_def run_state_def)
qed

lemma ex_establish:
  "\<exists>snt. establishNewConnection ex_env ((ex_conn id_a ex_arrivals ex0)\<lparr>peer_ip := ''1.2.3.4'', outgoing := \<lparr>answers = [], sent = []\<rparr>\<rparr>)
   = (run_state ex_tail [CHR 0x80] True False snt ex_m1 0, Inr True)"
proof -
  obtain snt where h: "performHandshake ex_env ((ex_conn id_a ex_arrivals ex0)\<lparr>peer_ip := ''1.2.3.4'', outgoing := \<lparr>answers = [], sent = []\<rparr>\<rparr>)
    = (run_state (tl ex_arrivals) [] True False snt ex0 0, Inr ())" using ex_handshake by blast
  have b: "receiveBitField (run_state (tl ex_arrivals) [] True False snt ex0 0)
      = (run_state ex_tail [CHR 0x80] True False snt ex_m1 0, Inr ())"
    using receive_one[of "[CHR 0x80]" bitField_id ex_tail "[]" True False snt ex0 0]
    by (simp add: receiveBitField_def) (simp add: run_state_def BitTorrentMessage_def addPeer_def ex_defs ex_m_defs)
  have s: "to_string m \<noteq> []" for m by (simp add: to_string_def)
  have "\<exists>snt'. sendInterested (run_state ex_tail [CHR 0x80] True False snt ex_m1 0)
      = (run_state ex_tail [CHR 0x80] True False snt' ex_m1 0, Inr ())"
    by (simp add: sendInterested_def pc_send_def sendData_def run_state_def s)
  then show ?thesis by (auto simp: establishNewConnection_def h[unfolded list.sel] b[unfolded list.sel])
qed

lemma ex_request: "nextRequest id_b now ex_m1 = Inr (Some (0, 0), ex_m2)"
  by (simp add: nextRequest_def nextOngoing_def request_rarest_def getRarestPiece_def next_request_def
      INT16_MAX_def map_get_def hasPiece_def drop_bit_eq_div ex_m_defs)

lemma ex_unchoke:
  "\<exists>snt'. handle_message time unchoke_msg (run_state is [CHR 0x80] True False snt ex_m1 0)
    = (run_state is [CHR 0x80] False True snt' ex_m2 1, Inr ())"
proof -
  have d: "dispatch unchoke_msg (run_state is [CHR 0x80] True False snt ex_m1 0)
      = (run_state is [CHR 0x80] False False snt ex_m1 0, Inr ())"
    by (simp add: dispatch_def BitTorrentMessage_def message_ids run_state_def)
  have s: "to_string m \<noteq> []" for m by (simp add: to_string_def)
  have "\<exists>snt'. requestPiece time (run_state is [CHR 0x80] False False snt ex_m1 0)
      = (run_state is [CHR 0x80] False True snt' ex_m2 1, Inr ())"
    using ex_request by (simp add: requestPiece_def run_state_def pc_send_def sendData_def s)
  with d show ?thesis by (auto simp: handle_message_def BitTorrentMessage_def message_ids run_state_def)
qed

lemma ex_block_stored: "blockReceived 0 0 ''abc'' ex_m2 = (ex_m3, Inr ())"
  by (simp add: blockReceived_def br_find_def br_store_def block_received_def is_complete_def
      is_hash_matching_def piece_data_def hexDecode_sha1 br_write_def br_commit_def seek_write_eq
      overwrite_def ex_m_defs Let_def)

lemma ex_piece_step:
  "handle_message time ex_piece (run_state is [CHR 0x80] False True snt ex_m2 1)
    = (run_state is [CHR 0x80] False False snt ex_m3 2, Inr ())"
proof -
  have z: "bytesToInt (replicate 4 (char_of (0::nat))) = Inr 0"
  proof -
    have "be_val (replicate k (char_of (0::nat))) = 0" for k unfolding be_val_def by (induction k) simp_all
    then show ?thesis unfolding bytesToInt_be by simp
  qed
  have sub: "substr (replicate 8 (char_of (0::nat)) @ ''abc'') 0 4 = Inr (replicate 4 (char_of (0::nat)))"
    "substr (replicate 8 (char_of (0::nat)) @ ''abc'') 4 4 = Inr (replicate 4 (char_of (0::nat)))"
    "substr_from (replicate 8 (char_of (0::nat)) @ ''abc'') 8 = Inr ''abc''"
    by (simp_all add: substr_def substr_from_def)
  have "on_piece (replicate 8 (char_of (0::nat)) @ ''abc'') (run_state is [CHR 0x80] False True snt ex_m2 1)
      = (run_state is [CHR 0x80] False False snt ex_m3 1, Inr ())"
    unfolding on_piece_def by (simp add: sub z lift_res_def Let_def) (simp add: run_state_def ex_block_stored)
  then have d: "dispatch ex_piece (run_state is [CHR 0x80] False True snt ex_m2 1)
      = (run_state is [CHR 0x80] False False snt ex_m3 1, Inr ())"
    by (simp add: dispatch_def BitTorrentMessage_def message_ids)
  have "requestPiece time (run_state is [CHR 0x80] False False snt ex_m3 1)
      = (run_state is [CHR 0x80] False False snt ex_m3 2, Inr ())"
    by (simp add: requestPiece_def nextRequest_def run_state_def ex_m_defs)
  with d show ?thesis by (simp add: handle_message_def) (simp add: BitTorrentMessage_def message_ids run_state_def)
qed

lemma ex_whole_run:
  "\<exists>snt. start time [(''1.2.3.4'', ex_env, ex_arrivals, [])] (ex_conn id_a [] ex0)
    = (run_state [] [CHR 0x80] False False snt ex_m3 2, Inr ())"
proof -
  let ?c = "(ex_conn id_a ex_arrivals ex0)\<lparr>peer_ip := ''1.2.3.4'', outgoing := \<lparr>answers = [], sent = []\<rparr>\<rparr>"
  have c: "(ex_conn id_a [] ex0)\<lparr>peer_ip := ''1.2.3.4'', incoming := ex_arrivals, outgoing := \<lparr>answers = [], sent = []\<rparr>\<rparr> = ?c"
    by (simp add: ex_conn_def)
  obtain snt where e: "establishNewConnection ex_env ?c = (run_state ex_tail [CHR 0x80] True False snt ex_m1 0, Inr True)"
    using ex_establish by blast
  have inc: "\<not> isComplete (manager (run_state is bf ch rp snt ex_m1 n))" "\<not> isComplete (manager (run_state is bf ch rp snt ex_m2 n))"
    "isComplete (manager (run_state is bf ch rp snt ex_m3 n))" for "is" bf ch rp snt n
    by (simp_all add: run_state_def isComplete_def ex_m_defs)
  obtain snt' where u: "handle_message time unchoke_msg (run_state [Data (to_string ex_piece)] [CHR 0x80] True False snt ex_m1 0)
    = (run_state [Data (to_string ex_piece)] [CHR 0x80] False True snt' ex_m2 1, Inr ())" using ex_unchoke by blast
  have r: "pc_receiveMessage (run_state ex_tail [CHR 0x80] True False snt ex_m1 0)
      = (run_state [Data (to_string ex_piece)] [CHR 0x80] True False snt ex_m1 0, Inr unchoke_msg)"
    "pc_receiveMessage (run_state [Data (to_string ex_piece)] [CHR 0x80] False True snt' ex_m2 1)
      = (run_state [] [CHR 0x80] False True snt' ex_m2 1, Inr ex_piece)"
    using receive_one[of "replicate 8 (char_of (0::nat)) @ ''abc''" piece_id "[]"] by (simp_all add: receive_one)
  have l: "message_loop time (run_state ex_tail [CHR 0x80] True False snt ex_m1 0)
      = (run_state [] [CHR 0x80] False False snt' ex_m3 2, Inr ())"
    unfolding message_loop_step[OF inc(1) r(1) u] sum.case message_loop_step[OF inc(2) r(2) ex_piece_step]
    by (simp add: message_loop.simps inc(3))
  have t: "talk time ex_env ?c = (run_state [] [CHR 0x80] False False snt' ex_m3 2, Inr ())"
    by (simp add: talk_def e l)
  have n0: "\<not> (terminated (ex_conn id_a [] ex0) \<or> isComplete (manager (ex_conn id_a [] ex0)))"
    by (simp add: ex_conn_def isComplete_def ex_defs)
  have "start time [(''1.2.3.4'', ex_env, ex_arrivals, [])] (ex_conn id_a [] ex0)
      = start time [] (run_state [] [CHR 0x80] False False snt' ex_m3 2)"
    unfolding start.simps[of time "[(''1.2.3.4'', ex_env, ex_arrivals, [])]"] using n0
    by (simp add: c t dummy_peer_ip_def)
  then show ?thesis using inc(3) by (auto simp: start.simps[of time "[]"])
qed

lemma thread_downloads_witness:
  "\<exists>c'. start (\<lambda>_. 0) [(''1.2.3.4'', ex_env, ex_arrivals, [])] (ex_conn id_a [] ex0) = (c', Inr ()) \<and>
     fips_sha1 (piece_bytes (store (manager c') ! 0)) = fips_sha1 ''abc''"
proof -
  obtain snt where r: "start (\<lambda>_. 0) [(''1.2.3.4'', ex_env, ex_arrivals, [])] (ex_conn id_a [] ex0)
    = (run_state [] [CHR 0x80] False False snt ex_m3 2, Inr ())" using ex_whole_run by blast
  have "splitPieceHashes (fips_sha1 ''abc'') = [fips_sha1 ''abc'']"
    using splitPieceHashes_20[of "fips_sha1 ''abc''" "[]"] by simp
  with thread_downloads[OF ex_start _ r] have "fips_sha1 (piece_bytes (store ex_m3 ! 0)) = fips_sha1 ''abc''"
    by (simp add: ex_conn_def pm_run_refl dummy_peer_ip_def run_state_def ex_torrent_def)
  with r show ?thesis by (auto simp: run_state_def)
qed

end
