(* ===== verification/Hashing.thy ===== *)
theory Hashing
  imports Sha1_Spec
begin

text \<open>
  \<open>src/hashing/createHash.cpp\<close> and \<open>src/utils/fileUtils.cpp\<close>: the piece length chosen for
  a torrent that is created, the hashes of its pieces, and reading and writing whole
  files. The SHA-1 of Boost is a parameter that gives the five words of a digest; the
  contents of files are a function from paths.
\<close>

section \<open>The piece length\<close>

definition choosePieceLength :: "cull \<Rightarrow> cull" where
  "choosePieceLength fileSize =
     (if fileSize < 512 * 1024 * 1024 then 16 * 1024
      else if fileSize < 1024 * 1024 * 1024 then 1024 * 1024
      else if fileSize < 2 * 1024 * 1024 * 1024 then 4 * 1024 * 1024
      else if fileSize < 10 * 1024 * 1024 * 1024 then 8 * 1024 * 1024
      else if fileSize < 50 * 1024 * 1024 * 1024 then 16 * 1024 * 1024
      else 32 * 1024 * 1024)"

lemma choosePieceLength_nat:
  "choosePieceLength n = (if unat n < 536870912 then 16384 else if unat n < 1073741824 then 1048576
     else if unat n < 2147483648 then 4194304 else if unat n < 10737418240 then 8388608
     else if unat n < 53687091200 then 16777216 else 33554432)"
  by (simp add: choosePieceLength_def word_less_nat_alt cong: if_cong)

lemma choosePieceLength_disj:
  "unat n < 536870912 \<and> choosePieceLength n = 16384 \<or> unat n < 1073741824 \<and> choosePieceLength n = 1048576 \<or>
   unat n < 2147483648 \<and> choosePieceLength n = 4194304 \<or> unat n < 10737418240 \<and> choosePieceLength n = 8388608 \<or>
   unat n < 53687091200 \<and> choosePieceLength n = 16777216 \<or>
   53687091200 \<le> unat n \<and> choosePieceLength n = 33554432"
  by (simp add: choosePieceLength_nat)

text \<open>
  The chosen piece length is a power of two between 16 KiB and 32 MiB, so that it
  survives the conversion to \<open>int\<close> and is a whole number of blocks, and content below
  50 GiB has fewer than 32768 full pieces: their hashes take less than 640 KiB.
\<close>

theorem choosePieceLength_bounds:
  "(\<exists>k \<in> {14..25}. choosePieceLength n = 2 ^ k) \<and>
   scast (ucast (choosePieceLength n) :: cint) = choosePieceLength n \<and>
   unat (choosePieceLength n) mod 16384 = 0 \<and>
   (unat n < 50 * 2 ^ 30 \<longrightarrow> unat n div unat (choosePieceLength n) < 32768)"
proof -
  consider "unat n < 536870912" "choosePieceLength n = 16384"
    | "unat n < 1073741824" "choosePieceLength n = 1048576"
    | "unat n < 2147483648" "choosePieceLength n = 4194304"
    | "unat n < 10737418240" "choosePieceLength n = 8388608"
    | "unat n < 53687091200" "choosePieceLength n = 16777216"
    | "53687091200 \<le> unat n" "choosePieceLength n = 33554432"
    using choosePieceLength_disj[of n] by blast
  then show ?thesis
  proof cases
    case 1
    have "unat n div 16384 < 32768" by (rule less_mult_imp_div_less) (use 1(1) in simp)
    then show ?thesis by (simp add: 1(2) bexI[of _ 14])
  next
    case 2
    have "unat n div 1048576 < 32768" by (rule less_mult_imp_div_less) (use 2(1) in simp)
    then show ?thesis by (simp add: 2(2) bexI[of _ 20])
  next
    case 3
    have "unat n div 4194304 < 32768" by (rule less_mult_imp_div_less) (use 3(1) in simp)
    then show ?thesis by (simp add: 3(2) bexI[of _ 22])
  next
    case 4
    have "unat n div 8388608 < 32768" by (rule less_mult_imp_div_less) (use 4(1) in simp)
    then show ?thesis by (simp add: 4(2) bexI[of _ 23])
  next
    case 5
    have "unat n div 16777216 < 32768" by (rule less_mult_imp_div_less) (use 5(1) in simp)
    then show ?thesis by (simp add: 5(2) bexI[of _ 24])
  next
    case 6
    then show ?thesis by (simp add: bexI[of _ 25])
  qed
qed

lemma choosePieceLength_bounds_witness:
  "choosePieceLength 6000000000 = 2 ^ 23 \<and> unat (6000000000 :: cull) div unat (choosePieceLength 6000000000) < 32768"
proof -
  have c: "choosePieceLength 6000000000 = 8388608" by (simp add: choosePieceLength_nat)
  with choosePieceLength_bounds[of 6000000000] show ?thesis by simp
qed

section \<open>The hashes of the pieces\<close>

text \<open>
  \<open>boost::uuids::detail::sha1\<close>: the five words of the digest. What is documented of it is
  that they are the SHA-1 of the bytes, the most significant word first.
\<close>

type_synonym digest = "bytes \<Rightarrow> cint list"

definition digest_ok :: "digest \<Rightarrow> bool" where
  "digest_ok dg \<longleftrightarrow> (\<forall>m. length (dg m) = 5 \<and> concat (map be32 (dg m)) = fips_sha1 m)"

definition digest_ref :: digest where
  "digest_ref m = regs_list (foldl (\<lambda>H blk. fips_compress H (fips_words blk)) fips_H0 (fips_blocks (fips_pad m)))"

lemma digest_ref_ok: "digest_ok digest_ref"
proof -
  have "length (regs_list r) = 5" for r by (cases r) simp
  then show ?thesis by (simp add: digest_ok_def digest_ref_def fips_sha1_def)
qed

text \<open>The words as the memory of a little-endian machine holds them.\<close>

definition le32 :: "cint \<Rightarrow> bytes" where
  "le32 w = map (\<lambda>k. char_of (unat (drop_bit (8 * k) w))) [0, 1, 2, 3]"

definition digest_memory :: "cint list \<Rightarrow> bytes" where
  "digest_memory ws = concat (map le32 ws)"

lemma le32_be32: "le32 w = rev (be32 w)"
  by (simp add: le32_def be32_def)

text \<open>\<open>file.read(buffer.data() + bufferRead, n)\<close> puts what it gets into the buffer.\<close>

definition buffer_put :: "nat \<Rightarrow> bytes \<Rightarrow> bytes \<Rightarrow> bytes" where
  "buffer_put at data buf = take at buf @ data @ drop (at + length data) buf"

text \<open>
  The loop over one file: what is left of the file, the buffer, \<open>bufferRead\<close> and \<open>pieces\<close>.
  A read that gets less than it asked for sets \<open>eof\<close>, which ends the loop. With a chunk
  of length zero nothing is ever read and the loop does not end.
\<close>

function hash_file :: "digest \<Rightarrow> nat \<Rightarrow> bool \<Rightarrow> bytes \<Rightarrow> bytes \<Rightarrow> nat \<Rightarrow> bytes \<Rightarrow> (bytes \<times> nat \<times> bytes) res" where
  "hash_file dg chunk_size at_last rest buf bufferRead pcs =
     (if chunk_size \<le> bufferRead then Inl Blocks
      else
        (let got = take (chunk_size - bufferRead) rest;
             bytesRead = length got;
             eof = (bytesRead < chunk_size - bufferRead);
             buf' = buffer_put bufferRead got buf;
             bufferRead' = bufferRead + bytesRead;
             emit = (bufferRead' = chunk_size \<or> (eof \<and> at_last));
             pcs' = (if emit then pcs @ digest_memory (dg (take bytesRead buf')) else pcs);
             bufferRead'' = (if emit then 0 else bufferRead')
         in if eof then Inr (buf', bufferRead'', pcs')
            else hash_file dg chunk_size at_last (drop bytesRead rest) buf' bufferRead'' pcs'))"
  by pat_completeness auto
termination
  by (relation "measure (\<lambda>(dg, c, l, rest, b, r, p). length rest)") auto

declare hash_file.simps [simp del]

fun hash_files :: "digest \<Rightarrow> (string \<Rightarrow> bytes option) \<Rightarrow> nat \<Rightarrow> string \<Rightarrow> string list
    \<Rightarrow> bytes \<Rightarrow> nat \<Rightarrow> bytes \<Rightarrow> bytes res" where
  "hash_files dg open_file chunk_size back [] buf bufferRead pcs = Inr pcs"
| "hash_files dg open_file chunk_size back (filePath # filePaths) buf bufferRead pcs =
     (case open_file filePath of
        None \<Rightarrow> Inl (RuntimeError ''Failed to open file : '')
      | Some c \<Rightarrow>
          rbind (hash_file dg chunk_size (filePath = back) c buf bufferRead pcs) (\<lambda>(buf', bufferRead', pcs').
            hash_files dg open_file chunk_size back filePaths buf' bufferRead' pcs'))"

definition createHash :: "digest \<Rightarrow> (string \<Rightarrow> bytes option) \<Rightarrow> string list \<Rightarrow> nat \<Rightarrow> bytes res" where
  "createHash dg open_file filePaths chunk_size =
     hash_files dg open_file chunk_size (last filePaths) filePaths
       (replicate chunk_size (char_of (0::nat))) 0 []"

lemma buffer_put_start: "length d \<le> length b \<Longrightarrow> take (length d) (buffer_put 0 d b) = d"
  by (simp add: buffer_put_def)

lemma length_buffer_put: "at + length d \<le> length b \<Longrightarrow> length (buffer_put at d b) = length b"
  by (simp add: buffer_put_def)

definition chunk_hash :: "digest \<Rightarrow> nat \<Rightarrow> bytes \<Rightarrow> nat \<Rightarrow> bytes" where
  "chunk_hash dg n c i = digest_memory (dg (take n (drop (i * n) c)))"

lemma hash_file_last:
  assumes "0 < n"
  shows "length buf = n \<Longrightarrow>
   \<exists>b. hash_file dg n True c buf 0 pcs =
     Inr (b, 0, pcs @ concat (map (chunk_hash dg n c) [0..<length c div n + 1]))"
proof (induction c arbitrary: buf pcs rule: length_induct)
  case (1 c)
  let ?got = "take n c"
  have put: "take (length ?got) (buffer_put 0 ?got buf) = ?got"
    by (rule buffer_put_start) (simp add: 1)
  show ?case
  proof (cases "length c < n")
    case True
    with assms put show ?thesis
      by (subst hash_file.simps) (simp add: Let_def chunk_hash_def)
  next
    case False
    then have l: "length (drop n c) < length c" using assms by simp
    have lb: "length (buffer_put 0 ?got buf) = n" using 1(2) False by (simp add: length_buffer_put)
    from 1(1)[rule_format, OF l lb] obtain b where ih: "hash_file dg n True (drop n c) (buffer_put 0 ?got buf) 0
        (pcs @ digest_memory (dg ?got)) = Inr (b, 0, (pcs @ digest_memory (dg ?got)) @
          concat (map (chunk_hash dg n (drop n c)) [0..<length (drop n c) div n + 1]))" by blast
    have d: "length c div n = Suc (length (drop n c) div n)"
      using False assms by (simp add: le_div_geq)
    have "concat (map (chunk_hash dg n c) [0..<length c div n + 1])
        = digest_memory (dg ?got) @ concat (map (chunk_hash dg n (drop n c)) [0..<length (drop n c) div n + 1])"
    proof -
      define k where "k = length (drop n c) div n + 1"
      have u: "[0..<length c div n + 1] = 0 # map Suc [0..<k]"
        by (simp add: d k_def map_Suc_upt upt_conv_Cons del: upt_Suc)
      have f: "chunk_hash dg n c \<circ> Suc = chunk_hash dg n (drop n c)"
        by (rule ext) (simp add: chunk_hash_def add.commute)
      have "chunk_hash dg n c 0 = digest_memory (dg ?got)" by (simp add: chunk_hash_def)
      then show ?thesis unfolding u k_def[symmetric] by (simp add: f)
    qed
    with ih put False assms show ?thesis
      by (subst hash_file.simps) (simp add: Let_def min_absorb2)
  qed
qed

text \<open>
  C35. Creating a torrent from one file: for content of \<open>n\<close> bytes there are \<open>n div chunk + 1\<close>
  hashes, the \<open>i\<close>-th of the \<open>i\<close>-th chunk, hence one hash of the empty string too many when
  the size is a multiple of the chunk; and each hash is the memory of the digest's words,
  so that on a little-endian machine every group of four bytes is the reverse of SHA-1's.
\<close>

theorem createHash_one_file:
  assumes "digest_ok dg" "open_file p = Some c" "0 < n"
  shows "createHash dg open_file [p] n = Inr (concat (map (chunk_hash dg n c) [0..<length c div n + 1]))
    \<and> (\<forall>i. \<exists>ws. length ws = 5 \<and> chunk_hash dg n c i = concat (map (\<lambda>w. rev (be32 w)) ws) \<and>
         fips_sha1 (take n (drop (i * n) c)) = concat (map be32 ws))"
proof -
  have "length (replicate n (char_of (0::nat))) = n" by simp
  from hash_file_last[OF assms(3) this, of dg c "[]"] obtain b where
    "hash_file dg n True c (replicate n (char_of (0::nat))) 0 []
      = Inr (b, 0, [] @ concat (map (chunk_hash dg n c) [0..<length c div n + 1]))" by blast
  then have "createHash dg open_file [p] n = Inr (concat (map (chunk_hash dg n c) [0..<length c div n + 1]))"
    using assms(2) by (simp add: createHash_def del: upt_Suc)
  moreover have "\<exists>ws. length ws = 5 \<and> chunk_hash dg n c i = concat (map (\<lambda>w. rev (be32 w)) ws) \<and>
      fips_sha1 (take n (drop (i * n) c)) = concat (map be32 ws)" for i
    by (rule exI[of _ "dg (take n (drop (i * n) c))"])
      (use assms(1) in \<open>simp add: digest_ok_def chunk_hash_def digest_memory_def le32_be32[abs_def]\<close>)
  ultimately show ?thesis by blast
qed

lemma createHash_one_file_witness:
  "createHash digest_ref [''f'' \<mapsto> ''abcd''] [''f''] 2
    = Inr (chunk_hash digest_ref 2 ''abcd'' 0 @ chunk_hash digest_ref 2 ''abcd'' 1 @ digest_memory (digest_ref []))"
proof -
  have "[0..<3] = [0, 1, 2::nat]" by (simp add: upt_rec)
  with createHash_one_file[OF digest_ref_ok, of "[''f'' \<mapsto> ''abcd'']" "''f''" "''abcd''" 2] show ?thesis
    by (simp add: chunk_hash_def)
qed

text \<open>
  Several files: when two files fit into one piece together, the one hash is over as
  many bytes as the second file has, from the start of the buffer, instead of over both.
\<close>

lemma createHash_two_small_files:
  assumes "open_file p = Some a" "open_file q = Some b" "p \<noteq> q" "length a + length b < n"
  shows "createHash dg open_file [p, q] n = Inr (digest_memory (dg (take (length b) (a @ b))))"
proof -
  let ?z = "replicate n (char_of (0::nat))"
  let ?b1 = "buffer_put 0 a ?z"
  have h1: "hash_file dg n False a ?z 0 [] = Inr (?b1, length a, [])"
    using assms(4) by (subst hash_file.simps) (simp add: Let_def)
  have "take (length b) (buffer_put (length a) b ?b1) = take (length b) (a @ b)"
    by (simp add: buffer_put_def)
  then have "hash_file dg n True b ?b1 (length a) [] =
      Inr (buffer_put (length a) b ?b1, 0, digest_memory (dg (take (length b) (a @ b))))"
    using assms(4) by (subst hash_file.simps) (auto simp: Let_def)
  with h1 assms show ?thesis by (simp add: createHash_def)
qed

lemma createHash_two_small_files_witness:
  "createHash digest_ref [''f'' \<mapsto> ''abc'', ''g'' \<mapsto> ''de''] [''f'', ''g''] 16
    = Inr (digest_memory (digest_ref ''ab''))"
  using createHash_two_small_files[of "[''f'' \<mapsto> ''abc'', ''g'' \<mapsto> ''de'']" "''f''" "''abc''" "''g''" "''de''" 16 digest_ref]
  by simp

section \<open>Files\<close>

text \<open>
  A disk maps paths to contents. What the system does with a write is given by a record:
  the paths that can be opened, whether the stream reports that it took the data, and
  what is on the disk once the stream is closed (the stream is buffered, so that a late
  failure is not reported).
\<close>

type_synonym disk = "string \<Rightarrow> bytes option"

record write_env =
  may_open :: "string \<Rightarrow> bool"
  write_ok :: "string \<Rightarrow> bytes \<Rightarrow> bool"
  stored :: "string \<Rightarrow> bytes \<Rightarrow> bytes"

definition getFileSize :: "disk \<Rightarrow> string \<Rightarrow> nat res" where
  "getFileSize d filePath =
     (case d filePath of None \<Rightarrow> Inl (RuntimeError ''Failed to open file: '') | Some c \<Rightarrow> Inr (length c))"

definition File_read :: "disk \<Rightarrow> string \<Rightarrow> bytes res" where
  "File_read d filePath =
     (case d filePath of None \<Rightarrow> Inl (RuntimeError ''Failed to open file: '') | Some c \<Rightarrow> Inr c)"

definition createFile :: "write_env \<Rightarrow> string \<Rightarrow> bytes \<Rightarrow> disk \<Rightarrow> disk \<times> unit res" where
  "createFile env filePath binaryContent d =
     (if \<not> may_open env filePath then (d, Inl (RuntimeError ''Failed to open file: ''))
      else
        (d(filePath \<mapsto> stored env filePath binaryContent),
         if \<not> write_ok env filePath binaryContent then Inl (RuntimeError ''Failed to write data to file: '')
         else Inr ()))"

lemma read_created:
  "createFile env p c d = (d', Inr ()) \<Longrightarrow> stored env p c = c \<Longrightarrow>
   File_read d' p = Inr c \<and> getFileSize d' p = Inr (length c)"
  by (auto simp: createFile_def File_read_def getFileSize_def split: if_splits)

end
