(* ===== verification/TorrentOps.thy ===== *)
theory TorrentOps
  imports PieceManager Hashing
begin

text \<open>
  The operations of \<open>src/models/torrentFile.cpp\<close>: reading the metadata of a torrent from
  a decoded value (\<open>ValueToField\<close>, \<open>parseTorrentFile\<close>), writing it as a value (\<open>toValue\<close>),
  its info hash, and creating it from a file or a folder.
\<close>

section \<open>From a value\<close>

text \<open>
  \<open>ValueToField\<close>: the visitor with its \<open>currentKey\<close>. A member of type
  \<open>unsigned long long\<close> goes to the overload for \<open>int\<close>. Assigning an \<open>int\<close> to
  \<open>pieceLength\<close> extends its sign.
\<close>

definition visit_int :: "string \<Rightarrow> cint \<Rightarrow> torrent_file \<Rightarrow> torrent_file" where
  "visit_int currentKey value t =
     (if currentKey = ''creation date'' then t\<lparr>creationDate := Some (sint value)\<rparr>
      else if currentKey = ''piece length'' then t\<lparr>info := (info t)\<lparr>pieceLength := Some (scast value)\<rparr>\<rparr>
      else t)"

definition visit_string :: "string \<Rightarrow> string \<Rightarrow> torrent_file \<Rightarrow> torrent_file" where
  "visit_string currentKey value t =
     (if currentKey = ''announce'' then t\<lparr>announce := value\<rparr>
      else if currentKey = ''created by'' then t\<lparr>createdBy := Some value\<rparr>
      else if currentKey = ''name'' then t\<lparr>info := (info t)\<lparr>info_name := value\<rparr>\<rparr>
      else if currentKey = ''pieces'' then t\<lparr>info := (info t)\<lparr>pieces := value\<rparr>\<rparr>
      else t)"

text \<open>The groups of \<open>announce-list\<close>; \<open>boost::get<string>\<close> throws on anything but a string.\<close>

fun get_strings :: "bvalue list \<Rightarrow> string list res" where
  "get_strings [] = Inr []"
| "get_strings (v # vs) =
     (case as_str v of None \<Rightarrow> Inl BadVariantGet | Some s \<Rightarrow> rbind (get_strings vs) (\<lambda>ss. Inr (s # ss)))"

fun visit_tiers :: "bvalue list \<Rightarrow> string list list \<Rightarrow> string list list res" where
  "visit_tiers [] acc = Inr acc"
| "visit_tiers (v # vs) acc =
     (case as_list v of
        None \<Rightarrow> visit_tiers vs acc
      | Some grp \<Rightarrow> rbind (get_strings grp) (\<lambda>g. visit_tiers vs (acc @ [g])))"

text \<open>
  One entry of \<open>files\<close>. \<open>length\<close> is taken from the alternative \<open>int\<close> only, and stays
  uninitialised otherwise; path components that are not strings are skipped.
\<close>

fun path_strings :: "bvalue list \<Rightarrow> string list" where
  "path_strings [] = []"
| "path_strings (v # vs) = (case as_str v of None \<Rightarrow> path_strings vs | Some s \<Rightarrow> s # path_strings vs)"

fun visit_file_entries :: "(string, bvalue) smap \<Rightarrow> file_info \<Rightarrow> file_info" where
  "visit_file_entries [] f = f"
| "visit_file_entries ((key, fileValue) # d) f =
     visit_file_entries d
       (if key = ''length'' then (case as_int fileValue of Some i \<Rightarrow> f\<lparr>length_of := Some (scast i)\<rparr> | None \<Rightarrow> f)
        else if key = ''path'' then (case as_list fileValue of Some vs \<Rightarrow> f\<lparr>path := path f @ path_strings vs\<rparr> | None \<Rightarrow> f)
        else f)"

text \<open>
  \<open>push_back\<close> copies the whole \<open>TorrentFileInfo\<close>, an uninitialised \<open>length\<close> with it. The convention of the models is
  that a copy of a whole object copies the absence of a value, and that only reading the member itself
  (\<open>fileInfo.length\<close> in \<open>getTotalFileSize\<close>, \<open>toValue\<close> and the preview) is undefined. By the letter of the standard the copy is undefined
  already, so that what the models say of a torrent with a list of files is what compilers make of it.
\<close>

definition visit_file :: "(string, bvalue) smap \<Rightarrow> file_info" where
  "visit_file fileDict = visit_file_entries fileDict \<lparr>length_of = None, path = []\<rparr>"

fun visit_files :: "bvalue list \<Rightarrow> file_info list" where
  "visit_files [] = []"
| "visit_files (v # vs) =
     (case as_dict v of None \<Rightarrow> visit_files vs | Some d \<Rightarrow> visit_file d # visit_files vs)"

definition visit_list :: "string \<Rightarrow> bvalue list \<Rightarrow> torrent_file \<Rightarrow> torrent_file res" where
  "visit_list currentKey vs t =
     (if currentKey = ''announce-list''
      then rbind (visit_tiers vs (announceList t)) (\<lambda>a. Inr (t\<lparr>announceList := a\<rparr>))
      else if currentKey = ''files'' then Inr (t\<lparr>info := (info t)\<lparr>files := files (info t) @ visit_files vs\<rparr>\<rparr>)
      else Inr t)"

fun visit :: "bvalue \<Rightarrow> string \<Rightarrow> torrent_file \<Rightarrow> torrent_file res"
  and visit_entries :: "(string, bvalue) smap \<Rightarrow> torrent_file \<Rightarrow> torrent_file res" where
  "visit (VInt i) currentKey t = Inr (visit_int currentKey i t)"
| "visit (VULL n) currentKey t = Inr (visit_int currentKey (ucast n) t)"
| "visit (VStr s) currentKey t = Inr (visit_string currentKey s t)"
| "visit (VList vs) currentKey t = visit_list currentKey vs t"
| "visit (VDict d) currentKey t = (if currentKey = ''info'' then visit_entries d t else Inr t)"
| "visit_entries [] t = Inr t"
| "visit_entries ((key, v) # d) t = rbind (visit v key t) (visit_entries d)"

definition new_torrent :: torrent_file where
  "new_torrent = \<lparr>announce = [], announceList = [], createdBy = None, creationDate = None,
     info = \<lparr>files = [], info_name = [], pieceLength = None, pieces = []\<rparr>\<rparr>"

definition parseTorrentFile :: "bvalue \<Rightarrow> torrent_file res" where
  "parseTorrentFile data =
     (case as_dict data of
        None \<Rightarrow> Inl (InvalidArgument ''Wrong torrent file format'')
      | Some d \<Rightarrow> visit_entries d new_torrent)"

section \<open>To a value\<close>

text \<open>\<open>static_cast<int>(n)\<close>, undefined when \<open>n\<close> was never assigned.\<close>

definition to_int :: "cull option \<Rightarrow> cint res" where
  "to_int n = (case n of None \<Rightarrow> Inl (Undefined Indeterminate) | Some k \<Rightarrow> Inr (ucast k))"

definition file_value :: "file_info \<Rightarrow> bvalue res" where
  "file_value f = rbind (to_int (length_of f)) (\<lambda>n.
     Inr (VDict (map_set ''path'' (VList (map VStr (path f))) (map_set ''length'' (VInt n) []))))"

fun file_values :: "file_info list \<Rightarrow> bvalue list res" where
  "file_values [] = Inr []"
| "file_values (f # fs) = rbind (file_value f) (\<lambda>v. rbind (file_values fs) (\<lambda>vs. Inr (v # vs)))"

definition toValue :: "torrent_file \<Rightarrow> bvalue res" where
  "toValue t =
     (let infoDict = map_set ''name'' (VStr (info_name (info t))) [] in
      rbind (if files (info t) = [] then Inr infoDict
             else rbind (file_values (files (info t))) (\<lambda>fs. Inr (map_set ''files'' (VList fs) infoDict))) (\<lambda>infoDict.
      rbind (to_int (pieceLength (info t))) (\<lambda>pl.
        (let infoDict = map_set ''pieces'' (VStr (pieces (info t))) (map_set ''piece length'' (VInt pl) infoDict);
             result = map_set ''info'' (VDict infoDict) [];
             result = map_set ''announce-list'' (VList (map (\<lambda>tier. VList (map VStr tier)) (announceList t))) result;
             result = (case createdBy t of None \<Rightarrow> result | Some s \<Rightarrow> map_set ''created by'' (VStr s) result);
             result = (case creationDate t of None \<Rightarrow> result
                       | Some d \<Rightarrow> map_set ''creation date'' (VInt (word_of_int d)) result)
         in Inr (VDict (map_set ''announce'' (VStr (announce t)) result))))))"

section \<open>The info hash\<close>

definition info_dict :: "torrent_file \<Rightarrow> bvalue res" where
  "info_dict t =
     rbind (to_int (pieceLength (info t))) (\<lambda>pl.
       (let infoDict = map_set ''pieces'' (VStr (pieces (info t)))
              (map_set ''piece length'' (VInt pl) (map_set ''name'' (VStr (info_name (info t))) [])) in
        if length (files (info t)) = 1
        then rbind (to_int (length_of (files (info t) ! 0))) (\<lambda>n. Inr (VDict (map_set ''length'' (VInt n) infoDict)))
        else rbind (file_values (files (info t))) (\<lambda>fs. Inr (VDict (map_set ''files'' (VList fs) infoDict)))))"

definition computeInfoHash :: "digest \<Rightarrow> torrent_file \<Rightarrow> bytes res" where
  "computeInfoHash dg t =
     rbind (info_dict t) (\<lambda>d. rbind (encode d) (\<lambda>infoEncoded.
       Inr (concat (map (\<lambda>part. map (\<lambda>j. char_of (unat ((drop_bit (24 - j * 8) part AND 0xFF) :: cint))) [0, 1, 2, 3])
              (take 5 (dg infoEncoded))))))"

section \<open>Creating a torrent\<close>

text \<open>
  What the code asks of the file system about a path: nothing there, a regular file with
  its size and name, a folder with the regular files below it in the order of the
  iteration (path, components of the path relative to the folder, size), or something else.
\<close>

datatype fs_node =
    Absent
  | RegularFile cull string
  | Folder "(string \<times> string list \<times> cull) list"
  | OtherNode

definition folder_files :: "(string \<times> string list \<times> cull) list \<Rightarrow> file_info list" where
  "folder_files es = map (\<lambda>(p, comps, n). \<lparr>length_of = Some n, path = comps\<rparr>) es"

definition create_info :: "fs_node \<Rightarrow> string \<Rightarrow> (file_info list \<times> string list \<times> cull) res" where
  "create_info node folderPath =
     (case node of
        Absent \<Rightarrow> Inl (RuntimeError ''Invalid path: '')
      | RegularFile n nm \<Rightarrow> Inr ([\<lparr>length_of = Some n, path = [nm]\<rparr>], [folderPath], n)
      | Folder es \<Rightarrow>
          if es = [] then Inl (RuntimeError ''The folder is empty: '')
          else Inr (folder_files es, map fst es, foldl (\<lambda>a (p, comps, n). a + n) 0 es)
      | OtherNode \<Rightarrow> Inl (RuntimeError ''The path is neither a file nor a directory: ''))"

definition createTorrentFile :: "digest \<Rightarrow> (string \<Rightarrow> bytes option) \<Rightarrow> (string \<Rightarrow> fs_node) \<Rightarrow> string
    \<Rightarrow> string list list \<Rightarrow> string \<Rightarrow> string \<Rightarrow> string option \<Rightarrow> int option \<Rightarrow> torrent_file res" where
  "createTorrentFile dg open_file node ann annList nm folderPath by_opt date =
     rbind (create_info (node folderPath) folderPath) (\<lambda>(infoFiles, fullPaths, filesSize).
       (let pl = choosePieceLength filesSize in
        rbind (createHash dg open_file fullPaths (unat pl)) (\<lambda>pcs.
          Inr \<lparr>announce = ann, announceList = annList, createdBy = by_opt, creationDate = date,
            info = \<lparr>files = infoFiles, info_name = nm, pieceLength = Some pl, pieces = pcs\<rparr>\<rparr>)))"

section \<open>What the decoder gives to the reader\<close>

fun no_int :: "bvalue \<Rightarrow> bool" where
  "no_int (VInt i) = False"
| "no_int (VList vs) = list_all no_int vs"
| "no_int (VDict d) = list_all (\<lambda>(k, v). no_int v) d"
| "no_int _ = True"

lemma no_int_map_set:
  "list_all (\<lambda>(k, v). no_int v) d \<Longrightarrow> no_int v \<Longrightarrow> list_all (\<lambda>(k, v). no_int v) (map_set k v d)"
  by (induction k v d rule: map_set.induct) auto

lemma decode_no_int_at:
  "decode_at lc f s = Inr (v, n) \<Longrightarrow> no_int v"
  "decodeList_loop lc f s i xs = Inr (ys, n) \<Longrightarrow> list_all no_int xs \<Longrightarrow> list_all no_int ys"
  "decodeDict_loop lc f s i d = Inr (d', n) \<Longrightarrow> no_int (VDict d) \<Longrightarrow> no_int (VDict d')"
proof (induction f arbitrary: s v n i xs ys d d')
  case (Suc f)
  {
    case 1
    then show ?case
      by (cases rule: decode_at_InrE) (auto dest: Suc.IH(2,3))
  next
    case 2
    then show ?case
      by (cases rule: decodeList_loop_InrE) (auto dest!: Suc.IH(1,2))
  next
    case 3
    then show ?case
    proof (cases rule: decodeDict_loop_InrE)
      case (item key k v m)
      from Suc.IH(1)[OF item(5)] 3(2) have "no_int (VDict (map_set key v d))" by (simp add: no_int_map_set)
      with Suc.IH(3)[OF item(6)] show ?thesis by simp
    qed auto
  }
qed auto

text \<open>
  C34. Typing of decoded values: the alternative \<open>int\<close> of the variant occurs nowhere in a
  value that \<open>Decoder::decode\<close> returns, at any depth; every integer is an
  \<open>unsigned long long\<close>.
\<close>

theorem decoded_has_no_int:
  assumes "decode lc s = Inr v"
  shows "no_int v"
  using assms by (auto simp: decode_def decode_prefix_def rbind_Inr_iff dest: decode_no_int_at(1))

lemma decoded_has_no_int_witness:
  "decode lexcast_ref ''d1:ai2e1:bli3eee'' = Inr (VDict [(''a'', VULL 2), (''b'', VList [VULL 3])])
   \<and> no_int (VDict [(''a'', VULL 2), (''b'', VList [VULL 3])])"
proof -
  have "decode lexcast_ref ''d1:ai2e1:bli3eee'' = Inr (VDict [(''a'', VULL 2), (''b'', VList [VULL 3])])"
    by (simp add: decode_eval)
  with decoded_has_no_int[OF this] show ?thesis by blast
qed

definition lengths_unset :: "torrent_file \<Rightarrow> bool" where
  "lengths_unset t \<longleftrightarrow> (\<forall>f \<in> set (files (info t)). length_of f = None)"

lemma visit_file_unset:
  "list_all (\<lambda>(k, v). no_int v) d \<Longrightarrow> length_of f = None \<Longrightarrow> length_of (visit_file_entries d f) = None"
proof (induction d f rule: visit_file_entries.induct)
  case (2 key fv d f)
  from 2(2) have "as_int fv = None" by (cases fv) auto
  with 2 show ?case by (auto split: option.splits)
qed simp

lemma visit_files_unset: "list_all no_int vs \<Longrightarrow> f \<in> set (visit_files vs) \<Longrightarrow> length_of f = None"
  by (induction vs) (auto simp: visit_file_def visit_file_unset split: option.splits)

lemma visit_unset:
  "visit v key t = Inr t' \<Longrightarrow> no_int v \<Longrightarrow> lengths_unset t \<Longrightarrow> lengths_unset t'"
  "visit_entries d t = Inr t' \<Longrightarrow> list_all (\<lambda>(k, v). no_int v) d \<Longrightarrow> lengths_unset t \<Longrightarrow> lengths_unset t'"
proof (induction v key t and d t arbitrary: t' and t' rule: visit_visit_entries.induct)
  case (4 vs key t)
  then show ?case
    by (auto simp: visit_list_def rbind_Inr_iff lengths_unset_def visit_files_unset split: if_splits)
next
  case (7 key v d t)
  then show ?case by (auto simp: rbind_Inr_iff)
qed (auto simp: visit_int_def visit_string_def lengths_unset_def split: if_splits)

lemma file_values_unset:
  "fs \<noteq> [] \<Longrightarrow> \<forall>f \<in> set fs. length_of f = None \<Longrightarrow> file_values fs = Inl (Undefined Indeterminate)"
  by (cases fs) (auto simp: file_value_def to_int_def)

lemma unset_unusable:
  assumes "files (info t) \<noteq> []" and u: "\<forall>f \<in> set (files (info t)). length_of f = None"
  shows "toValue t = Inl (Undefined Indeterminate)" "computeInfoHash dg t = Inl (Undefined Indeterminate)"
    "PieceManager opened t = Inl (Undefined Indeterminate)"
proof -
  note fv = file_values_unset[OF assms]
  show "toValue t = Inl (Undefined Indeterminate)" using assms(1) fv by (simp add: toValue_def)
  have pl: "to_int (pieceLength (info t)) = Inl (Undefined Indeterminate) \<or> is_ok (to_int (pieceLength (info t)))"
    by (auto simp: to_int_def split: option.splits)
  have "files (info t) ! 0 \<in> set (files (info t))" using assms(1) by simp
  with u have "to_int (length_of (files (info t) ! 0)) = Inl (Undefined Indeterminate)" by (simp add: to_int_def)
  with fv pl show "computeInfoHash dg t = Inl (Undefined Indeterminate)"
    by (auto simp: computeInfoHash_def info_dict_def is_ok_iff Let_def)
  have "sum_lengths (files (info t)) 0 = Inl (Undefined Indeterminate)"
    using assms(1) u by (cases "files (info t)") auto
  then show "PieceManager opened t = Inl (Undefined Indeterminate)"
    by (auto simp: PieceManager_def initiatePieces_def getTotalFileSize_def split: option.splits)
qed

text \<open>
  C17. Metadata that was read from the bytes of a torrent with a \<open>files\<close> list cannot be
  used: no file ever gets its length, because the reader takes it from the alternative
  \<open>int\<close> only, and writing the metadata, the info hash and the constructor of the piece
  manager all use the uninitialised length.
\<close>

theorem read_lengths_uninitialised:
  assumes "decode lc s = Inr v" "parseTorrentFile v = Inr t" "files (info t) \<noteq> []"
  shows "(\<forall>f \<in> set (files (info t)). length_of f = None) \<and>
    toValue t = Inl (Undefined Indeterminate) \<and> computeInfoHash dg t = Inl (Undefined Indeterminate) \<and>
    PieceManager opened t = Inl (Undefined Indeterminate)"
proof -
  have "no_int v" using assms(1) by (auto simp: decode_def decode_prefix_def rbind_Inr_iff dest: decode_no_int_at(1))
  then have "lengths_unset t"
    using assms(2) visit_unset(2) by (auto simp: parseTorrentFile_def lengths_unset_def new_torrent_def split: option.splits)
  then have u: "\<forall>f \<in> set (files (info t)). length_of f = None" by (simp add: lengths_unset_def)
  with unset_unusable[OF assms(3)] show ?thesis by blast
qed

lemma read_lengths_uninitialised_witness:
  "\<exists>t. decode lexcast_ref ''d4:infod5:filesld6:lengthi7e4:pathl1:aeee12:piece lengthi16384eee''
       = Inr (VDict [(''info'', VDict [(''files'', VList [VDict [(''length'', VULL 7), (''path'', VList [VStr ''a''])]]),
           (''piece length'', VULL 16384)])]) \<and>
     parseTorrentFile (VDict [(''info'', VDict [(''files'', VList [VDict [(''length'', VULL 7), (''path'', VList [VStr ''a''])]]),
           (''piece length'', VULL 16384)])]) = Inr t \<and> PieceManager True t = Inl (Undefined Indeterminate)"
proof -
  let ?v = "VDict [(''info'', VDict [(''files'', VList [VDict [(''length'', VULL 7), (''path'', VList [VStr ''a''])]]),
           (''piece length'', VULL 16384)])]"
  have d: "decode lexcast_ref ''d4:infod5:filesld6:lengthi7e4:pathl1:aeee12:piece lengthi16384eee'' = Inr ?v"
    by (simp add: decode_eval)
  obtain t where p: "parseTorrentFile ?v = Inr t" and f: "files (info t) \<noteq> []"
    by (simp add: parseTorrentFile_def new_torrent_def visit_list_def visit_int_def)
  with read_lengths_uninitialised[OF d p f] d show ?thesis by blast
qed

section \<open>Writing and reading back\<close>

text \<open>The value of a torrent as one list of entries in key order.\<close>

definition opt_entry :: "string \<Rightarrow> bvalue option \<Rightarrow> (string, bvalue) smap" where
  "opt_entry k v = (case v of None \<Rightarrow> [] | Some x \<Rightarrow> [(k, x)])"

definition tiers_value :: "string list list \<Rightarrow> bvalue" where
  "tiers_value ts = VList (map (\<lambda>tier. VList (map VStr tier)) ts)"

lemma file_value_eq:
  "file_value f = rbind (to_int (length_of f)) (\<lambda>n.
     Inr (VDict [(''length'', VInt n), (''path'', VList (map VStr (path f)))]))"
  by (simp add: file_value_def)

lemma toValue_eq:
  assumes "to_int (pieceLength (info t)) = Inr pl" "file_values (files (info t)) = Inr fs"
  shows "toValue t = Inr (VDict ([(''announce'', VStr (announce t)), (''announce-list'', tiers_value (announceList t))]
     @ opt_entry ''created by'' (map_option VStr (createdBy t))
     @ opt_entry ''creation date'' (map_option (\<lambda>d. VInt (word_of_int d)) (creationDate t))
     @ [(''info'', VDict (opt_entry ''files'' (if fs = [] then None else Some (VList fs))
          @ [(''name'', VStr (info_name (info t))), (''piece length'', VInt pl), (''pieces'', VStr (pieces (info t)))]))]))"
proof -
  have fs: "files (info t) = [] \<longleftrightarrow> fs = []"
    using assms(2) by (cases "files (info t)") (auto simp: rbind_Inr_iff)
  show ?thesis
    by (cases "createdBy t"; cases "creationDate t"; cases "fs = []")
      (use assms fs in \<open>simp_all add: toValue_def opt_entry_def tiers_value_def Let_def\<close>)
qed

text \<open>Every number goes through \<open>int\<close>: what is left of it.\<close>

definition through_int :: "cull \<Rightarrow> cull" where
  "through_int n = scast (ucast n :: cint)"

definition trunc_file :: "file_info \<Rightarrow> file_info" where
  "trunc_file f = f\<lparr>length_of := map_option through_int (length_of f)\<rparr>"

definition trunc_torrent :: "torrent_file \<Rightarrow> torrent_file" where
  "trunc_torrent t = t\<lparr>creationDate := map_option (\<lambda>d. sint (word_of_int d :: cint)) (creationDate t),
     info := (info t)\<lparr>files := map trunc_file (files (info t)), pieceLength := map_option through_int (pieceLength (info t))\<rparr>\<rparr>"

lemma path_strings_VStr [simp]: "path_strings (map VStr ss) = ss"
  by (induction ss) simp_all

lemma get_strings_VStr [simp]: "get_strings (map VStr ss) = Inr ss"
  by (induction ss) simp_all

lemma visit_tiers_value: "visit_tiers (map (\<lambda>tier. VList (map VStr tier)) ts) acc = Inr (acc @ ts)"
  by (induction ts arbitrary: acc) simp_all

lemma visit_file_value: "file_value f = Inr v \<Longrightarrow> \<exists>d. v = VDict d \<and> visit_file d = trunc_file f"
  by (auto simp: file_value_eq rbind_Inr_iff to_int_def visit_file_def trunc_file_def through_int_def split: option.splits)

lemma visit_file_values: "file_values fs = Inr vs \<Longrightarrow> visit_files vs = map trunc_file fs"
proof (induction fs arbitrary: vs)
  case (Cons f fs)
  then obtain v vs' where v: "file_value f = Inr v" "file_values fs = Inr vs'" "vs = v # vs'"
    by (auto simp: rbind_Inr_iff)
  with Cons.IH[of vs'] visit_file_value[OF v(1)] show ?case by auto
qed simp

lemma file_values_ok: "(\<exists>vs. file_values fs = Inr vs) \<longleftrightarrow> (\<forall>f \<in> set fs. length_of f \<noteq> None)"
  by (induction fs) (auto simp: rbind_Inr_iff file_value_eq to_int_def split: option.splits)

text \<open>
  C32. Round trip of the metadata: whenever every number of a torrent is set, \<open>toValue\<close>
  writes a value from which \<open>parseTorrentFile\<close> reads the same metadata, except that every
  length, the piece length and the date have gone through a 32-bit \<open>int\<close>.
\<close>

theorem parse_toValue:
  assumes "pieceLength (info t) \<noteq> None" "\<forall>f \<in> set (files (info t)). length_of f \<noteq> None"
  shows "\<exists>v. toValue t = Inr v \<and> parseTorrentFile v = Inr (trunc_torrent t)"
proof -
  obtain n where n: "pieceLength (info t) = Some n" using assms(1) by blast
  obtain fs where fs: "file_values (files (info t)) = Inr fs" using assms(2) file_values_ok by blast
  have pl: "to_int (pieceLength (info t)) = Inr (ucast n)" by (simp add: to_int_def n)
  note fv = visit_file_values[OF fs]
  have e: "fs = [] \<longleftrightarrow> files (info t) = []" using fs by (cases "files (info t)") (auto simp: rbind_Inr_iff)
  show ?thesis
    unfolding toValue_eq[OF pl fs]
    by (cases "createdBy t"; cases "creationDate t"; cases "fs = []")
      (use fv e n in \<open>simp_all add: opt_entry_def tiers_value_def parseTorrentFile_def new_torrent_def visit_list_def
        visit_tiers_value visit_int_def visit_string_def trunc_torrent_def through_int_def\<close>)
qed

definition ex_meta :: torrent_file where
  "ex_meta = \<lparr>announce = ''http://t'', announceList = [[''http://t''], [''udp://u'']], createdBy = Some ''UFO'',
     creationDate = Some 1700000000, info = \<lparr>files = [\<lparr>length_of = Some 3, path = [''a'']\<rparr>,
       \<lparr>length_of = Some 0x100000007, path = [''b'', ''c'']\<rparr>], info_name = ''d'', pieceLength = Some 16384, pieces = ''h''\<rparr>\<rparr>"

lemma parse_toValue_witness:
  "\<exists>v. toValue ex_meta = Inr v \<and> parseTorrentFile v = Inr (ex_meta\<lparr>info := (info ex_meta)\<lparr>files :=
     [\<lparr>length_of = Some 3, path = [''a'']\<rparr>, \<lparr>length_of = Some 7, path = [''b'', ''c'']\<rparr>]\<rparr>\<rparr>)"
proof -
  have "trunc_torrent ex_meta = ex_meta\<lparr>info := (info ex_meta)\<lparr>files :=
     [\<lparr>length_of = Some 3, path = [''a'']\<rparr>, \<lparr>length_of = Some 7, path = [''b'', ''c'']\<rparr>]\<rparr>\<rparr>"
    by (simp add: trunc_torrent_def ex_meta_def trunc_file_def through_int_def)
  with parse_toValue[of ex_meta] show ?thesis by (simp add: ex_meta_def)
qed

section \<open>The info hash\<close>

lemma be_bytes: "map (\<lambda>j. char_of (unat ((drop_bit (24 - j * 8) part AND 0xFF) :: cint))) [0, 1, 2, 3] = be32 part"
proof -
  have "char_of (unat ((w AND 0xFF) :: cint)) = (char_of (unat w) :: char)" for w
  proof -
    have "w AND 0xFF = take_bit 8 w" by (simp add: take_bit_eq_mask mask_eq_exp_minus_1)
    then have "unat (w AND 0xFF) = unat w mod 256" by (simp add: take_bit_eq_mod unat_mod)
    then show ?thesis by (simp add: char_of_mod_256)
  qed
  then show ?thesis by (simp add: be32_def)
qed

lemma computeInfoHash_eq:
  assumes "digest_ok dg" "info_dict t = Inr d" "encode d = Inr e"
  shows "computeInfoHash dg t = Inr (fips_sha1 e)"
proof -
  have "length (dg e) = 5" "concat (map be32 (dg e)) = fips_sha1 e" using assms(1) by (auto simp: digest_ok_def)
  with assms(2,3) show ?thesis unfolding computeInfoHash_def be_bytes by simp
qed

lemma info_dict_eq:
  assumes "to_int (pieceLength (info t)) = Inr pl" "file_values (files (info t)) = Inr fs"
  shows "info_dict t = Inr (VDict (
     if length (files (info t)) = 1
     then [(''length'', VInt (ucast (the (length_of (files (info t) ! 0))))), (''name'', VStr (info_name (info t))),
           (''piece length'', VInt pl), (''pieces'', VStr (pieces (info t)))]
     else [(''files'', VList fs), (''name'', VStr (info_name (info t))),
           (''piece length'', VInt pl), (''pieces'', VStr (pieces (info t)))]))"
proof (cases "length (files (info t)) = 1")
  case True
  then obtain f where f: "files (info t) = [f]" by (auto simp: length_Suc_conv)
  with assms(2) obtain n where "length_of f = Some n"
    by (auto simp: rbind_Inr_iff file_value_eq to_int_def split: option.splits)
  with assms f show ?thesis by (simp add: info_dict_def to_int_def)
qed (use assms in \<open>simp add: info_dict_def\<close>)

text \<open>
  C33. The info hash against the file that is written: \<open>computeInfoHash\<close> is the SHA-1 of a
  dictionary of its own, which is the \<open>info\<close> dictionary of the written torrent exactly
  when the torrent has at least two files. For a single file, or none, the client
  announces itself under a hash that belongs to no dictionary in the file.
\<close>

theorem infoHash_of_written:
  assumes "digest_ok dg" "toValue t = Inr v"
  shows "\<exists>r i d. v = VDict r \<and> map_get r ''info'' = Some i \<and> info_dict t = Inr d \<and>
    (\<forall>e. encode d = Inr e \<longrightarrow> computeInfoHash dg t = Inr (fips_sha1 e)) \<and>
    (d = i \<longleftrightarrow> 2 \<le> length (files (info t)))"
proof -
  obtain pl where pl: "to_int (pieceLength (info t)) = Inr pl"
    using assms(2) by (auto simp: toValue_def Let_def rbind_Inr_iff)
  obtain fs where fs: "file_values (files (info t)) = Inr fs"
    using assms(2) by (cases "files (info t) = []") (auto simp: toValue_def Let_def rbind_Inr_iff)
  have e: "fs = [] \<longleftrightarrow> files (info t) = []" using fs by (cases "files (info t)") (auto simp: rbind_Inr_iff)
  note v = assms(2)[unfolded toValue_eq[OF pl fs]]
  let ?i = "VDict (opt_entry ''files'' (if fs = [] then None else Some (VList fs))
          @ [(''name'', VStr (info_name (info t))), (''piece length'', VInt pl), (''pieces'', VStr (pieces (info t)))])"
  from v obtain r where r: "v = VDict r" "map_get r ''info'' = Some ?i"
    by (cases "createdBy t"; cases "creationDate t") (auto simp: map_get_def opt_entry_def)
  have "the_elem {VDict (if length (files (info t)) = 1
     then [(''length'', VInt (ucast (the (length_of (files (info t) ! 0))))), (''name'', VStr (info_name (info t))),
           (''piece length'', VInt pl), (''pieces'', VStr (pieces (info t)))]
     else [(''files'', VList fs), (''name'', VStr (info_name (info t))),
           (''piece length'', VInt pl), (''pieces'', VStr (pieces (info t)))])} = ?i
      \<longleftrightarrow> 2 \<le> length (files (info t))"
    using e by (cases "files (info t)"; cases "tl (files (info t))") (auto simp: opt_entry_def)
  with r info_dict_eq[OF pl fs] computeInfoHash_eq[OF assms(1)] show ?thesis by auto
qed

lemma infoHash_of_written_witness:
  "\<exists>d e. info_dict ex_meta = Inr d \<and> encode d = Inr e \<and> computeInfoHash digest_ref ex_meta = Inr (fips_sha1 e)"
proof -
  obtain v where v: "toValue ex_meta = Inr v"
    by (simp add: toValue_def ex_meta_def to_int_def file_value_def)
  obtain d where d: "info_dict ex_meta = Inr d" "is_ok (encode d)"
    by (simp add: info_dict_def ex_meta_def to_int_def file_value_def encode_is_ok)
  then obtain e where "encode d = Inr e" by (auto simp: is_ok_iff)
  with infoHash_of_written[OF digest_ref_ok v] d(1) show ?thesis by auto
qed

end
