(* ===== verification/Tracker.thy ===== *)
theory Tracker
  imports Bencode NetUtils
begin

text \<open>
  \<open>src/network_part/PeerRetriever.cpp\<close>: the request to the tracker and the peers in its
  response. The transfer itself (curl) is a function from the URL to what it delivers.
\<close>

record peer =
  host :: string
  port :: int

section \<open>The response\<close>

text \<open>
  The compact form: six bytes for each peer. A loop of six steps over a string whose
  length is a multiple of six.
\<close>

definition compact_peer :: "bytes \<Rightarrow> peer" where
  "compact_peer b =
     \<lparr>host = dec_nat (byte_val (b ! 0)) @ ''.'' @ dec_nat (byte_val (b ! 1)) @ ''.''
        @ dec_nat (byte_val (b ! 2)) @ ''.'' @ dec_nat (byte_val (b ! 3)),
      port = sint (push_bit 8 (of_nat (byte_val (b ! 4))) OR of_nat (byte_val (b ! 5)) :: cint)\<rparr>"

function compact_peers :: "bytes \<Rightarrow> peer list" where
  "compact_peers s = (if s = [] then [] else compact_peer s # compact_peers (drop 6 s))"
  by pat_completeness auto
termination by (relation "measure length") auto

declare compact_peers.simps [simp del]

text \<open>The other form: a list of dictionaries. An entry without a usable address is skipped.\<close>

definition dict_peer :: "(string, bvalue) smap \<Rightarrow> peer option" where
  "dict_peer d =
     (let ip = (case map_get d ''ip'' of
                  Some v \<Rightarrow> (case as_str v of Some s \<Rightarrow> s | None \<Rightarrow> [])
                | None \<Rightarrow> []);
          pt = (case map_get d ''port'' of
                  Some v \<Rightarrow> (case as_ull v of
                      Some p \<Rightarrow> (ucast p :: cint)
                    | None \<Rightarrow> (case as_int v of Some p \<Rightarrow> p | None \<Rightarrow> 0))
                | None \<Rightarrow> 0)
      in if ip \<noteq> [] \<and> 0 < sint pt then Some \<lparr>host = ip, port = sint pt\<rparr> else None)"

fun list_peers :: "bvalue list \<Rightarrow> peer list" where
  "list_peers [] = []"
| "list_peers (item # items) =
     (case as_dict item of
        None \<Rightarrow> list_peers items
      | Some d \<Rightarrow> (case dict_peer d of None \<Rightarrow> list_peers items | Some p \<Rightarrow> p # list_peers items))"

definition peers_of_value :: "bvalue \<Rightarrow> peer list res" where
  "peers_of_value v =
     (case as_str v of
        Some s \<Rightarrow>
          if length s mod 6 \<noteq> 0 then Inl (RuntimeError ''Invalid compact peers format'')
          else Inr (compact_peers s)
      | None \<Rightarrow>
          (case as_list v of
             Some items \<Rightarrow> Inr (list_peers items)
           | None \<Rightarrow> Inl (RuntimeError ''Invalid 'peers' format in tracker response'')))"

definition decodeResponse :: "lexcast \<Rightarrow> string \<Rightarrow> peer list res" where
  "decodeResponse lc response =
     rbind (decode lc response) (\<lambda>decoded.
       case as_dict decoded of
         None \<Rightarrow> Inl (RuntimeError ''Invalid tracker response: expected dictionary'')
       | Some responseDict \<Rightarrow>
           (case map_get responseDict ''peers'' of
              None \<Rightarrow> Inl (RuntimeError ''Missing 'peers' field in tracker response'')
            | Some v \<Rightarrow> peers_of_value v))"

section \<open>The request\<close>

record retriever =
  announceUrl :: string
  hashParam :: string
  ownId :: string
  ownPort :: int
  fileSize :: cull

record curl_env =
  curl_init :: bool
  curl_perform :: "string \<Rightarrow> (int \<times> bytes) option"

definition request_url :: "retriever \<Rightarrow> cull \<Rightarrow> string" where
  "request_url r bytesDown =
     announceUrl r @ ''?info_hash='' @ hashParam r @ ''&peer_id='' @ ownId r
       @ ''&port='' @ dec_int (ownPort r) @ ''&uploaded=0''
       @ ''&downloaded='' @ dec_nat (unat bytesDown)
       @ ''&left='' @ dec_nat (unat (fileSize r - bytesDown)) @ ''&compact=1''"

text \<open>A transfer that fails, or a status other than 200, gives no peers.\<close>

definition retrievePeers :: "lexcast \<Rightarrow> curl_env \<Rightarrow> retriever \<Rightarrow> cull \<Rightarrow> peer list res" where
  "retrievePeers lc env r bytesDown =
     (if \<not> curl_init env then Inl (RuntimeError ''Failed to initialize cURL'')
      else case curl_perform env (request_url r bytesDown) of
        None \<Rightarrow> Inr []
      | Some (http_code, readBuffer) \<Rightarrow>
          if http_code = 200 then decodeResponse lc readBuffer else Inr [])"

section \<open>What comes back\<close>

text \<open>The compact encoding of a peer: four bytes of its address and two of its port.\<close>

type_synonym endpoint = "nat \<times> nat \<times> nat \<times> nat \<times> nat"

definition endpoint_ok :: "endpoint \<Rightarrow> bool" where
  "endpoint_ok e = (case e of (a, b, c, d, p) \<Rightarrow> a < 256 \<and> b < 256 \<and> c < 256 \<and> d < 256 \<and> p < 65536)"

definition endpoint_bytes :: "endpoint \<Rightarrow> bytes" where
  "endpoint_bytes e = (case e of (a, b, c, d, p) \<Rightarrow> map char_of [a, b, c, d, p div 256, p mod 256])"

definition endpoint_peer :: "endpoint \<Rightarrow> peer" where
  "endpoint_peer e = (case e of (a, b, c, d, p) \<Rightarrow>
     \<lparr>host = dec_nat a @ ''.'' @ dec_nat b @ ''.'' @ dec_nat c @ ''.'' @ dec_nat d, port = int p\<rparr>)"

lemma port_word:
  assumes "p < 65536"
  shows "sint (push_bit 8 (of_nat (p div 256)) OR of_nat (p mod 256) :: cint) = int p"
proof -
  have eq: "push_bit 8 (of_nat (p div 256)) OR of_nat (p mod 256) = (of_nat p :: cint)"
  proof (rule bit_word_eqI)
    fix n assume n: "n < LENGTH(32)"
    have q: "bit (p div 256) m = bit p (m + 8)" for m
    proof -
      have "p div 256 = drop_bit 8 p" by (simp add: drop_bit_eq_div)
      then show ?thesis by (simp add: bit_drop_bit_eq add.commute)
    qed
    have r: "bit (p mod 256) m = (m < 8 \<and> bit p m)" for m
    proof -
      have "p mod 256 = take_bit 8 p" by (simp add: take_bit_eq_mod)
      then show ?thesis by (simp add: bit_take_bit_iff)
    qed
    show "bit (push_bit 8 (of_nat (p div 256)) OR of_nat (p mod 256) :: cint) n = bit (of_nat p :: cint) n"
      using n by (auto simp: bit_simps q r)
  qed
  have L: "LENGTH(32) - Suc 0 = 31" by simp
  have "sint (of_nat p :: cint) = signed_take_bit 31 (uint (of_nat p :: cint))"
    using sint_uint[of "of_nat p :: cint"] unfolding L .
  also have "uint (of_nat p :: cint) = int p" using assms by (simp add: unsigned_of_nat take_bit_nat_eq_self)
  also have "signed_take_bit 31 (int p) = int p" using assms by (simp add: signed_take_bit_int_eq_self)
  finally show ?thesis unfolding eq .
qed

lemma compact_endpoint: "endpoint_ok e \<Longrightarrow> compact_peer (endpoint_bytes e @ s) = endpoint_peer e"
proof -
  assume ok: "endpoint_ok e"
  obtain a b c d p where e: "e = (a, b, c, d, p)" by (cases e)
  with ok have p: "p < 65536" "p div 256 < 256" by (auto simp: endpoint_ok_def intro: less_mult_imp_div_less)
  with ok e port_word[OF p(1)] show ?thesis
    by (simp add: endpoint_ok_def compact_peer_def endpoint_bytes_def endpoint_peer_def)
qed

lemma length_endpoint_bytes: "length (endpoint_bytes e) = 6"
  by (cases e) (simp add: endpoint_bytes_def)

lemma endpoint_bytes_nonempty [simp]: "endpoint_bytes e \<noteq> []"
  using length_endpoint_bytes[of e] by auto

lemma compact_peers_endpoints:
  "list_all endpoint_ok es \<Longrightarrow> compact_peers (concat (map endpoint_bytes es)) = map endpoint_peer es"
proof (induction es)
  case (Cons e es)
  from Cons show ?case
    by (simp add: compact_peers.simps[of "endpoint_bytes e @ concat (map endpoint_bytes es)"] compact_endpoint length_endpoint_bytes)
qed (simp add: compact_peers.simps)

lemma map_get_normv: "map_get (map (\<lambda>(k, v). (k, normv v)) d) k = map_option normv (map_get d k)"
  unfolding map_get_def by (induction d) auto


lemma decode_printed:
  assumes "lexcast_ok lc" "encodable v" "encode v = Inr t"
  shows "decode lc t = Inr (normv v)"
proof -
  have "decode_prefix lc (t @ []) = Inr (normv v, length t)"
    by (rule lexical_cast.decode_prefix_encode[OF lexical_cast.intro[OF assms(1)] assms(2,3)])
  then show ?thesis by (simp add: decode_def)
qed

text \<open>
  C36. The tracker's compact response is read as it was written: from the bencoded
  dictionary with the addresses \<open>es\<close> in compact form under \<open>peers\<close>, whatever else it
  holds, the client gets exactly these peers, in order, with their ports.
\<close>

theorem compact_response:
  assumes "lexcast_ok lc" "encodable (VDict d)" "encode (VDict d) = Inr t"
    and "map_get d ''peers'' = Some (VStr (concat (map endpoint_bytes es)))" "list_all endpoint_ok es"
  shows "decodeResponse lc t = Inr (map endpoint_peer es)"
proof -
  have "length (concat (map endpoint_bytes es)) = 6 * length es"
    by (rule length_concat_const) (rule length_endpoint_bytes)
  then show ?thesis
    using decode_printed[OF assms(1-3)] assms(4) compact_peers_endpoints[OF assms(5)]
    by (simp add: decodeResponse_def map_get_normv peers_of_value_def)
qed

lemmas digit_char_Suc = digit_char_numeral[unfolded numeral_eq_Suc pred_numeral_simps BitM.simps One_nat_def numeral_One]

lemma compact_response_witness:
  "decodeResponse lexcast_ref (''d8:intervali900e5:peers6:'' @ [CHR 0x7F, CHR 0x00, CHR 0x00, CHR 0x01, CHR 0x1F, CHR 0x90] @ ''e'')
   = Inr [\<lparr>host = ''127.0.0.1'', port = 8080\<rparr>]"
proof -
  let ?e = "(127, 0, 0, 1, 8080) :: endpoint"
  have b: "endpoint_bytes ?e = [CHR 0x7F, CHR 0x00, CHR 0x00, CHR 0x01, CHR 0x1F, CHR 0x90]"
    by (simp add: endpoint_bytes_def char_of_def bit_0 drop_bit_eq_div)
  let ?d = "[(''interval'', VInt 900), (''peers'', VStr (endpoint_bytes ?e))]"
  have "encodable (VDict ?d)" by (simp add: str_ok_def length_endpoint_bytes dec_nat.simps int_max_def wf_map_def b)
  moreover have "encode (VDict ?d) = Inr (''d8:intervali900e5:peers6:'' @ endpoint_bytes ?e @ ''e'')"
    by (simp add: encode_int_def encode_str_def dec_int_def dec_nat.simps length_endpoint_bytes digit_char_Suc)
  moreover have "map_get ?d ''peers'' = Some (VStr (concat (map endpoint_bytes [?e])))" by (simp add: map_get_def)
  ultimately have "decodeResponse lexcast_ref (''d8:intervali900e5:peers6:'' @ endpoint_bytes ?e @ ''e'') = Inr (map endpoint_peer [?e])"
    by (rule compact_response[OF lexcast_ref_ok]) (simp add: endpoint_ok_def)
  then show ?thesis by (simp add: b[unfolded One_nat_def] endpoint_peer_def dec_nat.simps)
qed

lemma compact_port_bounds: "0 \<le> port (compact_peer b) \<and> port (compact_peer b) < 65536"
proof -
  let ?p = "256 * byte_val (b ! 4) + byte_val (b ! 5)"
  have "?p < 65536" using nat_of_char_less_256[of "b ! 4"] nat_of_char_less_256[of "b ! 5"] by linarith
  moreover have "?p div 256 = byte_val (b ! 4)" "?p mod 256 = byte_val (b ! 5)" by simp_all
  ultimately show ?thesis using port_word[of ?p] by (simp add: compact_peer_def)
qed

lemma compact_peers_bounds: "p \<in> set (compact_peers s) \<Longrightarrow> 0 \<le> port p \<and> port p < 65536 \<and> host p \<noteq> []"
proof (induction s rule: compact_peers.induct)
  case (1 s)
  then show ?case
    using compact_port_bounds[of s] by (cases "s = []") (auto simp: compact_peers.simps[of "[]"] compact_peers.simps[of s] compact_peer_def)
qed

lemma list_peers_bounds: "p \<in> set (list_peers vs) \<Longrightarrow> 0 < port p \<and> port p < 2 ^ 31 \<and> host p \<noteq> []"
proof (induction vs)
  case (Cons v vs)
  have "sint w < 2 ^ 31" for w :: cint using sint_lt[of w] by simp
  with Cons show ?case by (auto simp: dict_peer_def Let_def split: option.splits if_splits)
qed simp

text \<open>
  C37. Bounds of what a tracker can hand to the client: every peer has a non-empty
  address and a port that is not negative, of 16 bits when the response is compact; the
  other form lets any positive \<open>int\<close> through.
\<close>

theorem response_bounds:
  assumes "decodeResponse lc response = Inr ps" "p \<in> set ps"
  shows "host p \<noteq> [] \<and> 0 \<le> port p \<and> port p < 2 ^ 31 \<and>
    (\<forall>d s. decode lc response = Inr (VDict d) \<longrightarrow> map_get d ''peers'' = Some (VStr s) \<longrightarrow> port p < 65536)"
proof -
  obtain d v where d: "decode lc response = Inr (VDict d)" "map_get d ''peers'' = Some v" "peers_of_value v = Inr ps"
    using assms(1) by (auto simp: decodeResponse_def rbind_Inr_iff split: option.splits)
  show ?thesis
  proof (cases "as_str v")
    case (Some s)
    with d(3) assms(2) have "p \<in> set (compact_peers s)" by (auto simp: peers_of_value_def split: if_splits)
    from compact_peers_bounds[OF this] show ?thesis by simp
  next
    case None
    with d(3) obtain vs where vs: "v = VList vs" "ps = list_peers vs"
      by (auto simp: peers_of_value_def split: option.splits if_splits)
    with list_peers_bounds[of p vs] assms(2) d show ?thesis by simp
  qed
qed

lemma response_bounds_witness:
  "decodeResponse lexcast_ref ''d5:peersld2:ip1:a4:porti70000eeee'' = Inr [\<lparr>host = ''a'', port = 70000\<rparr>] \<and> (70000::int) < 2 ^ 31"
proof -
  have d: "decode lexcast_ref ''d5:peersld2:ip1:a4:porti70000eeee''
      = Inr (VDict [(''peers'', VList [VDict [(''ip'', VStr ''a''), (''port'', VULL 70000)]])])"
    by (simp add: decode_eval)
  then have r: "decodeResponse lexcast_ref ''d5:peersld2:ip1:a4:porti70000eeee'' = Inr [\<lparr>host = ''a'', port = 70000\<rparr>]"
    by (simp add: decodeResponse_def map_get_def peers_of_value_def dict_peer_def)
  with response_bounds[OF r, of "\<lparr>host = ''a'', port = 70000\<rparr>"] show ?thesis by simp
qed

end
