(* ===== verification/BItem.thy ===== *)
theory BItem
  imports Bencode
begin

text \<open>
  The second bencode implementation, \<open>src/libs/bencode\<close>: its items, the decoder over a
  stream, the encoder visitor, the search for a key in nested dictionaries, and the
  pretty printer. A stream is the bytes that are left in it; every failure of a read
  throws at once, so that the state flags of the stream are never seen.
\<close>

datatype bitem =
    BInteger cull
  | BString string
  | BList "bitem list"
  | BDictionary "(string, bitem) smap"

fun as_BString :: "bitem \<Rightarrow> string option" where
  "as_BString (BString s) = Some s" | "as_BString _ = None"

fun as_BInteger :: "bitem \<Rightarrow> cull option" where
  "as_BInteger (BInteger n) = Some n" | "as_BInteger _ = None"

fun as_BDictionary :: "bitem \<Rightarrow> (string, bitem) smap option" where
  "as_BDictionary (BDictionary d) = Some d" | "as_BDictionary _ = None"

section \<open>Reading from a stream\<close>

text \<open>
  \<open>readUpTo\<close> leaves the sentinel in the stream, \<open>readUntil\<close> takes it; both report whether it
  was found.
\<close>

fun readUpTo :: "bytes \<Rightarrow> string \<Rightarrow> char \<Rightarrow> bool \<times> string \<times> bytes" where
  "readUpTo [] readData sentinel = (False, readData, [])"
| "readUpTo (c # stream) readData sentinel =
     (if c = sentinel then (True, readData, c # stream) else readUpTo stream (readData @ [c]) sentinel)"

fun readUntil :: "bytes \<Rightarrow> string \<Rightarrow> char \<Rightarrow> bool \<times> string \<times> bytes" where
  "readUntil [] readData lst = (False, readData, [])"
| "readUntil (c # stream) readData lst =
     (if c = lst then (True, readData @ [c], stream) else readUntil stream (readData @ [c]) lst)"

definition readExpectedChar :: "bytes \<Rightarrow> char \<Rightarrow> bytes res" where
  "readExpectedChar input expected_char =
     (case input of
        [] \<Rightarrow> Inl (DecodingError ''expected '')
      | c # rest \<Rightarrow> if c \<noteq> expected_char then Inl (DecodingError ''expected '') else Inr rest)"

text \<open>
  \<open>strToNum\<close> on a string that begins with a digit. It converts into a local variable and
  reports success, but does not assign its reference parameter: \<open>num\<close> keeps the value it
  had, \<open>None\<close> when it was never assigned.
\<close>

definition strToNum :: "string \<Rightarrow> cull option \<Rightarrow> bool \<times> cull option" where
  "strToNum str num =
     (let convNum = dec_val str in
      (str \<noteq> [] \<and> list_all isdigit str \<and> convNum < 2 ^ 64, num))"

definition use_num :: "cull option \<Rightarrow> cull res" where
  "use_num num = (case num of None \<Rightarrow> Inl (Undefined Indeterminate) | Some n \<Rightarrow> Inr n)"

section \<open>Decoder\<close>

text \<open>\<open>i([-+]?(0|[1-9][0-9]*))e\<close> against the whole string: the first group.\<close>

definition integerRegex :: "string \<Rightarrow> string option" where
  "integerRegex s =
     (if 2 \<le> length s \<and> hd s = CHR ''i'' \<and> last s = CHR ''e'' then
        (let g = butlast (tl s);
             d = (if g \<noteq> [] \<and> (hd g = CHR ''-'' \<or> hd g = CHR ''+'') then tl g else g)
         in if d = ''0'' \<or> (d \<noteq> [] \<and> hd d \<noteq> CHR ''0'' \<and> list_all isdigit d) then Some g else None)
      else None)"

definition readEncodedInteger :: "bytes \<Rightarrow> (string \<times> bytes) res" where
  "readEncodedInteger input =
     (case readUntil input [] (CHR ''e'') of (ok, encodedInteger, rest) \<Rightarrow>
        if \<not> ok then Inl (DecodingError ''error during the decoding of an integer near '')
        else Inr (encodedInteger, rest))"

definition decodeEncodedInteger :: "string \<Rightarrow> bitem res" where
  "decodeEncodedInteger encodedInteger =
     (case integerRegex encodedInteger of
        None \<Rightarrow> Inl (DecodingError ''encountered an encoded integer of invalid format: '')
      | Some match \<Rightarrow>
          rbind (use_num (snd (strToNum match None))) (\<lambda>integerValue. Inr (BInteger integerValue)))"

definition decodeInteger :: "bytes \<Rightarrow> (bitem \<times> bytes) res" where
  "decodeInteger input =
     rbind (readEncodedInteger input) (\<lambda>(encodedInteger, rest).
     rbind (decodeEncodedInteger encodedInteger) (\<lambda>v. Inr (v, rest)))"

definition readStringLength :: "bytes \<Rightarrow> (nat \<times> bytes) res" where
  "readStringLength input =
     (case readUpTo input [] (CHR '':'') of (ok, stringLengthInASCII, rest) \<Rightarrow>
        if \<not> ok then Inl (DecodingError ''error during the decoding of a string near '')
        else
          (case strToNum stringLengthInASCII None of (valid, stringLength) \<Rightarrow>
             if \<not> valid then Inl (DecodingError ''invalid string length: '')
             else rbind (use_num stringLength) (\<lambda>n. Inr (unat n, rest))))"

definition readStringOfGivenLength :: "bytes \<Rightarrow> nat \<Rightarrow> (string \<times> bytes) res" where
  "readStringOfGivenLength input len =
     (if length input < len then Inl (DecodingError ''expected '') else Inr (take len input, drop len input))"

definition decodeString :: "bytes \<Rightarrow> (bitem \<times> bytes) res" where
  "decodeString input =
     rbind (readStringLength input) (\<lambda>(stringLength, s1).
     rbind (readExpectedChar s1 (CHR '':'')) (\<lambda>s2.
     rbind (readStringOfGivenLength s2 stringLength) (\<lambda>(str, s3).
       Inr (BString str, s3))))"

text \<open>\<open>decode(std::istream&)\<close> with the loops over the items; fuel bounds calls and rounds.\<close>

fun decode_stream :: "nat \<Rightarrow> bytes \<Rightarrow> (bitem \<times> bytes) res"
  and dictionary_items :: "nat \<Rightarrow> bytes \<Rightarrow> (string, bitem) smap \<Rightarrow> ((string, bitem) smap \<times> bytes) res"
  and list_items :: "nat \<Rightarrow> bytes \<Rightarrow> bitem list \<Rightarrow> (bitem list \<times> bytes) res" where
  "decode_stream 0 input = Inl OutOfFuel"
| "decode_stream (Suc f) input =
     (if input = [] then Inl (DecodingError ''unexpected character: '')
      else if hd input = CHR ''d'' then
        rbind (readExpectedChar input (CHR ''d'')) (\<lambda>s1.
        rbind (dictionary_items f s1 []) (\<lambda>(d, s2).
        rbind (readExpectedChar s2 (CHR ''e'')) (\<lambda>s3. Inr (BDictionary d, s3))))
      else if hd input = CHR ''i'' then decodeInteger input
      else if hd input = CHR ''l'' then
        rbind (readExpectedChar input (CHR ''l'')) (\<lambda>s1.
        rbind (list_items f s1 []) (\<lambda>(l, s2).
        rbind (readExpectedChar s2 (CHR ''e'')) (\<lambda>s3. Inr (BList l, s3))))
      else if isdigit (hd input) then decodeString input
      else Inl (DecodingError ''unexpected character: ''))"
| "dictionary_items 0 input d = Inl OutOfFuel"
| "dictionary_items (Suc f) input d =
     (if input \<noteq> [] \<and> hd input = CHR ''e'' then Inr (d, input)
      else
        rbind (decode_stream f input) (\<lambda>(key, s1).
          case as_BString key of
            None \<Rightarrow> Inl (DecodingError ''found a dictionary key that is not a bencoded string'')
          | Some k \<Rightarrow>
              rbind (decode_stream f s1) (\<lambda>(v, s2). dictionary_items f s2 (map_set k v d))))"
| "list_items 0 input l = Inl OutOfFuel"
| "list_items (Suc f) input l =
     (if input \<noteq> [] \<and> hd input = CHR ''e'' then Inr (l, input)
      else rbind (decode_stream f input) (\<lambda>(v, s1). list_items f s1 (l @ [v])))"

definition lib_decode_stream :: "bytes \<Rightarrow> (bitem \<times> bytes) res" where
  "lib_decode_stream input = decode_stream (2 * length input + 2) input"

definition lib_decode :: "bytes \<Rightarrow> bitem res" where
  "lib_decode data =
     rbind (lib_decode_stream data) (\<lambda>(v, rest).
       if rest \<noteq> [] then Inl (DecodingError ''input contains undecoded characters'') else Inr v)"

section \<open>Encoder\<close>

text \<open>The visitor appends to \<open>encodedData\<close>, which a fresh encoder has empty.\<close>

fun visit_item :: "bitem \<Rightarrow> string \<Rightarrow> string"
  and visit_pairs :: "(string, bitem) smap \<Rightarrow> string \<Rightarrow> string"
  and visit_items :: "bitem list \<Rightarrow> string \<Rightarrow> string" where
  "visit_item (BInteger n) out = out @ ''i'' @ dec_int (sint n) @ ''e''"
| "visit_item (BString s) out = out @ dec_nat (length s) @ '':'' @ s"
| "visit_item (BDictionary d) out = visit_pairs d (out @ ''d'') @ ''e''"
| "visit_item (BList l) out = visit_items l (out @ ''l'') @ ''e''"
| "visit_pairs [] out = out"
| "visit_pairs ((k, v) # d) out = visit_pairs d (visit_item v (visit_item (BString k) out))"
| "visit_items [] out = out"
| "visit_items (v # l) out = visit_items l (visit_item v out)"

definition lib_encode :: "bitem \<Rightarrow> string" where
  "lib_encode data = visit_item data []"

section \<open>What the encoder writes\<close>

text \<open>The encoding of an item by itself, without the accumulator of the visitor.\<close>

fun item_bytes :: "bitem \<Rightarrow> string" where
  "item_bytes (BInteger n) = ''i'' @ dec_int (sint n) @ ''e''"
| "item_bytes (BString s) = dec_nat (length s) @ '':'' @ s"
| "item_bytes (BDictionary d) = ''d'' @ concat (map (\<lambda>(k, v). item_bytes (BString k) @ item_bytes v) d) @ ''e''"
| "item_bytes (BList l) = ''l'' @ concat (map item_bytes l) @ ''e''"

lemma visit_item_bytes:
  "visit_item v out = out @ item_bytes v"
  "visit_pairs d out = out @ concat (map (\<lambda>(k, v). item_bytes (BString k) @ item_bytes v) d)"
  "visit_items l out = out @ concat (map item_bytes l)"
  by (induction v out and d out and l out rule: visit_item_visit_pairs_visit_items.induct) simp_all

lemma lib_encode_bytes: "lib_encode v = item_bytes v"
  by (simp add: lib_encode_def visit_item_bytes(1))

section \<open>What the decoder reads\<close>

text \<open>The items without data: lists of such items, and dictionaries without entries.\<close>

fun hollow :: "bitem \<Rightarrow> bool" where
  "hollow (BList l) = list_all hollow l"
| "hollow (BDictionary d) = (d = [])"
| "hollow _ = False"

lemma readExpectedChar_Inr: "readExpectedChar s c = Inr r \<longleftrightarrow> s = c # r"
  by (auto simp: readExpectedChar_def split: list.splits if_splits)

lemma never_integer: "decodeInteger s \<noteq> Inr p"
  by (auto simp: decodeInteger_def decodeEncodedInteger_def rbind_Inr_iff strToNum_def use_num_def split: option.splits)

lemma never_string: "decodeString s \<noteq> Inr p"
  by (auto simp: decodeString_def readStringLength_def rbind_Inr_iff strToNum_def use_num_def
      split: prod.splits if_splits)

lemma decode_stream_sound:
  "decode_stream f s = Inr (v, r) \<Longrightarrow> hollow v \<and> s = item_bytes v @ r"
  "dictionary_items f s d = Inr (d', r) \<Longrightarrow> d' = d \<and> s = r"
  "list_items f s l = Inr (l', r) \<Longrightarrow> \<exists>vs. l' = l @ vs \<and> list_all hollow vs \<and> s = concat (map item_bytes vs) @ r"
proof (induction f arbitrary: s v r d d' l l')
  case (Suc f)
  {
    case 1
    consider (d) s1 d s2 where "s = CHR ''d'' # s1" "dictionary_items f s1 [] = Inr (d, s2)" "s2 = CHR ''e'' # r" "v = BDictionary d"
      | (l) s1 l s2 where "s = CHR ''l'' # s1" "list_items f s1 [] = Inr (l, s2)" "s2 = CHR ''e'' # r" "v = BList l"
      using 1 by (auto simp: rbind_Inr_iff readExpectedChar_Inr never_integer never_string split: if_splits)
    then show ?case
    proof cases
      case d
      with Suc.IH(2)[OF d(2)] show ?thesis by simp
    next
      case l
      with Suc.IH(3)[OF l(2)] show ?thesis by auto
    qed
  next
    case 2
    show ?case
    proof (cases "s \<noteq> [] \<and> hd s = CHR ''e''")
      case False
      with 2 obtain key s1 k where "decode_stream f s = Inr (key, s1)" "as_BString key = Some k"
        by (auto simp: rbind_Inr_iff split: option.splits)
      with Suc.IH(1)[of s key s1] show ?thesis by (cases key) auto
    qed (use 2 in auto)
  next
    case 3
    show ?case
    proof (cases "s \<noteq> [] \<and> hd s = CHR ''e''")
      case False
      with 3 obtain w s1 where w: "decode_stream f s = Inr (w, s1)" "list_items f s1 (l @ [w]) = Inr (l', r)"
        by (auto simp: rbind_Inr_iff)
      from Suc.IH(3)[OF w(2)] obtain vs where "l' = (l @ [w]) @ vs" "list_all hollow vs"
        "s1 = concat (map item_bytes vs) @ r" by blast
      with Suc.IH(1)[OF w(1)] show ?thesis by (intro exI[of _ "w # vs"]) simp
    qed (use 3 in auto)
  }
qed auto

lemma hollow_bytes: "hollow v \<Longrightarrow> item_bytes v \<noteq> [] \<and> hd (item_bytes v) \<in> {CHR ''d'', CHR ''l''}"
  by (cases v) auto

lemma decode_stream_complete:
  "hollow v \<Longrightarrow> 2 * length (item_bytes v) \<le> f \<Longrightarrow> decode_stream f (item_bytes v @ r) = Inr (v, r)"
proof (induction v arbitrary: f r)
  case (BList l)
  have items: "list_all hollow vs \<Longrightarrow> set vs \<subseteq> set l \<Longrightarrow> 2 * length (concat (map item_bytes vs)) < g \<Longrightarrow>
      list_items g (concat (map item_bytes vs) @ CHR ''e'' # r) acc = Inr (acc @ vs, CHR ''e'' # r)" for vs g acc
  proof (induction vs arbitrary: g acc)
    case Nil
    then show ?case by (cases g) auto
  next
    case (Cons w ws)
    obtain g' where g: "g = Suc g'" using Cons.prems by (cases g) auto
    have w: "item_bytes w \<noteq> []" "hd (item_bytes w) \<noteq> CHR ''e''" using hollow_bytes[of w] Cons.prems(1) by auto
    have "decode_stream g' (item_bytes w @ concat (map item_bytes ws) @ CHR ''e'' # r)
        = Inr (w, concat (map item_bytes ws) @ CHR ''e'' # r)"
      using BList.IH[of w g'] Cons.prems g by auto
    moreover have "list_items g' (concat (map item_bytes ws) @ CHR ''e'' # r) (acc @ [w]) = Inr ((acc @ [w]) @ ws, CHR ''e'' # r)"
      using Cons.IH[of g' "acc @ [w]"] Cons.prems g w(1) by (cases "item_bytes w") auto
    ultimately show ?case using w by (simp add: g)
  qed
  obtain f' where f: "f = Suc f'" using BList.prems by (cases f) auto
  have "list_items f' (concat (map item_bytes l) @ CHR ''e'' # r) [] = Inr (l, CHR ''e'' # r)"
    using items[of l f' "[]"] BList.prems f by simp
  then show ?case by (simp add: f readExpectedChar_def)
next
  case (BDictionary d)
  obtain f' where f: "f = Suc (Suc f')" using BDictionary.prems by (cases f; cases "f - 1") auto
  with BDictionary.prems show ?case by (simp add: readExpectedChar_def)
qed auto

lemma lib_stream_sound: "lib_decode_stream s = Inr (v, r) \<Longrightarrow> hollow v \<and> s = lib_encode v @ r"
  unfolding lib_decode_stream_def lib_encode_bytes by (rule decode_stream_sound(1))

lemma lib_stream_complete: "hollow v \<Longrightarrow> lib_decode_stream (lib_encode v @ r) = Inr (v, r)"
  unfolding lib_decode_stream_def lib_encode_bytes by (rule decode_stream_complete) simp_all

lemma lib_decode_value: "lib_decode data = Inr v \<longleftrightarrow> hollow v \<and> data = lib_encode v"
proof
  assume "lib_decode data = Inr v"
  then have "lib_decode_stream data = Inr (v, [])"
    by (auto simp: lib_decode_def rbind_Inr_iff split: if_splits)
  from lib_stream_sound[OF this] show "hollow v \<and> data = lib_encode v" by simp
next
  assume "hollow v \<and> data = lib_encode v"
  with lib_stream_complete[of v "[]"] show "lib_decode data = Inr v" by (simp add: lib_decode_def)
qed

interpretation lib: prefix_codec lib_encode
  "\<lambda>s. case lib_decode_stream s of Inl _ \<Rightarrow> None | Inr (v, r) \<Rightarrow> Some (v, length s - length r)" "\<lambda>v. v" hollow
proof
  fix v r assume v: "hollow v"
  show "(case lib_decode_stream (lib_encode v @ r) of Inl _ \<Rightarrow> None
      | Inr (w, r') \<Rightarrow> Some (w, length (lib_encode v @ r) - length r')) = Some (v, length (lib_encode v))"
    by (simp add: lib_stream_complete[OF v])
  show "lib_encode v \<noteq> []" using hollow_bytes[OF v] by (simp add: lib_encode_bytes)
qed

text \<open>The fuel is enough: a successful read takes at least two bytes.\<close>

lemma simple_reads_fuel: "decodeInteger s \<noteq> Inl OutOfFuel" "decodeString s \<noteq> Inl OutOfFuel"
  "readExpectedChar s c \<noteq> Inl OutOfFuel"
  by (auto simp: decodeInteger_def readEncodedInteger_def decodeEncodedInteger_def decodeString_def readStringLength_def
      readExpectedChar_def readStringOfGivenLength_def use_num_def rbind_Inl_iff
      split: option.splits prod.splits if_splits list.splits)

lemma decode_stream_fuel:
  "2 * length s < f \<Longrightarrow> decode_stream f s \<noteq> Inl OutOfFuel"
  "2 * length s + 1 < f \<Longrightarrow> dictionary_items f s d \<noteq> Inl OutOfFuel"
  "2 * length s + 1 < f \<Longrightarrow> list_items f s l \<noteq> Inl OutOfFuel"
proof (induction f arbitrary: s d l)
  case (Suc f)
  {
    case 1
    show ?case
    proof (cases s)
      case (Cons c s1)
      have "dictionary_items f s1 [] \<noteq> Inl OutOfFuel" "list_items f s1 [] \<noteq> Inl OutOfFuel"
        using Suc.IH(2,3)[of s1] 1 Cons by auto
      then show ?thesis
        using Cons by (auto simp: rbind_Inl_iff simple_reads_fuel readExpectedChar_Inr)
    qed simp
  next
    case 2
    have "decode_stream f s \<noteq> Inl OutOfFuel" using Suc.IH(1)[of s] 2 by simp
    moreover have "as_BString key = None" if "decode_stream f s = Inr (key, s1)" for key s1
      using decode_stream_sound(1)[OF that] by (cases key) auto
    ultimately show ?case by (auto simp: rbind_Inl_iff)
  next
    case 3
    have "decode_stream f s \<noteq> Inl OutOfFuel" using Suc.IH(1)[of s] 3 by simp
    moreover have "list_items f s1 l' \<noteq> Inl OutOfFuel" if "decode_stream f s = Inr (v, s1)" for v s1 l'
    proof -
      from decode_stream_sound(1)[OF that] hollow_bytes[of v] have "length s1 < length s" by auto
      then show ?thesis using Suc.IH(3)[of s1 l'] 3 by simp
    qed
    ultimately show ?case by (auto simp: rbind_Inl_iff)
  }
qed auto

lemma lib_decode_fuel: "lib_decode data \<noteq> Inl OutOfFuel"
  using decode_stream_fuel(1)[of data "2 * length data + 2"]
  by (auto simp: lib_decode_def lib_decode_stream_def rbind_Inl_iff simp del: decode_stream.simps)

text \<open>What ends the decoder: a \<open>DecodingError\<close>, or the use of a number that was never assigned.\<close>

definition decoder_stops :: "cxx_error \<Rightarrow> bool" where
  "decoder_stops e \<longleftrightarrow> e = Undefined Indeterminate \<or> (\<exists>m. e = DecodingError m)"

lemma decoder_stops_simps [simp]: "decoder_stops (DecodingError m)" "decoder_stops (Undefined Indeterminate)"
  by (simp_all add: decoder_stops_def)

lemma simple_reads_stop:
  "decodeInteger s = Inl e \<Longrightarrow> decoder_stops e" "decodeString s = Inl e \<Longrightarrow> decoder_stops e"
  "readExpectedChar s c = Inl e \<Longrightarrow> decoder_stops e"
  by (auto simp: decodeInteger_def readEncodedInteger_def decodeEncodedInteger_def decodeString_def readStringLength_def
      readExpectedChar_def readStringOfGivenLength_def use_num_def rbind_Inl_iff
      split: option.splits prod.splits if_splits list.splits)

lemma decode_stream_stops:
  "decode_stream f s = Inl e \<Longrightarrow> e = OutOfFuel \<or> decoder_stops e"
  "dictionary_items f s d = Inl e \<Longrightarrow> e = OutOfFuel \<or> decoder_stops e"
  "list_items f s l = Inl e \<Longrightarrow> e = OutOfFuel \<or> decoder_stops e"
proof (induction f arbitrary: s d l e)
  case (Suc f)
  {
    case 1
    then show ?case by (auto simp: rbind_Inl_iff dest: Suc.IH(2,3) simple_reads_stop split: if_splits)
  next
    case 2
    then show ?case by (auto simp: rbind_Inl_iff dest: Suc.IH(1,2) split: if_splits option.splits)
  next
    case 3
    then show ?case by (auto simp: rbind_Inl_iff dest: Suc.IH(1,3) split: if_splits)
  }
qed auto

text \<open>
  C18. What comes out of the decoder of the library. Its recursion ends on every input, with an item, with a
  \<open>DecodingError\<close>, or in the use of a number that was never assigned (\<open>strToNum\<close> does not assign its result, so that
  \<open>i42e\<close> goes this way, see \<open>test_decoder\<close>; the behaviour of the program is undefined from there on, and the model stops).
  It gives an item, without such a use, exactly for the encodings of items that hold neither a string nor an integer.
\<close>

theorem lib_decode_exact:
  "(lib_decode data = Inr v \<longleftrightarrow> hollow v \<and> data = lib_encode v) \<and>
   (case lib_decode data of Inr w \<Rightarrow> hollow w | Inl e \<Rightarrow> e = Undefined Indeterminate \<or> (\<exists>m. e = DecodingError m))"
proof -
  have "decoder_stops e" if e: "lib_decode data = Inl e" for e
    using e decode_stream_stops(1)[of "2 * length data + 2" data e] lib_decode_fuel[of data]
    by (auto simp: lib_decode_def lib_decode_stream_def rbind_Inl_iff simp del: decode_stream.simps split: if_splits)
  then show ?thesis using lib_decode_value by (auto simp: decoder_stops_def split: sum.splits)
qed

section \<open>The two encoders\<close>

text \<open>The item of the library for a value of the other implementation.\<close>

fun item_of :: "bvalue \<Rightarrow> bitem" where
  "item_of (VInt i) = BInteger (scast i)"
| "item_of (VULL n) = BInteger n"
| "item_of (VStr s) = BString s"
| "item_of (VList vs) = BList (map item_of vs)"
| "item_of (VDict d) = BDictionary (map (\<lambda>(k, v). (k, item_of v)) d)"

fun ints_fit :: "bvalue \<Rightarrow> bool" where
  "ints_fit (VULL n) = (unat n \<le> int_max)"
| "ints_fit (VList vs) = list_all ints_fit vs"
| "ints_fit (VDict d) = list_all (\<lambda>(k, v). ints_fit v) d"
| "ints_fit _ = True"

lemma sint_scast_32: "sint (scast (i :: cint) :: cull) = sint i"
proof -
  have "- (2 ^ 63) \<le> sint i" "sint i < 2 ^ 63" using sint_ge[of i] sint_lt[of i] by simp_all
  then show ?thesis by (simp add: signed_scast_eq signed_take_bit_int_eq_self)
qed

lemma sint_small:
  assumes "unat n \<le> int_max"
  shows "sint (ucast n :: cint) = int (unat n)" "sint (n :: cull) = int (unat n)"
proof -
  have L: "LENGTH(32) - Suc 0 = 31" "LENGTH(64) - Suc 0 = 63" by simp_all
  have i: "int (unat n) = uint n" by simp
  have "unat n \<le> 2147483647" using assms by (simp add: int_max_def)
  then have "uint n \<le> 2147483647" using i by linarith
  then have lt: "uint n < 2 ^ 31" by simp
  have u: "uint (ucast n :: cint) = uint n"
    unfolding unsigned_ucast_eq using lt by (intro take_bit_int_eq_self) simp_all
  have s: "signed_take_bit 31 (uint n) = uint n" "signed_take_bit 63 (uint n) = uint n"
  proof -
    have g: "- (2 ^ 31) \<le> uint n" "- (2 ^ 63) \<le> uint n" by (rule order_trans[of _ 0]; simp)+
    have l: "uint n < 2 ^ 63" using lt by simp
    show "signed_take_bit 31 (uint n) = uint n" by (rule signed_take_bit_int_eq_self[OF g(1) lt])
    show "signed_take_bit 63 (uint n) = uint n" by (rule signed_take_bit_int_eq_self[OF g(2) l])
  qed
  have "sint (ucast n :: cint) = signed_take_bit 31 (uint (ucast n :: cint))"
    using sint_uint[of "ucast n :: cint"] unfolding L .
  then show "sint (ucast n :: cint) = int (unat n)" unfolding u s(1) i .
  have "sint n = signed_take_bit 63 (uint n)" using sint_uint[of n] unfolding L .
  then show "sint n = int (unat n)" unfolding s(2) i .
qed

lemma encoders_agree_gen:
  "encode v = Inr t \<Longrightarrow> ints_fit v \<Longrightarrow> item_bytes (item_of v) = t"
  "encode_dict d = Inr t \<Longrightarrow> ints_fit (VDict d) \<Longrightarrow>
     concat (map (\<lambda>(k, v). item_bytes (BString k) @ item_bytes v) (map (\<lambda>(k, v). (k, item_of v)) d)) = t"
  "encode_list vs = Inr t \<Longrightarrow> list_all ints_fit vs \<Longrightarrow> concat (map item_bytes (map item_of vs)) = t"
proof (induction v and d and vs arbitrary: t and t and t rule: encode_encode_dict_encode_list.induct)
  case (1 i)
  then show ?case by (simp add: encode_int_def sint_scast_32)
next
  case (2 n)
  then show ?case by (simp add: encode_int_def sint_small)
next
  case (7 k v d)
  then show ?case by (auto simp: rbind_Inr_iff encode_str_def split: if_splits)
qed (auto simp: rbind_Inr_iff encode_str_def split: if_splits)

text \<open>
  C38. The two encoders of the program agree: whenever the own encoder prints a value and the
  integers of the value fit an \<open>int\<close>, the encoder of the library prints the same bytes for it. The own encoder
  prints no value that contains an empty string, where the library prints \<open>0:\<close>.
\<close>

theorem encoders_agree:
  assumes "encode v = Inr t" "ints_fit v"
  shows "lib_encode (item_of v) = t \<and> \<not> is_ok (encode (VStr [])) \<and> lib_encode (item_of (VStr [])) = ''0:''"
proof -
  have "\<not> is_ok (encode (VStr []))" by (simp add: encode_str_def)
  moreover have "lib_encode (item_of (VStr [])) = ''0:''" by (simp add: lib_encode_bytes dec_nat.simps)
  ultimately show ?thesis using encoders_agree_gen(1)[OF assms] by (simp add: lib_encode_bytes)
qed

lemma encoders_agree_witness:
  "lib_encode (item_of (VDict [(''a'', VInt 5), (''b'', VList [VStr ''xy'', VULL 17])])) = ''d1:ai5e1:bl2:xyi17eee''"
proof -
  let ?v = "VDict [(''a'', VInt 5), (''b'', VList [VStr ''xy'', VULL 17])]"
  have "encode ?v = Inr ''d1:ai5e1:bl2:xyi17eee''"
    by (simp add: encode_int_def encode_str_def dec_int_def dec_nat.simps)
  from encoders_agree[OF this] show ?thesis by (simp add: int_max_def)
qed

section \<open>The search for a key\<close>

text \<open>
  \<open>BDictionary::getValue\<close> and \<open>BList::getValue\<close>: depth first in the order of the keys, a
  nested value before the later keys of its dictionary. A list inside a list is not
  searched.
\<close>

fun dict_getValue :: "string \<Rightarrow> (string, bitem) smap \<Rightarrow> bitem option"
  and list_getValue :: "string \<Rightarrow> bitem list \<Rightarrow> bitem option" where
  "dict_getValue key [] = None"
| "dict_getValue key ((k, v) # rest) =
     (if k = key then Some v
      else case (case v of BDictionary d \<Rightarrow> dict_getValue key d | BList l \<Rightarrow> list_getValue key l | _ \<Rightarrow> None) of
        Some w \<Rightarrow> Some w
      | None \<Rightarrow> dict_getValue key rest)"
| "list_getValue key [] = None"
| "list_getValue key (v # rest) =
     (case (case v of BDictionary d \<Rightarrow> dict_getValue key d | _ \<Rightarrow> None) of
        Some w \<Rightarrow> Some w
      | None \<Rightarrow> list_getValue key rest)"

text \<open>All entries of a dictionary and of what is nested in it, in document order.\<close>

fun all_entries :: "bitem \<Rightarrow> (string \<times> bitem) list" where
  "all_entries (BDictionary d) = concat (map (\<lambda>(k, v). (k, v) # all_entries v) d)"
| "all_entries (BList l) = concat (map (\<lambda>v. case v of BDictionary d \<Rightarrow> all_entries v | _ \<Rightarrow> []) l)"
| "all_entries _ = []"

lemma getValue_entries:
  "dict_getValue key d = map_of (all_entries (BDictionary d)) key"
  "list_getValue key l = map_of (all_entries (BList l)) key"
proof (induction key d and key l rule: dict_getValue_list_getValue.induct)
  case (2 key k v rest)
  then show ?case by (cases v) (auto simp: map_add_def split: option.splits)
next
  case (4 key v rest)
  then show ?case by (cases v) (auto simp: map_add_def split: option.splits)
qed simp_all

section \<open>Pretty printer\<close>

text \<open>
  \<open>PrettyPrinter\<close>: the visitor with \<open>prettyRepr\<close> and \<open>currentIndent\<close>; \<open>indentLevel\<close> is
  one level of indentation. \<open>decreaseIndentLevel\<close> subtracts lengths of type \<open>size_t\<close>: a
  difference below zero becomes a length past the end of every string.
\<close>

definition replace_char :: "string \<Rightarrow> char \<Rightarrow> string \<Rightarrow> string" where
  "replace_char str what withWhat = concat (map (\<lambda>c. if c = what then withWhat else [c]) str)"

definition decreaseIndent :: "string \<Rightarrow> string \<Rightarrow> string" where
  "decreaseIndent indentLevel currentIndent =
     (if length indentLevel \<le> length currentIndent
      then take (length currentIndent - length indentLevel) currentIndent
      else currentIndent)"

definition quoted :: "string \<Rightarrow> string" where
  "quoted s = [CHR 0x22] @ replace_char s (CHR 0x22) [CHR 0x5C, CHR 0x22] @ [CHR 0x22]"

fun pp_item :: "string \<Rightarrow> bitem \<Rightarrow> string \<times> string \<Rightarrow> string \<times> string"
  and pp_pairs :: "string \<Rightarrow> (string, bitem) smap \<Rightarrow> bool \<Rightarrow> string \<times> string \<Rightarrow> string \<times> string"
  and pp_items :: "string \<Rightarrow> bitem list \<Rightarrow> bool \<Rightarrow> string \<times> string \<Rightarrow> string \<times> string" where
  "pp_item ind (BInteger n) (out, cur) = (out @ dec_int (sint n), cur)"
| "pp_item ind (BString s) (out, cur) = (out @ quoted s, cur)"
| "pp_item ind (BDictionary d) (out, cur) =
     (case pp_pairs ind d False (out @ ''{'' @ [CHR 0x0A], cur @ ind) of (out1, cur1) \<Rightarrow>
        (let out2 = (if d \<noteq> [] then out1 @ [CHR 0x0A] else out1); cur2 = decreaseIndent ind cur1
         in (out2 @ cur2 @ ''}'', cur2)))"
| "pp_item ind (BList l) (out, cur) =
     (case pp_items ind l False (out @ ''['' @ [CHR 0x0A], cur @ ind) of (out1, cur1) \<Rightarrow>
        (let out2 = (if l \<noteq> [] then out1 @ [CHR 0x0A] else out1); cur2 = decreaseIndent ind cur1
         in (out2 @ cur2 @ '']'', cur2)))"
| "pp_pairs ind [] putComma st = st"
| "pp_pairs ind ((k, v) # d) putComma (out, cur) =
     (case pp_item ind (BString k) ((if putComma then out @ '','' @ [CHR 0x0A] else out) @ cur, cur) of (out1, cur1) \<Rightarrow>
        pp_pairs ind d True (pp_item ind v (out1 @ '': '', cur1)))"
| "pp_items ind [] putComma st = st"
| "pp_items ind (v # l) putComma (out, cur) =
     pp_items ind l True (pp_item ind v ((if putComma then out @ '','' @ [CHR 0x0A] else out) @ cur, cur))"

definition getPrettyRepr :: "bitem \<Rightarrow> string \<Rightarrow> string" where
  "getPrettyRepr data indent = fst (pp_item indent data ([], []))"

text \<open>The layout by itself: an item at indentation \<open>cur\<close>, its parts one level deeper.\<close>

definition sep_lines :: "string list \<Rightarrow> string" where
  "sep_lines ls = (case ls of [] \<Rightarrow> [] | x # xs \<Rightarrow> x @ concat (map (\<lambda>y. '','' @ [CHR 0x0A] @ y) xs) @ [CHR 0x0A])"

fun layout_of :: "string \<Rightarrow> string \<Rightarrow> bitem \<Rightarrow> string" where
  "layout_of ind cur (BInteger n) = dec_int (sint n)"
| "layout_of ind cur (BString s) = quoted s"
| "layout_of ind cur (BDictionary d) = ''{'' @ [CHR 0x0A]
     @ sep_lines (map (\<lambda>(k, v). (cur @ ind) @ quoted k @ '': '' @ layout_of ind (cur @ ind) v) d) @ cur @ ''}''"
| "layout_of ind cur (BList l) = ''['' @ [CHR 0x0A]
     @ sep_lines (map (\<lambda>v. (cur @ ind) @ layout_of ind (cur @ ind) v) l) @ cur @ '']''"

definition comma_lines :: "bool \<Rightarrow> string list \<Rightarrow> string" where
  "comma_lines c ls = concat (map (\<lambda>(b, y). (if b then '','' @ [CHR 0x0A] else []) @ y) (zip (c # replicate (length ls) True) ls))"

lemma comma_lines_simps: "comma_lines c [] = []"
  "comma_lines c (y # ys) = (if c then '','' @ [CHR 0x0A] else []) @ y @ comma_lines True ys"
  by (simp_all add: comma_lines_def)

lemma comma_lines_True: "comma_lines True ls = concat (map (\<lambda>y. '','' @ [CHR 0x0A] @ y) ls)"
  by (induction ls) (simp_all add: comma_lines_simps)

lemma sep_lines_comma: "comma_lines False ls @ (if ls = [] then [] else [CHR 0x0A]) = sep_lines ls"
  by (cases ls) (simp_all add: comma_lines_simps sep_lines_def comma_lines_True)

lemma pp_layout:
  "pp_item ind v (out, cur) = (out @ layout_of ind cur v, cur)"
  "pp_pairs ind d c (out, cur) =
     (out @ comma_lines c (map (\<lambda>(k, v). cur @ quoted k @ '': '' @ layout_of ind cur v) d), cur)"
  "pp_items ind l c (out, cur) = (out @ comma_lines c (map (\<lambda>v. cur @ layout_of ind cur v) l), cur)"
proof (induction ind v "(out, cur)" and ind d c "(out, cur)" and ind l c "(out, cur)"
    arbitrary: out cur and out cur and out cur rule: pp_item_pp_pairs_pp_items.induct)
  case (3 ind d out cur)
  then show ?case
    using sep_lines_comma[of "map (\<lambda>(k, v). (cur @ ind) @ quoted k @ '': '' @ layout_of ind (cur @ ind) v) d"]
    by (cases "d = []") (simp_all add: decreaseIndent_def)
next
  case (4 ind l out cur)
  then show ?case
    using sep_lines_comma[of "map (\<lambda>v. (cur @ ind) @ layout_of ind (cur @ ind) v) l"]
    by (cases "l = []") (simp_all add: decreaseIndent_def)
qed (simp_all add: comma_lines_simps)

lemma getPrettyRepr_layout: "getPrettyRepr v ind = layout_of ind [] v"
  by (simp add: getPrettyRepr_def pp_layout(1))

end
