(* ===== verification/FileParser.thy ===== *)
theory FileParser
  imports BItem Sha1_Spec
begin

text \<open>
  \<open>src/network_part/TorrentFileParser.cpp\<close>: reading a torrent with the library of
  \<open>src/libs/bencode\<close>. A pointer that a cast or a search returned null is \<open>None\<close>.
\<close>

type_synonym file_root = "(string, bitem) smap option"

text \<open>A file that cannot be opened gives an empty stream.\<close>

definition TorrentFileParser :: "bytes option \<Rightarrow> file_root res" where
  "TorrentFileParser fileStream =
     rbind (lib_decode_stream (case fileStream of None \<Rightarrow> [] | Some c \<Rightarrow> c)) (\<lambda>(decodedTorrentFile, _).
       Inr (as_BDictionary decodedTorrentFile))"

definition parser_get :: "file_root \<Rightarrow> string \<Rightarrow> bitem option res" where
  "parser_get root key =
     (case root of None \<Rightarrow> Inl (Undefined NullPointer) | Some d \<Rightarrow> Inr (dict_getValue key d))"

definition string_value :: "bitem \<Rightarrow> string res" where
  "string_value v = (case as_BString v of None \<Rightarrow> Inl (Undefined NullPointer) | Some s \<Rightarrow> Inr s)"

definition integer_value :: "bitem \<Rightarrow> cull res" where
  "integer_value v = (case as_BInteger v of None \<Rightarrow> Inl (Undefined NullPointer) | Some n \<Rightarrow> Inr n)"

definition getInfoHash :: "file_root \<Rightarrow> string res" where
  "getInfoHash root =
     rbind (parser_get root ''info'') (\<lambda>infoDictionary.
       case infoDictionary of
         None \<Rightarrow> Inl (Undefined NullPointer)
       | Some d \<Rightarrow> Inr (sha1 (lib_encode d)))"

definition parser_splitPieceHashes :: "file_root \<Rightarrow> string list res" where
  "parser_splitPieceHashes root =
     rbind (parser_get root ''pieces'') (\<lambda>piecesValue.
       case piecesValue of
         None \<Rightarrow> Inl (RuntimeError ''Torrent file is malformed. [File does not contain key 'pieces']'')
       | Some v \<Rightarrow> rbind (string_value v) (\<lambda>pcs.
           if length pcs mod 20 \<noteq> 0 then Inl Aborted
           else Inr (map (\<lambda>i. take 20 (drop (i * 20) pcs)) [0..<length pcs div 20])))"

definition parser_getFileSize :: "file_root \<Rightarrow> cull res" where
  "parser_getFileSize root =
     rbind (parser_get root ''length'') (\<lambda>fileSizeItem.
       case fileSizeItem of
         None \<Rightarrow> Inl (RuntimeError ''Torrent file is malformed. [File does not contain key 'length']'')
       | Some v \<Rightarrow> integer_value v)"

definition getPieceLength :: "file_root \<Rightarrow> cull res" where
  "getPieceLength root =
     rbind (parser_get root ''piece length'') (\<lambda>pieceLengthItem.
       case pieceLengthItem of
         None \<Rightarrow> Inl (RuntimeError ''Torrent file is malformed. [File does not contain key 'piece length']'')
       | Some v \<Rightarrow> integer_value v)"

definition getFileName :: "file_root \<Rightarrow> string res" where
  "getFileName root =
     rbind (parser_get root ''name'') (\<lambda>filenameItem.
       case filenameItem of
         None \<Rightarrow> Inl (RuntimeError ''Torrent file is malformed. [File does not contain key 'name']'')
       | Some v \<Rightarrow> string_value v)"

definition getAnnounce :: "file_root \<Rightarrow> string res" where
  "getAnnounce root =
     rbind (parser_get root ''announce'') (\<lambda>announceItem.
       case announceItem of
         None \<Rightarrow> Inl (RuntimeError ''Torrent file is malformed. [File does not contain key 'announce']'')
       | Some v \<Rightarrow> string_value v)"

section \<open>What a parsed file answers\<close>

text \<open>
  On a dictionary that holds them, the getters find the entries wherever they are nested:
  the first in document order.
\<close>

lemma getAnnounce_found:
  "map_of (all_entries (BDictionary d)) ''announce'' = Some (BString s) \<Longrightarrow> getAnnounce (Some d) = Inr s"
  by (simp add: getAnnounce_def parser_get_def getValue_entries string_value_def)

lemma parser_roots: "TorrentFileParser c = Inr root \<Longrightarrow> root = None \<or> root = Some []"
proof -
  assume "TorrentFileParser c = Inr root"
  then obtain v r where v: "lib_decode_stream (case c of None \<Rightarrow> [] | Some c \<Rightarrow> c) = Inr (v, r)" "root = as_BDictionary v"
    by (auto simp: TorrentFileParser_def rbind_Inr_iff)
  with lib_stream_sound[OF v(1)] show ?thesis by (cases v) auto
qed

text \<open>
  C39. The parser of torrent files gives no information about any file: whenever its
  constructor returns, on whatever bytes, no getter returns a value, and the info hash is
  the use of a null pointer.
\<close>

theorem parser_answers_nothing:
  assumes "TorrentFileParser c = Inr root"
  shows "\<not> is_ok (getAnnounce root) \<and> \<not> is_ok (getFileName root) \<and> \<not> is_ok (getPieceLength root) \<and>
    \<not> is_ok (parser_getFileSize root) \<and> \<not> is_ok (parser_splitPieceHashes root) \<and>
    getInfoHash root = Inl (Undefined NullPointer)"
  using parser_roots[OF assms]
  by (auto simp: getAnnounce_def getFileName_def getPieceLength_def parser_getFileSize_def
      parser_splitPieceHashes_def getInfoHash_def parser_get_def)

lemma parser_answers_nothing_witness:
  "TorrentFileParser (Some ''de'') = Inr (Some []) \<and> \<not> is_ok (getAnnounce (Some [])) \<and>
   getInfoHash (Some []) = Inl (Undefined NullPointer)"
proof -
  have "TorrentFileParser (Some ''de'') = Inr (Some [])"
    using lib_stream_complete[of "BDictionary []" "[]"] by (simp add: TorrentFileParser_def lib_encode_bytes)
  with parser_answers_nothing[OF this] show ?thesis by simp
qed

end
