(* ===== verification/Client.thy ===== *)
theory Client
  imports TorrentOps Tracker PeerConnection SharedQueue
begin

text \<open>
  \<open>src/network_part/TorrentClient.cpp\<close>: the client that sets a download up, asks the
  tracker for peers and ends the threads. Libtorrent, which gives the info hash, the size
  and the name of a torrent, is a parameter.
\<close>

section \<open>Setting up\<close>

text \<open>The digits are the values of the random generator, from 1 to 9.\<close>

definition client_peerId :: "nat list \<Rightarrow> string" where
  "client_peerId distrib = ''-UT2021-'' @ concat (map dec_nat distrib)"

lemma client_peerId_length:
  "length distrib = 12 \<Longrightarrow> set distrib \<subseteq> {1..9} \<Longrightarrow> length (client_peerId distrib) = 20"
proof -
  assume a: "length distrib = 12" "set distrib \<subseteq> {1..9}"
  have "length (dec_nat d) = 1" if "d \<in> set distrib" for d using that a(2) by (subst dec_nat.simps) auto
  then have "length (concat (map dec_nat distrib)) = 1 * length distrib" by (rule length_concat_const)
  with a(1) show ?thesis by (simp add: client_peerId_def)
qed

definition is_http :: "string \<Rightarrow> bool" where
  "is_http url \<longleftrightarrow> take 7 url = ''http://'' \<or> take 8 url = ''https://''"

fun tier_url :: "string list \<Rightarrow> string" where
  "tier_url [] = []"
| "tier_url (url # urls) = (if is_http url then url else tier_url urls)"

fun tiers_url :: "string list list \<Rightarrow> string" where
  "tiers_url [] = []"
| "tiers_url (tier # tiers) = (let announceUrl = tier_url tier in if announceUrl \<noteq> [] then announceUrl else tiers_url tiers)"

definition announce_url :: "torrent_file \<Rightarrow> string" where
  "announce_url t =
     (if announce t \<noteq> [] \<and> is_http (announce t) then announce t
      else if announceList t \<noteq> [] then tiers_url (announceList t)
      else [])"

text \<open>\<open>snprintf "%%%02X"\<close> of every byte of the hash.\<close>

definition url_hash :: "bytes \<Rightarrow> string" where
  "url_hash h = concat (map percent_encoded h)"

record lt_info =
  lt_hash :: bytes
  lt_size :: int
  lt_name :: string

record download =
  dl_announce :: string
  dl_path :: string
  dl_retriever :: retriever
  dl_manager :: pmanager

text \<open>
  The part of \<open>downloadFile\<close> before the threads: \<open>None\<close> when libtorrent refuses the file,
  in which case the function returns. \<open>opens\<close> says which output files can be opened.
\<close>

definition setup_download :: "lexcast \<Rightarrow> (bytes \<Rightarrow> lt_info option) \<Rightarrow> (string \<Rightarrow> bool) \<Rightarrow> string \<Rightarrow> string \<Rightarrow> bytes option
    \<Rightarrow> download option res" where
  "setup_download lc lt opens pid downloadDirectory fileData =
     rbind (case fileData of None \<Rightarrow> Inl (RuntimeError ''Failed to open file: '') | Some c \<Rightarrow> Inr c) (\<lambda>torrentData.
       case lt torrentData of
         None \<Rightarrow> Inr None
       | Some ti \<Rightarrow>
           rbind (decode lc torrentData) (\<lambda>v.
           rbind (parseTorrentFile v) (\<lambda>t.
           rbind (PieceManager (opens (downloadDirectory @ lt_name ti)) t) (\<lambda>pm.
             Inr (Some \<lparr>dl_announce = announce_url t, dl_path = downloadDirectory @ lt_name ti,
               dl_retriever = \<lparr>announceUrl = announce_url t, hashParam = url_hash (lt_hash ti), ownId = pid,
                 ownPort = 8080, fileSize = of_int (lt_size ti)\<rparr>,
               dl_manager = pm\<rparr>)))))"

section \<open>The loop over the tracker\<close>

record client =
  client_queue :: "peer list"
  lastPeerQuery :: int

definition push_all :: "peer list \<Rightarrow> peer list \<Rightarrow> peer list" where
  "push_all ps queue = foldl (\<lambda>q p. sq_push_back p q) queue ps"

text \<open>One round: \<open>None\<close> when the download is complete and the loop ends.\<close>

definition client_round :: "lexcast \<Rightarrow> curl_env \<Rightarrow> retriever \<Rightarrow> pmanager \<Rightarrow> int \<Rightarrow> client \<Rightarrow> client option res" where
  "client_round lc env r pm currentTime c =
     (if isComplete pm then Inr None
      else if lastPeerQuery c = -1 \<or> 60 \<le> currentTime - lastPeerQuery c \<or> sq_empty (client_queue c) then
        rbind (retrievePeers lc env r (bytesDownloaded pm)) (\<lambda>ps.
          (let c' = c\<lparr>lastPeerQuery := currentTime\<rparr> in
           if ps \<noteq> [] then Inr (Some (c'\<lparr>client_queue := push_all ps (sq_clear (client_queue c'))\<rparr>))
           else Inr (Some c')))
      else Inr (Some c))"

definition dummy_peer :: peer where
  "dummy_peer = \<lparr>host = dummy_peer_ip, port = 0\<rparr>"

definition terminate :: "nat \<Rightarrow> client \<Rightarrow> client" where
  "terminate threadNum c = c\<lparr>client_queue := push_all (replicate threadNum dummy_peer) (client_queue c)\<rparr>"

section \<open>Properties\<close>

lemma is_http_nonempty: "is_http u \<Longrightarrow> u \<noteq> []"
  by (auto simp: is_http_def)

lemma tier_url_find: "tier_url us = (case find is_http us of None \<Rightarrow> [] | Some u \<Rightarrow> u)"
  by (induction us) auto

lemma find_append: "find P (xs @ ys) = (case find P xs of None \<Rightarrow> find P ys | Some x \<Rightarrow> Some x)"
  by (induction xs) auto

lemma tiers_url_find: "tiers_url ts = (case find is_http (concat ts) of None \<Rightarrow> [] | Some u \<Rightarrow> u)"
proof (induction ts)
  case (Cons t ts)
  have "find is_http t = Some u \<Longrightarrow> u \<noteq> []" for u using find_Some_in[of is_http t u] is_http_nonempty by blast
  with Cons show ?case by (auto simp: tier_url_find find_append Let_def split: option.splits)
qed simp

text \<open>
  The tracker that is asked is the first HTTP or HTTPS one in the order of the torrent,
  \<open>announce\<close> and then the tiers, and the empty address exactly when there is none.
\<close>

lemma announce_url_first:
  "announce_url t = (case find is_http (announce t # concat (announceList t)) of None \<Rightarrow> [] | Some u \<Rightarrow> u) \<and>
   (announce_url t = [] \<longleftrightarrow> (\<forall>u \<in> set (announce t # concat (announceList t)). \<not> is_http u))"
proof -
  have eq: "announce_url t = (case find is_http (announce t # concat (announceList t)) of None \<Rightarrow> [] | Some u \<Rightarrow> u)"
    using is_http_nonempty[of "announce t"] by (auto simp: announce_url_def tiers_url_find)
  show ?thesis
  proof (cases "find is_http (announce t # concat (announceList t))")
    case None
    then have "\<forall>u \<in> set (announce t # concat (announceList t)). \<not> is_http u"
      unfolding find_None_iff by blast
    with eq None show ?thesis by (simp del: find.simps)
  next
    case (Some u)
    with find_Some_in[OF Some] is_http_nonempty[of u] eq show ?thesis by auto
  qed
qed

lemma client_queue_refilled:
  "push_all ps q = q @ ps"
  by (induction ps arbitrary: q) (simp_all add: push_all_def sq_push_back_def)

lemma failed_file_stays:
  assumes "pm_run s0 s" "pm_wf s0" "\<not> good (downloadedFile s0)"
  shows "downloadedFile s = downloadedFile s0"
proof -
  have "\<not> good (downloadedFile s0) \<longrightarrow> downloadedFile s = downloadedFile s0"
    using assms(1) unfolding pm_run_def
  proof (rule pmi.monotone_steps)
    fix u u' assume wf: "pm_wf u" and st: "\<exists>ev. pm_step ev u u'"
    then have "progress u u'" using pm_step_progress by blast
    then show "\<not> good (downloadedFile u) \<longrightarrow> downloadedFile u' = downloadedFile u"
      by (auto simp: progress_def seek_write_eq)
  qed (use assms in auto)
  with assms(3) show ?thesis by simp
qed

lemma setup_reads_no_files:
  assumes "setup_download lc lt opens pid dir fileData = Inr (Some dl)"
  obtains c ti v t where "fileData = Some c" "decode lc c = Inr v" "parseTorrentFile v = Inr t"
    "PieceManager (opens (dl_path dl)) t = Inr (dl_manager dl)" "files (info t) = []" "lt c = Some ti" "dl_announce dl = announce_url t"
proof -
  obtain c ti v t where r: "fileData = Some c" "decode lc c = Inr v" "parseTorrentFile v = Inr t"
    "PieceManager (opens (dl_path dl)) t = Inr (dl_manager dl)" "lt c = Some ti" "dl_announce dl = announce_url t"
    using assms by (auto simp: setup_download_def rbind_Inr_iff split: option.splits)
  have "files (info t) = []"
  proof (rule ccontr)
    assume ne: "files (info t) \<noteq> []"
    have "no_int v" using r(2) by (auto simp: decode_def decode_prefix_def rbind_Inr_iff dest: decode_no_int_at(1))
    then have "lengths_unset t"
      using r(3) visit_unset(2) by (auto simp: parseTorrentFile_def lengths_unset_def new_torrent_def split: option.splits)
    then have "PieceManager (opens (dl_path dl)) t = Inl (Undefined Indeterminate)"
      using unset_unusable(3)[OF ne] by (simp add: lengths_unset_def)
    with r(4) show False by simp
  qed
  with r that show thesis by blast
qed

lemma setup_file_failed:
  assumes "setup_download lc lt opens pid dir fileData = Inr (Some dl)"
  shows "downloadedFile (dl_manager dl) = \<lparr>content = [], good = False, put_pos = 0\<rparr>"
proof -
  obtain t where t: "PieceManager (opens (dl_path dl)) t = Inr (dl_manager dl)" "files (info t) = []" by (rule setup_reads_no_files[OF assms])
  from t(2) have "getTotalFileSize t = Inr 0" by (simp add: getTotalFileSize_def)
  then have "PieceManager opened t = Inr pm \<Longrightarrow> downloadedFile pm = \<lparr>content = [], good = False, put_pos = 0\<rparr>" for opened pm
    by (auto simp: PieceManager_def rbind_Inr_iff seek_write_eq split: option.splits)
  from this[OF t(1)] show ?thesis .
qed

lemma setup_file_stays_empty:
  assumes "setup_download lc lt opens pid dir fileData = Inr (Some dl)" "pm_run (dl_manager dl) s"
  shows "content (downloadedFile s) = []"
proof -
  obtain t where "PieceManager (opens (dl_path dl)) t = Inr (dl_manager dl)" by (rule setup_reads_no_files[OF assms(1)])
  with failed_file_stays[OF assms(2)] setup_file_failed[OF assms(1)] PieceManager_wf show ?thesis by simp
qed

text \<open>
  C4. What the client downloads: it goes on after reading a torrent only when no \<open>files\<close>
  list was read from it, the piece manager then takes the total size for zero, its
  constructor seeks to the position before the start of the output file, and nothing is written
  in any state of the download, whatever blocks arrive, whether or not the file could be opened.
\<close>

theorem nothing_is_written:
  assumes "setup_download lc lt opens pid dir fileData = Inr (Some dl)" "pm_run (dl_manager dl) s"
  shows "\<exists>c v t. fileData = Some c \<and> decode lc c = Inr v \<and> parseTorrentFile v = Inr t \<and>
    files (info t) = [] \<and> PieceManager (opens (dl_path dl)) t = Inr (dl_manager dl) \<and> dl_announce dl = announce_url t \<and>
    content (downloadedFile s) = []"
  using setup_reads_no_files[OF assms(1)] setup_file_stays_empty[OF assms] by metis

text \<open>After \<open>terminate\<close> the queue has an element for every thread that waits for a peer.\<close>

lemma terminate_feeds_threads:
  "client_queue (terminate n c) = client_queue c @ replicate n dummy_peer \<and>
   (k < n \<longrightarrow> (\<exists>p q. sq_pop_front (drop k (client_queue (terminate n c))) = Inr (p, q)))"
proof -
  have eq: "client_queue (terminate n c) = client_queue c @ replicate n dummy_peer"
    by (simp add: terminate_def client_queue_refilled)
  moreover have "\<exists>p q. sq_pop_front (drop k (client_queue c @ replicate n dummy_peer)) = Inr (p, q)" if "k < n"
  proof -
    have "drop k (client_queue c @ replicate n dummy_peer) \<noteq> []" using that by (cases "length (client_queue c) \<le> k") auto
    then show ?thesis by (cases "drop k (client_queue c @ replicate n dummy_peer)") (auto simp: sq_pop_front_def)
  qed
  ultimately show ?thesis by simp
qed


definition ex_lt :: lt_info where
  "ex_lt = \<lparr>lt_hash = replicate 20 (CHR ''x''), lt_size = 5, lt_name = ''a''\<rparr>"

definition ex_single_file :: bytes where
  "ex_single_file = ''d8:announce8:http://t4:infod6:lengthi5e4:name1:a12:piece lengthi16384e6:pieces0:ee''"

lemma ex_setup:
  "\<exists>dl v t. setup_download lexcast_ref (\<lambda>_. Some ex_lt) opens pid dir (Some ex_single_file) = Inr (Some dl) \<and>
     decode lexcast_ref ex_single_file = Inr v \<and> parseTorrentFile v = Inr t \<and> announce t = ''http://t'' \<and>
     PieceManager (opens (dl_path dl)) t = Inr (dl_manager dl) \<and> isComplete (dl_manager dl)"
proof -
  let ?v = "VDict [(''announce'', VStr ''http://t''), (''info'', VDict [(''length'', VULL 5), (''name'', VStr ''a''),
     (''piece length'', VULL 16384), (''pieces'', VStr [])])]"
  have d: "decode lexcast_ref ex_single_file = Inr ?v" by (simp add: ex_single_file_def decode_eval)
  obtain t where t: "parseTorrentFile ?v = Inr t" "announce t = ''http://t''" "files (info t) = []"
    "pieceLength (info t) = Some 16384" "pieces (info t) = []"
    by (simp add: parseTorrentFile_def new_torrent_def visit_int_def visit_string_def)
  obtain pm where pm: "PieceManager (opens (dir @ lt_name ex_lt)) t = Inr pm" "isComplete pm"
    using t(3-5) by (simp add: PieceManager_def initiatePieces_def getTotalFileSize_def isComplete_def splitPieceHashes.simps
        ceil_int_def int_max_def block_size_def signed_divide_int_def)
  have "\<exists>dl. setup_download lexcast_ref (\<lambda>_. Some ex_lt) opens pid dir (Some ex_single_file) = Inr (Some dl) \<and> dl_manager dl = pm \<and> dl_path dl = dir @ lt_name ex_lt"
    by (simp add: setup_download_def d t(1) pm(1))
  with d t(1,2) pm show ?thesis by auto
qed

lemma nothing_is_written_witness:
  "\<exists>dl. setup_download lexcast_ref (\<lambda>_. Some ex_lt) (\<lambda>_. True) ''p'' ''/d/'' (Some ex_single_file) = Inr (Some dl) \<and>
   dl_announce dl = ''http://t'' \<and> content (downloadedFile (dl_manager dl)) = []"
proof -
  obtain dl v t where dl: "setup_download lexcast_ref (\<lambda>_. Some ex_lt) (\<lambda>_. True) ''p'' ''/d/'' (Some ex_single_file) = Inr (Some dl)"
    and t: "decode lexcast_ref ex_single_file = Inr v" "parseTorrentFile v = Inr t" "announce t = ''http://t''"
    using ex_setup by blast
  from nothing_is_written[OF dl pm_run_refl] t have "dl_announce dl = ''http://t''" "content (downloadedFile (dl_manager dl)) = []"
    by (auto simp: announce_url_def is_http_def)
  with dl show ?thesis by blast
qed

end
