(* ===== verification/Preview.thy ===== *)
theory Preview
  imports TorrentOps
begin

text \<open>
  What is shown of a torrent: the printer of values (\<open>src/bencode/prettyPrinter.cpp\<close>) and
  the preview of the terminal interface (\<open>showTorrentPreview\<close> in \<open>src/main.cpp\<close>), with the
  tree of its files and its scrolling.
\<close>

section \<open>The printer of values\<close>

text \<open>\<open>isAscii\<close> of a \<open>char\<close>, which is signed: bytes from 128 on are negative.\<close>

definition isAscii :: "char \<Rightarrow> bool" where
  "isAscii c \<longleftrightarrow> (9 \<le> byte_val c \<and> byte_val c \<le> 13) \<or> (32 \<le> byte_val c \<and> byte_val c \<le> 126)"

definition getSpace :: "nat \<Rightarrow> string" where
  "getSpace indentation = replicate (indentation * 2) (CHR '' '')"

definition endl :: string where "endl = [CHR 0x0A]"

definition print_string :: "string \<Rightarrow> string" where
  "print_string t =
     (if \<not> list_all isAscii t then ''BINARY DATA (length: '' @ dec_nat (length t) @ '')'' @ endl
      else take 100 t @ endl)"

text \<open>An \<open>unsigned long long\<close> goes to the overload for \<open>int\<close>.\<close>

fun print_value :: "nat \<Rightarrow> bvalue \<Rightarrow> string"
  and print_dict :: "nat \<Rightarrow> (string, bvalue) smap \<Rightarrow> string"
  and print_list :: "nat \<Rightarrow> nat \<Rightarrow> bvalue list \<Rightarrow> string" where
  "print_value ind (VInt t) = dec_int (sint t) @ endl"
| "print_value ind (VULL t) = dec_int (sint (ucast t :: cint)) @ endl"
| "print_value ind (VStr t) = print_string t"
| "print_value ind (VDict t) = endl @ print_dict ind t"
| "print_value ind (VList t) = endl @ print_list ind 0 t"
| "print_dict ind [] = []"
| "print_dict ind ((k, v) # t) = getSpace ind @ ''{'' @ k @ ''}: '' @ print_value (ind + 1) v @ print_dict ind t"
| "print_list ind i [] = []"
| "print_list ind i (v # t) = getSpace ind @ ''['' @ dec_nat i @ '']: '' @ print_value (ind + 1) v @ print_list ind (i + 1) t"

fun ascii_keys :: "bvalue \<Rightarrow> bool" where
  "ascii_keys (VDict d) = list_all (\<lambda>(k, v). list_all isAscii k \<and> ascii_keys v) d"
| "ascii_keys (VList vs) = list_all ascii_keys vs"
| "ascii_keys _ = True"

lemma isAscii_chars [simp]:
  "isAscii (CHR 0x0A)" "isAscii (CHR '' '')" "isAscii (CHR ''{'')" "isAscii (CHR ''}'')" "isAscii (CHR '':'')"
  "isAscii (CHR ''['')" "isAscii (CHR '']'')" "isAscii (CHR ''-'')" "isAscii (CHR '')'')"
  by (simp_all add: isAscii_def)

lemma dec_nat_ascii [simp]: "list_all isAscii (dec_nat n)"
  using dec_nat_digits by (fastforce simp: list_all_iff isAscii_def isdigit_def)

lemma dec_int_ascii [simp]: "list_all isAscii (dec_int i)"
  by (simp add: dec_int_def)

lemma getSpace_ascii [simp]: "list_all isAscii (getSpace n)"
  by (simp add: getSpace_def list_all_iff)

lemma print_string_ascii [simp]: "list_all isAscii (print_string t)"
proof -
  have "list_all isAscii ''BINARY DATA (length: ''" by (simp add: isAscii_def)
  moreover have "list_all isAscii (take n t)" if "list_all isAscii t" for n
    using that by (auto simp: list_all_iff dest: in_set_takeD)
  ultimately show ?thesis by (simp add: print_string_def endl_def)
qed

text \<open>Strings are filtered before they reach the terminal; keys of dictionaries are not.\<close>

lemma print_value_ascii:
  "ascii_keys v \<Longrightarrow> list_all isAscii (print_value ind v)"
  "ascii_keys (VDict d) \<Longrightarrow> list_all isAscii (print_dict ind d)"
  "list_all ascii_keys vs \<Longrightarrow> list_all isAscii (print_list ind i vs)"
proof (induction ind v and ind d and ind i vs rule: print_value_print_dict_print_list.induct)
qed (auto simp: endl_def)

section \<open>The preview of a torrent\<close>

text \<open>
  \<open>dir_structure\<close>: the folders of the torrent, each with the names and sizes of its files.
  A file without a path component makes the loop bound \<open>path.size() - 1\<close> wrap around, and
  the loop reads outside the vector. Copying a length that was never set is undefined.
\<close>

type_synonym dirs = "(string, (string \<times> cull) list) smap"

definition touch :: "string \<Rightarrow> dirs \<Rightarrow> dirs" where
  "touch k m = (if map_get m k = None then map_set k [] m else m)"

definition dir_files :: "dirs \<Rightarrow> string \<Rightarrow> (string \<times> cull) list" where
  "dir_files m k = (case map_get m k of None \<Rightarrow> [] | Some fs \<Rightarrow> fs)"

fun enter_dirs :: "string list \<Rightarrow> string \<Rightarrow> dirs \<Rightarrow> string \<times> dirs" where
  "enter_dirs [] current_path m = (current_path, m)"
| "enter_dirs (c # cs) current_path m =
     (let cp = current_path @ (if current_path = [] then [] else ''/'') @ c in enter_dirs cs cp (touch cp m))"

definition add_file :: "file_info \<Rightarrow> dirs \<Rightarrow> dirs res" where
  "add_file f m =
     (if path f = [] then Inl (Undefined OutOfBounds)
      else case enter_dirs (butlast (path f)) [] m of
        (cp, m') \<Rightarrow>
          (case length_of f of
             None \<Rightarrow> Inl (Undefined Indeterminate)
           | Some n \<Rightarrow> Inr (map_set cp (dir_files m' cp @ [(last (path f), n)]) m')))"

fun dir_structure :: "file_info list \<Rightarrow> dirs \<Rightarrow> dirs res" where
  "dir_structure [] m = Inr m"
| "dir_structure (f # fs) m = rbind (add_file f m) (dir_structure fs)"

text \<open>
  \<open>display_tree\<close>: what is printed, with its row and column in the window, and the number
  of the current row; a string ends at its first NUL there. A folder is shown with its files, then the folders directly in it.
\<close>

type_synonym shown = "(int \<times> nat \<times> string) list"

definition c_str :: "string \<Rightarrow> string" where
  "c_str s = takeWhile (\<lambda>c. c \<noteq> CHR 0x00) s"

definition after_slash :: "string \<Rightarrow> string" where
  "after_slash s = rev (takeWhile (\<lambda>c. c \<noteq> CHR ''/'') (rev s))"

definition is_child :: "string \<Rightarrow> string \<Rightarrow> bool" where
  "is_child p e \<longleftrightarrow> take (length p + 1) e = p @ ''/'' \<and> length e - length (after_slash e) = length p + 1"

definition dir_row :: "string \<Rightarrow> nat \<Rightarrow> nat \<times> string" where
  "dir_row p depth = (1 + depth * 2, replicate (depth * 2) (CHR '' '') @ c_str (after_slash p))"

definition file_row :: "nat \<Rightarrow> string \<times> cull \<Rightarrow> nat \<times> string" where
  "file_row depth f =
     (1 + (depth + 1) * 2, replicate ((depth + 1) * 2) (CHR '' '') @ c_str (fst f) @ '' ('' @ dec_nat (unat (snd f)) @ '')'')"

text \<open>Print a row if it is in the window, and count it unless the window is full.\<close>

definition show_row :: "int \<Rightarrow> int \<Rightarrow> int \<times> shown \<Rightarrow> nat \<times> string \<Rightarrow> int \<times> shown" where
  "show_row scroll_offset max_rows st row =
     (case st of (current_row, out) \<Rightarrow>
        if max_rows + scroll_offset \<le> current_row then (current_row, out)
        else (current_row + 1,
              if scroll_offset \<le> current_row then out @ [(current_row - scroll_offset + 2, row)] else out))"

lemma is_child_longer: "is_child p e \<Longrightarrow> length p < length e"
proof -
  assume "is_child p e"
  then have "length (take (length p + 1) e) = length p + 1" by (simp add: is_child_def)
  then show ?thesis by simp
qed

definition longest :: "dirs \<Rightarrow> nat" where
  "longest m = foldr (\<lambda>e n. max (length (fst e)) n) m 0"

lemma longest_ge: "e \<in> set m \<Longrightarrow> length (fst e) \<le> longest m"
  by (induction m) (auto simp: longest_def)

lemma tree_measure: "e \<in> set m \<Longrightarrow> is_child p (fst e) \<Longrightarrow> longest m - length (fst e) < longest m - length p"
  using longest_ge[of e m] is_child_longer[of p "fst e"] by simp

function display_tree :: "int \<Rightarrow> int \<Rightarrow> dirs \<Rightarrow> string \<Rightarrow> nat \<Rightarrow> int \<times> shown \<Rightarrow> int \<times> shown" where
  "display_tree scroll_offset max_rows m p depth st =
     (if max_rows + scroll_offset \<le> fst st then st
      else
        (let st1 = show_row scroll_offset max_rows st (dir_row p depth);
             st2 = foldl (\<lambda>s f. show_row scroll_offset max_rows s (file_row depth f)) st1 (dir_files m p)
         in foldl (\<lambda>s e. if is_child p (fst e) then display_tree scroll_offset max_rows m (fst e) (depth + 1) s else s) st2 m))"
  by pat_completeness auto
termination
  by (relation "measure (\<lambda>(s, mr, m, p, d, st). longest m - length p)") (auto simp: tree_measure)

declare display_tree.simps [simp del]

definition display_files :: "int \<Rightarrow> int \<Rightarrow> dirs \<Rightarrow> shown" where
  "display_files scroll_offset max_rows m =
     snd (foldl (\<lambda>s e. if CHR ''/'' \<notin> set (fst e) then display_tree scroll_offset max_rows m (fst e) 0 s else s) (0, []) m)"

text \<open>All rows of the tree, without the window.\<close>

function tree_rows :: "dirs \<Rightarrow> string \<Rightarrow> nat \<Rightarrow> (nat \<times> string) list" where
  "tree_rows m p depth = dir_row p depth # map (file_row depth) (dir_files m p)
     @ concat (map (\<lambda>e. tree_rows m (fst e) (depth + 1)) (filter (\<lambda>e. is_child p (fst e)) m))"
  by pat_completeness auto
termination
  by (relation "measure (\<lambda>(m, p, d). longest m - length p)") (auto simp: tree_measure)

declare tree_rows.simps [simp del]

definition all_rows :: "dirs \<Rightarrow> (nat \<times> string) list" where
  "all_rows m = concat (map (\<lambda>e. tree_rows m (fst e) 0) (filter (\<lambda>e. CHR ''/'' \<notin> set (fst e)) m))"

lemma show_row_full: "max_rows + scr \<le> fst st \<Longrightarrow> foldl (show_row scr max_rows) st rows = st"
  by (induction rows) (auto simp: show_row_def split: prod.splits)

lemma foldl_if_filter: "foldl (\<lambda>s e. if P e then f s e else s) st m = foldl f st (filter P m)"
  by (induction m arbitrary: st) auto

lemma foldl_concat_rows: "foldl (show_row scr mr) st (concat (map g m)) = foldl (\<lambda>s e. foldl (show_row scr mr) s (g e)) st m"
  by (induction m arbitrary: st) auto

lemma display_tree_rows:
  "display_tree scr mr m p depth st = foldl (show_row scr mr) st (tree_rows m p depth)"
proof (induction scr mr m p depth st rule: display_tree.induct)
  case (1 scr mr m p depth st)
  show ?case
  proof (cases "mr + scr \<le> fst st")
    case True
    then show ?thesis using show_row_full by (simp add: display_tree.simps[of scr mr m p])
  next
    case False
    define st2 where "st2 = foldl (\<lambda>s f. show_row scr mr s (file_row depth f)) (show_row scr mr st (dir_row p depth)) (dir_files m p)"
    have st2: "st2 = foldl (show_row scr mr) st (dir_row p depth # map (file_row depth) (dir_files m p))"
      by (simp add: st2_def foldl_map)
    have "foldl (\<lambda>s e. if is_child p (fst e) then display_tree scr mr m (fst e) (depth + 1) s else s) st2 m
        = foldl (\<lambda>s e. if is_child p (fst e) then foldl (show_row scr mr) s (tree_rows m (fst e) (depth + 1)) else s) st2 m"
      by (rule foldl_cong) (use "1.IH"[OF False refl st2_def] in auto)
    then show ?thesis
      using False unfolding display_tree.simps[of scr mr m p] tree_rows.simps[of m p]
      by (simp add: Let_def foldl_if_filter foldl_concat_rows flip: st2_def)
        (simp add: st2)
  qed
qed

lemma display_files_rows: "display_files scr mr m = snd (foldl (show_row scr mr) (0, []) (all_rows m))"
  by (simp add: display_files_def all_rows_def foldl_if_filter foldl_concat_rows display_tree_rows)

lemma show_rows_from:
  assumes "0 \<le> r"
  shows "snd (foldl (show_row scr mr) (r, out) rows) = out @
    map (\<lambda>(i, row). (i - scr + 2, row)) (filter (\<lambda>(i, row). scr \<le> i \<and> i < mr + scr)
      (zip (map (\<lambda>k. r + int k) [0..<length rows]) rows))"
  using assms
proof (induction rows arbitrary: r out)
  case (Cons row rows)
  have z: "map (\<lambda>k. r + int k) [0..<length (row # rows)] = r # map (\<lambda>k. (r + 1) + int k) [0..<length rows]"
    by (simp add: upt_conv_Cons map_Suc_upt[symmetric] comp_def algebra_simps del: upt_Suc)
  show ?case
  proof (cases "mr + scr \<le> r")
    case True
    then have "filter (\<lambda>(i, row). scr \<le> i \<and> i < mr + scr) (zip (map (\<lambda>k. r + int k) [0..<length (row # rows)]) (row # rows)) = []"
      by (auto simp: filter_empty_conv dest!: set_zip_leftD)
    with True show_row_full[of mr scr "(r, out)" "row # rows"] show ?thesis by simp
  next
    case False
    then have "show_row scr mr (r, out) row = (r + 1, if scr \<le> r then out @ [(r - scr + 2, row)] else out)"
      by (simp add: show_row_def)
    with Cons.IH[of "r + 1"] Cons.prems False show ?thesis unfolding z by simp
  qed
qed simp

text \<open>
  The window of the preview: for every scroll offset the rows shown are exactly those of
  the whole tree with an index in the window, each once, in order, on the line of its index.
\<close>

theorem preview_window:
  "display_files scr mr m = map (\<lambda>(i, row). (i - scr + 2, row))
     (filter (\<lambda>(i, row). scr \<le> i \<and> i < mr + scr) (zip (map int [0..<length (all_rows m)]) (all_rows m)))"
  using show_rows_from[of 0 scr mr "[]" "all_rows m"] by (simp add: display_files_rows)

section \<open>The dialog around the preview\<close>

datatype key = KEY_UP | KEY_DOWN | KEY_LEFT | KEY_RIGHT | KEY_BACKSPACE | KEY_F1 | Ch nat

definition ENTER :: key where "ENTER = Ch 10"
definition is_q :: "key \<Rightarrow> bool" where "is_q k \<longleftrightarrow> k = Ch 113 \<or> k = Ch 81"
definition is_e :: "key \<Rightarrow> bool" where "is_e k \<longleftrightarrow> k = Ch 101 \<or> k = Ch 69"

definition needs_scrolling :: "int \<Rightarrow> torrent_file \<Rightarrow> bool" where
  "needs_scrolling max_rows t \<longleftrightarrow> 0 \<le> max_rows \<and> max_rows < int (length (files (info t)))"

fun preview_loop :: "int \<Rightarrow> torrent_file \<Rightarrow> int \<Rightarrow> key list \<Rightarrow> (bool \<times> key list) res" where
  "preview_loop max_rows t scroll_offset [] = Inl Blocks"
| "preview_loop max_rows t scroll_offset (ch # keys) =
     (if ch = KEY_UP then
        preview_loop max_rows t (if needs_scrolling max_rows t \<and> 0 < scroll_offset then scroll_offset - 1 else scroll_offset) keys
      else if ch = KEY_DOWN then
        preview_loop max_rows t (if needs_scrolling max_rows t then scroll_offset + 1 else scroll_offset) keys
      else if ch = ENTER then Inr (True, keys)
      else if is_q ch then Inr (False, keys)
      else preview_loop max_rows t scroll_offset keys)"

text \<open>
  \<open>showTorrentPreview\<close>: an exception is shown, and any key goes on. The tree is built
  before the first key is read.
\<close>

definition showTorrentPreview :: "lexcast \<Rightarrow> disk \<Rightarrow> int \<Rightarrow> string \<Rightarrow> key list \<Rightarrow> (bool \<times> key list) res" where
  "showTorrentPreview lc d max_rows file_path keys =
     (case rbind (File_read d file_path) (\<lambda>data. rbind (decode lc data) parseTorrentFile) of
        Inl e \<Rightarrow>
          if is_exception e then (case keys of [] \<Rightarrow> Inl Blocks | k # ks \<Rightarrow> Inr (False, ks)) else Inl e
      | Inr t \<Rightarrow> rbind (dir_structure (files (info t)) []) (\<lambda>_. preview_loop max_rows t 0 keys))"

lemma preview_unset:
  assumes "d file_path = Some c" "decode lc c = Inr v" "parseTorrentFile v = Inr t" "files (info t) \<noteq> []"
  shows "\<exists>u. showTorrentPreview lc d max_rows file_path keys = Inl (Undefined u)"
proof -
  have "no_int v" using assms(2) by (auto simp: decode_def decode_prefix_def rbind_Inr_iff dest: decode_no_int_at(1))
  then have un: "lengths_unset t"
    using assms(3) visit_unset(2) by (auto simp: parseTorrentFile_def lengths_unset_def new_torrent_def split: option.splits)
  obtain f fs where f: "files (info t) = f # fs" using assms(4) by (cases "files (info t)") auto
  with un have "\<exists>u. add_file f [] = Inl (Undefined u)" by (auto simp: add_file_def lengths_unset_def split: prod.splits)
  with f assms(1-3) show ?thesis by (auto simp: showTorrentPreview_def File_read_def)
qed

end
