(* ===== verification/Dialog.thy ===== *)
theory Dialog
  imports Preview "HOL-Library.Multiset"
begin

text \<open>
  The file dialog of the terminal interface (\<open>fileDialog\<close> in \<open>src/main.cpp\<close>): its
  layout, the listing of a directory, the keys, and what a dialog that returns has chosen.
\<close>

section \<open>Layout\<close>

text \<open>
  The loops of \<open>calculate_path_height\<close> count the rows of a text. A position is a
  \<open>size_t\<close>, and the width, \<open>COLS - 4\<close>, is converted to one: at width zero the loop does
  not end, and a negative width becomes a huge step.
\<close>

definition size_of :: "string \<Rightarrow> 64 word" where
  "size_of s = of_nat (length s)"

partial_function (option) count_lines :: "64 word \<Rightarrow> 64 word \<Rightarrow> 64 word \<Rightarrow> int \<Rightarrow> int option" where
  "count_lines max_width len at lines =
     (if at < len then count_lines max_width len (at + max_width) (lines + 1) else Some lines)"

definition calculate_path_height :: "int \<Rightarrow> string \<Rightarrow> string \<Rightarrow> int option" where
  "calculate_path_height cols p error =
     (let max_width = word_of_int (cols - 4) in
      Option.bind (count_lines max_width (size_of p) 0 1) (\<lambda>lines.
      Option.bind (if error \<noteq> [] then count_lines max_width (size_of error) 0 lines else Some lines) (\<lambda>lines.
        Some (max (lines + 2) 3))))"

text \<open>\<open>refresh_path_window\<close>: the rows of the path and of the error, each with its line.\<close>

partial_function (option) wrap_text :: "64 word \<Rightarrow> string \<Rightarrow> 64 word \<Rightarrow> int \<Rightarrow> (int \<times> string) list \<Rightarrow> (int \<times> (int \<times> string) list) option" where
  "wrap_text max_width t at line out =
     (if at < size_of t
      then (let end = min (at + max_width) (size_of t) in
            wrap_text max_width t end (line + 1) (out @ [(line, take (unat (end - at)) (drop (unat at) t))]))
      else Some (line, out))"

definition refresh_path_window :: "int \<Rightarrow> string \<Rightarrow> string \<Rightarrow> (int \<times> string) list option" where
  "refresh_path_window cols currentDir errorMsg =
     (let max_width = word_of_int (cols - 4) in
      Option.bind (wrap_text max_width (''Current Path: '' @ currentDir) 0 1 []) (\<lambda>(line, out).
        if errorMsg \<noteq> [] then map_option snd (wrap_text max_width errorMsg 0 (line + 1) out) else Some out))"

text \<open>The rows of the list: row in the dialog and index of the file.\<close>

definition visible_rows :: "int \<Rightarrow> int \<Rightarrow> int \<Rightarrow> (int \<times> int) list" where
  "visible_rows max_lines selected n =
     (let startIndex = (if max_lines \<le> selected then selected - max_lines + 1 else 0);
          numRows = min (n - startIndex) max_lines
      in map (\<lambda>i. (2 + i, startIndex + i)) (filter (\<lambda>i. startIndex + i < n) [0..numRows - 1]))"

lemma selection_visible:
  assumes "0 \<le> sel" "sel < n" "1 \<le> max_lines"
  shows "\<exists>r. (r, sel) \<in> set (visible_rows max_lines sel n) \<and> (\<forall>r i. (r, i) \<in> set (visible_rows max_lines sel n) \<longrightarrow>
    2 \<le> r \<and> r \<le> max_lines + 1 \<and> 0 \<le> i \<and> i < n)"
proof -
  let ?start = "if max_lines \<le> sel then sel - max_lines + 1 else 0"
  have "(2 + (sel - ?start), sel) \<in> set (visible_rows max_lines sel n)"
    using assms unfolding visible_rows_def Let_def set_map set_filter
    by (intro image_eqI[where x = "sel - ?start"]) auto
  moreover have "\<forall>r i. (r, i) \<in> set (visible_rows max_lines sel n) \<longrightarrow> 2 \<le> r \<and> r \<le> max_lines + 1 \<and> 0 \<le> i \<and> i < n"
    using assms by (auto simp: visible_rows_def Let_def)
  ultimately show ?thesis by blast
qed

text \<open>The number of rows a text takes at a width.\<close>

definition rows_of :: "nat \<Rightarrow> nat \<Rightarrow> nat" where
  "rows_of w n = (n + w - 1) div w"

lemma rows_of_step:
  assumes "0 < w" "p < n"
  shows "rows_of w (n - p) = Suc (rows_of w (n - (p + w)))"
proof (cases "p + w \<le> n")
  case le: True
  then have "n - p + w - 1 = (n - (p + w) + w - 1) + w" using assms(1) by simp
  then show ?thesis using assms(1) unfolding rows_of_def by (metis Suc_eq_plus1 div_add_self2 less_not_refl)
next
  case False
  then have d: "n - p - 1 < w" "n - p + w - 1 = (n - p - 1) + w" using assms(2) by linarith+
  have "(n - p - 1 + w) div w = 1" using d(1) assms(1) div_less[OF d(1)] by (metis div_add_self2 less_not_refl add_0)
  then show ?thesis using d(2) False assms(1) unfolding rows_of_def by simp
qed

lemma count_lines_wide:
  assumes "0 < w" "w < 2 ^ 32" "n < 2 ^ 63" "p < 2 ^ 63 + 2 ^ 33"
  shows "count_lines (of_nat w) (of_nat n) (of_nat p) l = Some (l + int (rows_of w (n - p)))"
  using assms
proof (induction "n - p" arbitrary: p l rule: less_induct)
  case less
  have lt: "((of_nat p :: 64 word) < of_nat n) = (p < n)"
    using less.prems by (simp add: word_less_nat_alt unat_of_nat take_bit_nat_eq_self)
  show ?case
  proof (cases "p < n")
    case True
    have "count_lines (of_nat w) (of_nat n) (of_nat (p + w)) (l + 1) = Some (l + 1 + int (rows_of w (n - (p + w))))"
      using less.hyps[of "p + w" "l + 1"] less.prems True by simp
    moreover note rows_of_step[OF less.prems(1) True]
    ultimately show ?thesis using True lt by (subst count_lines.simps) (simp add: algebra_simps)
  next
    case False
    then show ?thesis using lt less.prems(1) by (subst count_lines.simps) (simp add: rows_of_def)
  qed
qed

lemma count_lines_stuck: "at < len \<Longrightarrow> count_lines 0 len at l = None"
proof (rule ccontr)
  assume "at < len" "count_lines 0 len at l \<noteq> None"
  then obtain r where "count_lines 0 len at l = Some r" by blast
  then have "\<not> (0 = (0 :: 64 word) \<and> at < len)"
    by (rule count_lines.raw_induct[where P = "\<lambda>w len at l r. \<not> (w = 0 \<and> at < len)", rotated])
      (metis add.right_neutral option.distinct(1))
  with \<open>at < len\<close> show False by simp
qed

lemma count_lines_narrow:
  assumes "cols < 4" "0 \<le> cols" "n < 2 ^ 63"
  shows "count_lines (word_of_int (cols - 4)) (of_nat n) 0 l = Some (if n = 0 then l else l + 1)"
proof -
  have "cols = 0 \<or> cols = 1 \<or> cols = 2 \<or> cols = 3" using assms by auto
  then have big: "2 ^ 63 \<le> unat (word_of_int (cols - 4) :: 64 word)"
    by (elim disjE) (simp_all add: unsigned_minus_1_eq_mask mask_eq_exp_minus_1)
  have n: "unat (of_nat n :: 64 word) = n" using assms(3) by (simp add: unat_of_nat take_bit_nat_eq_self)
  have z: "((0 :: 64 word) < of_nat n) = (n \<noteq> 0)" using n by (simp add: word_less_nat_alt)
  have "\<not> ((word_of_int (cols - 4) :: 64 word) < of_nat n)" using big n assms(3) by (simp add: word_less_nat_alt)
  then show ?thesis
    by (subst count_lines.simps, subst count_lines.simps) (simp add: z)
qed

lemma path_height_wide:
  assumes "4 < cols" "cols \<le> int int_max" "length p < 2 ^ 63" "length err < 2 ^ 63"
  shows "calculate_path_height cols p err =
    Some (3 + int (rows_of (nat (cols - 4)) (length p)) + int (rows_of (nat (cols - 4)) (length err)))"
proof -
  let ?w = "nat (cols - 4)"
  have w: "0 < ?w" "?w < 2 ^ 32" "word_of_int (cols - 4) = (of_nat ?w :: 64 word)"
    using assms(1,2) by (simp_all add: int_max_def)
  have "count_lines (of_nat ?w) (size_of s) 0 l = Some (l + int (rows_of ?w (length s)))" if "length s < 2 ^ 63" for s l
    using count_lines_wide[OF w(1,2) that, of 0 l] by (simp add: size_of_def)
  then show ?thesis using assms(1,3,4) w(1) unfolding calculate_path_height_def w(3)
    by (simp add: Let_def rows_of_def)
qed

text \<open>
  When the height of the path window is computed at all: the loops return exactly when the terminal
  is not four columns wide, unless there is nothing to show.
\<close>

lemma path_height_returns:
  assumes "0 \<le> cols" "cols \<le> int int_max" "length p < 2 ^ 63" "length err < 2 ^ 63"
  shows "calculate_path_height cols p err =
    (if cols = 4 \<and> (p \<noteq> [] \<or> err \<noteq> []) then None
     else Some (if 4 < cols then 3 + int (rows_of (nat (cols - 4)) (length p)) + int (rows_of (nat (cols - 4)) (length err))
       else 3 + (if p = [] then 0 else 1) + (if err = [] then 0 else 1)))"
proof -
  consider "cols < 4" | "cols = 4" | "4 < cols" by linarith
  then show ?thesis
  proof cases
    case 1
    then show ?thesis
      using count_lines_narrow[OF _ assms(1)] assms(3,4) by (simp add: calculate_path_height_def size_of_def Let_def)
  next
    case 2
    have pos: "(0 :: 64 word) < size_of s" if "s \<noteq> []" "length s < 2 ^ 63" for s
      using that by (simp add: size_of_def word_less_nat_alt unat_of_nat take_bit_nat_eq_self)
    have nil: "count_lines 0 (size_of []) 0 l = Some l" for l
      by (subst count_lines.simps) (simp add: size_of_def)
    show ?thesis
      using 2 pos[OF _ assms(3)] pos[OF _ assms(4)] nil
      by (cases "p = []"; cases "err = []") (simp_all add: calculate_path_height_def count_lines_stuck)
  next
    case 3
    then show ?thesis using path_height_wide[OF _ assms(2-4)] by simp
  qed
qed

lemma wrap_text_wide:
  assumes "0 < w" "w < 2 ^ 32" "length t < 2 ^ 63" "p \<le> length t"
  shows "\<exists>l' out'. wrap_text (of_nat w) t (of_nat p) line out = Some (l', out') \<and> l' = line + int (rows_of w (length t - p)) \<and>
    concat (map snd out') = concat (map snd out) @ drop p t \<and>
    (\<forall>(l, s) \<in> set out'. (l, s) \<in> set out \<or> line \<le> l \<and> l < l' \<and> length s \<le> w)"
  using assms
proof (induction "length t - p" arbitrary: p line out rule: less_induct)
  case less
  let ?n = "length t"
  have un: "unat (of_nat k :: 64 word) = k" if "k < 2 ^ 63 + 2 ^ 33" for k
    using that by (simp add: unat_of_nat take_bit_nat_eq_self)
  have lt: "((of_nat p :: 64 word) < size_of t) = (p < ?n)"
    using less.prems un[of p] un[of ?n] by (simp add: word_less_nat_alt size_of_def)
  show ?case
  proof (cases "p < ?n")
    case True
    let ?e = "min (p + w) ?n"
    let ?row = "(line, take (?e - p) (drop p t))"
    have e: "min (of_nat p + of_nat w) (size_of t) = (of_nat ?e :: 64 word)"
      using less.prems un[of "p + w"] un[of ?n] by (auto simp: min_def size_of_def word_le_nat_alt)
    have d: "unat ((of_nat ?e :: 64 word) - of_nat p) = ?e - p" "unat (of_nat p :: 64 word) = p"
      using less.prems True un[of ?e] un[of p] by (simp_all add: unat_sub_if')
    have eq: "wrap_text (of_nat w) t (of_nat p) line out = wrap_text (of_nat w) t (of_nat ?e) (line + 1) (out @ [?row])"
      using True lt e d by (subst wrap_text.simps) (simp add: Let_def)
    have "?n - ?e = ?n - (p + w)" by simp
    then have r: "rows_of w (?n - p) = Suc (rows_of w (?n - ?e))" using rows_of_step[OF less.prems(1) True] by simp
    have le: "?n - ?e < ?n - p" "?e \<le> ?n" using True less.prems(1) by simp_all
    from less.hyps[OF le(1) less.prems(1-3) le(2), of "line + 1" "out @ [?row]"]
    obtain l' out' where ih: "wrap_text (of_nat w) t (of_nat ?e) (line + 1) (out @ [?row]) = Some (l', out')"
      "l' = line + 1 + int (rows_of w (?n - ?e))" "concat (map snd out') = concat (map snd (out @ [?row])) @ drop ?e t"
      "\<forall>(l, s) \<in> set out'. (l, s) \<in> set (out @ [?row]) \<or> line + 1 \<le> l \<and> l < l' \<and> length s \<le> w"
      by blast
    have "take (?e - p) (drop p t) @ drop ?e t = drop p t"
      using True by (metis append_take_drop_id drop_drop le_add_diff_inverse2 less_imp_le min_less_iff_conj not_less add.commute less_add_same_cancel1 less.prems(1))
    with ih(3) have "concat (map snd out') = concat (map snd out) @ drop p t" by simp
    moreover have "\<forall>(l, s) \<in> set out'. (l, s) \<in> set out \<or> line \<le> l \<and> l < l' \<and> length s \<le> w"
      using ih(4) ih(2) by fastforce
    ultimately show ?thesis using eq ih(1,2) r by auto
  next
    case False
    then show ?thesis using lt less.prems by (subst wrap_text.simps) (auto simp: rows_of_def)
  qed
qed

text \<open>
  The window of the path is high enough for it, on terminals of at least 18 columns, although
  its height is computed without the caption: the caption fits into the spare row. An error
  has no spare row left.
\<close>

lemma path_fits:
  assumes "18 \<le> cols" "cols \<le> int int_max" "length p < 2 ^ 62"
  shows "\<exists>h out. calculate_path_height cols p [] = Some h \<and> refresh_path_window cols p [] = Some out \<and>
    concat (map snd out) = ''Current Path: '' @ p \<and>
    (\<forall>(l, s) \<in> set out. 1 \<le> l \<and> l \<le> h - 2 \<and> length s \<le> nat (cols - 4))"
proof -
  let ?w = "nat (cols - 4)" and ?t = "''Current Path: '' @ p"
  have w: "0 < ?w" "?w < 2 ^ 32" "word_of_int (cols - 4) = (of_nat ?w :: 64 word)" "14 \<le> ?w"
    using assms(1,2) by (simp_all add: int_max_def)
  obtain l' out where o: "wrap_text (of_nat ?w) ?t 0 1 [] = Some (l', out)" "l' = 1 + int (rows_of ?w (length ?t))"
    "concat (map snd out) = ?t" "\<forall>(l, s) \<in> set out. 1 \<le> l \<and> l < l' \<and> length s \<le> ?w"
    using wrap_text_wide[OF w(1,2), of ?t 0 1 "[]"] assms(3) by auto
  have "length p + 14 + ?w - 1 \<le> (length p + ?w - 1) + ?w" using w(1,4) by simp
  then have "rows_of ?w (length ?t) \<le> ((length p + ?w - 1) + ?w) div ?w" unfolding rows_of_def by (intro div_le_mono) simp
  also have "\<dots> = rows_of ?w (length p) + 1" using w(1) by (simp only: rows_of_def div_add_self2)
  finally have "int (rows_of ?w (length ?t)) \<le> 1 + int (rows_of ?w (length p))" by linarith
  moreover have "calculate_path_height cols p [] = Some (3 + int (rows_of ?w (length p)))"
    using path_height_wide[of cols p "[]"] assms by (simp add: rows_of_def)
  moreover have "refresh_path_window cols p [] = Some out"
    unfolding refresh_path_window_def w(3) Let_def o(1) by simp
  ultimately show ?thesis using o(2-4) by fastforce
qed

lemma path_height_returns_witness:
  "calculate_path_height 4 ''/a'' [] = None \<and> calculate_path_height 20 ''/home/user/torrents'' ''Error'' = Some 6"
  using path_height_returns[of 4 "''/a''" "[]"] path_height_returns[of 20 "''/home/user/torrents''" "''Error''"]
  by (simp add: int_max_def rows_of_def)

section \<open>The file system the dialog sees\<close>

text \<open>
  \<open>std::filesystem\<close> over POSIX paths: \<open>operator/\<close>, \<open>parent_path\<close> and \<open>extension\<close>.
\<close>

definition path_join :: "string \<Rightarrow> string \<Rightarrow> string" where
  "path_join p q =
     (if q \<noteq> [] \<and> hd q = CHR ''/'' then q
      else if p = [] \<or> last p = CHR ''/'' then p @ q
      else p @ ''/'' @ q)"

definition strip_slashes :: "string \<Rightarrow> string" where
  "strip_slashes p = rev (dropWhile (\<lambda>c. c = CHR ''/'') (rev p))"

definition parent_path :: "string \<Rightarrow> string" where
  "parent_path p =
     (if strip_slashes p = [] then p
      else let q = take (length p - length (after_slash p)) p in
           if strip_slashes q = [] then q else strip_slashes q)"

definition path_extension :: "string \<Rightarrow> string" where
  "path_extension p =
     (let name = after_slash p; ext = rev (takeWhile (\<lambda>c. c \<noteq> CHR ''.'') (rev name)) in
      if name = ''.'' \<or> name = ''..'' \<or> length name \<le> length ext + 1 then [] else CHR ''.'' # ext)"

text \<open>
  What the dialog asks of the file system: the working directory; the entries of a directory
  with their types, \<open>None\<close> when the iteration throws; whether an iterator can be made; the
  status of a path; and the message of the exception for a path. Querying an entry or a path may throw.
\<close>

datatype entry = EDir | ERegular | EOther | EFails

datatype path_status = NoFile | IsDir | NotDir | StatusFails

record fsys =
  current_path :: "string option"
  listing :: "string \<Rightarrow> (string \<times> entry) list option"
  openable :: "string \<Rightarrow> bool"
  status :: "string \<Rightarrow> path_status"
  what_of :: "string \<Rightarrow> string"

text \<open>
  Everything around the dialog: the file system, whose directories other programs may change all the time, and the contents of its
  files, which stay what they are while a dialog runs, the parameters of the decoder,
  the sizes of the terminal and of the preview, and \<open>std::sort\<close>, which leaves the order
  of names that differ in case only unspecified. Time is counted by the keys still to come: \<open>Listing n\<close> is when a list is read
  and \<open>Handling n\<close> when a key is handled with \<open>n\<close> of them left.
\<close>

datatype moment = Listing nat | Handling nat

record ui =
  file_system :: "moment \<Rightarrow> fsys"
  contents :: disk
  cast :: lexcast
  COLS :: int
  max_rows :: int
  sort_names :: "string list \<Rightarrow> string list"

definition tolower :: "char \<Rightarrow> char" where
  "tolower c = (if 65 \<le> byte_val c \<and> byte_val c \<le> 90 then char_of (byte_val c + 32) else c)"

definition to_low :: "string \<Rightarrow> string" where
  "to_low s = map tolower s"

definition sorts :: "(string list \<Rightarrow> string list) \<Rightarrow> bool" where
  "sorts f \<longleftrightarrow> (\<forall>xs. mset (f xs) = mset xs \<and> sorted (map to_low (f xs)))"

lemma sort_key_sorts: "sorts (sort_key to_low)"
  by (simp add: sorts_def)

section \<open>The listing\<close>

record dialog =
  currentDir :: string
  selected :: int
  errorMsg :: string

definition listed :: "bool \<Rightarrow> string \<times> entry \<Rightarrow> bool" where
  "listed only_dirs e \<longleftrightarrow> snd e = EDir \<or> (\<not> only_dirs \<and> snd e = ERegular \<and> path_extension (fst e) = ''.torrent'')"

text \<open>The start of an iteration: the list of files, and the selection within it.\<close>

definition refresh_list :: "ui \<Rightarrow> fsys \<Rightarrow> bool \<Rightarrow> dialog \<Rightarrow> string list \<times> dialog" where
  "refresh_list u fs only_dirs d =
     (let (names, err) =
            (case listing fs (currentDir d) of
               None \<Rightarrow> ([''..''], ''Error: '' @ what_of fs (currentDir d))
             | Some es \<Rightarrow> (''..'' # map fst (filter (listed only_dirs) es), []))
      in (sort_names u names,
          d\<lparr>errorMsg := err, selected := max 0 (min (selected d) (int (length names) - 1))\<rparr>))"

section \<open>The keys\<close>

text \<open>Moving to the parent directory, and entering a directory.\<close>

definition go_parent :: "fsys \<Rightarrow> dialog \<Rightarrow> dialog" where
  "go_parent fs d =
     (let parent = parent_path (currentDir d) in
      if parent = [] then d
      else (case status fs parent of
              IsDir \<Rightarrow> d\<lparr>currentDir := parent, selected := 0\<rparr>
            | StatusFails \<Rightarrow> d\<lparr>errorMsg := ''Error: '' @ what_of fs parent\<rparr>
            | _ \<Rightarrow> d))"

definition enter_dir :: "fsys \<Rightarrow> string \<Rightarrow> dialog \<Rightarrow> dialog" where
  "enter_dir fs p d =
     (if openable fs p then d\<lparr>currentDir := p, selected := 0\<rparr>
      else d\<lparr>errorMsg := ''Error: '' @ what_of fs p\<rparr>)"

datatype 'a outcome = Continue 'a | Return string

text \<open>\<open>files[selected]\<close>, undefined outside the vector.\<close>

definition choice_at :: "string list \<Rightarrow> int \<Rightarrow> string res" where
  "choice_at names i = (if 0 \<le> i \<and> i < int (length names) then Inr (names ! nat i) else Inl (Undefined OutOfBounds))"

definition press_e :: "fsys \<Rightarrow> bool \<Rightarrow> string list \<Rightarrow> dialog \<Rightarrow> dialog res" where
  "press_e fs only_dirs names d =
     (if \<not> only_dirs then Inr d
      else rbind (choice_at names (selected d)) (\<lambda>c.
        Inr (if c = ''..'' then go_parent fs d else enter_dir fs (path_join (currentDir d) c) d)))"

text \<open>ENTER may run the preview, which reads keys of its own.\<close>

definition press_enter :: "ui \<Rightarrow> fsys \<Rightarrow> bool \<Rightarrow> string list \<Rightarrow> dialog \<Rightarrow> key list \<Rightarrow> (dialog outcome \<times> key list) res" where
  "press_enter u fs only_dirs names d keys =
     rbind (choice_at names (selected d)) (\<lambda>choice.
       if choice = ''..'' then Inr (Continue (go_parent fs d), keys)
       else if only_dirs then Inr (Return (path_join (currentDir d) choice), keys)
       else let p = path_join (currentDir d) choice in
         case status fs p of
           IsDir \<Rightarrow> Inr (Continue (enter_dir fs p d), keys)
         | StatusFails \<Rightarrow> Inr (Continue (d\<lparr>errorMsg := ''Error: '' @ what_of fs p\<rparr>), keys)
         | _ \<Rightarrow>
             if path_extension p = ''.torrent''
             then rbind (showTorrentPreview (cast u) (contents u) (max_rows u) p keys) (\<lambda>(accepted, keys').
                    Inr (if accepted then Return p else Continue d, keys'))
             else Inr (Continue d, keys))"

definition dialog_key :: "ui \<Rightarrow> bool \<Rightarrow> string list \<Rightarrow> dialog \<Rightarrow> key \<Rightarrow> key list \<Rightarrow> (dialog outcome \<times> key list) res" where
  "dialog_key u only_dirs names d k keys =
     (let fs = file_system u (Handling (length keys)) in
      if k = KEY_UP then Inr (Continue (if 0 < selected d then d\<lparr>selected := selected d - 1\<rparr> else d), keys)
      else if k = KEY_DOWN then
        Inr (Continue (if selected d < int (length names) - 1 then d\<lparr>selected := selected d + 1\<rparr> else d), keys)
      else if is_e k then rbind (press_e fs only_dirs names d) (\<lambda>d'. Inr (Continue d', keys))
      else if k = ENTER then press_enter u fs only_dirs names d keys
      else if is_q k then Inr (Return [], keys)
      else if k = KEY_BACKSPACE \<or> k = Ch 127 then Inr (Continue (go_parent fs d), keys)
      else Inr (Continue d, keys))"

section \<open>The dialog\<close>

lemma preview_loop_rest: "preview_loop mr t off keys = Inr (b, ks) \<Longrightarrow> length ks < length keys"
  by (induction mr t off keys rule: preview_loop.induct) (auto split: if_splits)

lemma preview_rest: "showTorrentPreview lc d mr p keys = Inr (b, ks) \<Longrightarrow> length ks \<le> length keys"
  by (auto simp: showTorrentPreview_def rbind_Inr_iff split: sum.splits if_splits list.splits dest!: preview_loop_rest)

lemma press_enter_rest: "press_enter u fs od names d keys = Inr (r, ks) \<Longrightarrow> length ks \<le> length keys"
  by (auto simp: press_enter_def rbind_Inr_iff Let_def split: if_splits path_status.splits dest!: preview_rest)

lemma dialog_key_rest: "dialog_key u od names d k keys = Inr (r, ks) \<Longrightarrow> length ks \<le> length keys"
  by (auto simp: dialog_key_def Let_def rbind_Inr_iff split: if_splits dest!: press_enter_rest)

text \<open>
  The loop: list, lay out, wait for a key. A layout loop that does not end is \<open>Diverges\<close>, a dialog
  for which no key arrives \<open>Blocks\<close>. \<open>keys\<close> is what the user types.
\<close>

function dialog_loop :: "ui \<Rightarrow> bool \<Rightarrow> dialog \<Rightarrow> key list \<Rightarrow> (string \<times> key list) res" where
  "dialog_loop u only_dirs d keys =
     (case refresh_list u (file_system u (Listing (length keys))) only_dirs d of (names, d1) \<Rightarrow>
      if calculate_path_height (COLS u) (currentDir d1) (errorMsg d1) = None
         \<or> refresh_path_window (COLS u) (currentDir d1) (errorMsg d1) = None then Inl Diverges
      else case keys of
        [] \<Rightarrow> Inl Blocks
      | k # ks \<Rightarrow>
          (case dialog_key u only_dirs names d1 k ks of
             Inl e \<Rightarrow> Inl e
           | Inr (Continue d2, ks') \<Rightarrow> dialog_loop u only_dirs d2 ks'
           | Inr (Return p, ks') \<Rightarrow> Inr (p, ks')))"
  by pat_completeness auto
termination
  by (relation "measure (\<lambda>(u, od, d, keys). length keys)") (auto dest: dialog_key_rest[THEN le_imp_less_Suc])

declare dialog_loop.simps [simp del]

definition fileDialog :: "ui \<Rightarrow> string \<Rightarrow> bool \<Rightarrow> key list \<Rightarrow> (string \<times> key list) res" where
  "fileDialog u startDir only_dirs keys =
     rbind (if startDir = ''.''
            then (case current_path (file_system u (Listing (length keys))) of None \<Rightarrow> Inl (RuntimeError ''filesystem error: '') | Some p \<Rightarrow> Inr p)
            else Inr startDir) (\<lambda>currentDir.
       if calculate_path_height (COLS u) currentDir [] = None then Inl Diverges
       else dialog_loop u only_dirs \<lparr>currentDir = currentDir, selected = 0, errorMsg = []\<rparr> keys)"

section \<open>Properties of the dialog\<close>

lemma dialog_induct [case_names loop]:
  assumes "\<And>d keys. (\<And>k ks names d1 d2 ks'. keys = k # ks \<Longrightarrow> refresh_list u (file_system u (Listing (length keys))) od d = (names, d1) \<Longrightarrow>
      dialog_key u od names d1 k ks = Inr (Continue d2, ks') \<Longrightarrow> P d2 ks') \<Longrightarrow> P d keys"
  shows "P d keys"
proof (induction "length keys" arbitrary: d keys rule: less_induct)
  case less
  show ?case
  proof (rule assms)
    fix k ks names d1 d2 ks'
    assume "keys = k # ks" "dialog_key u od names d1 k ks = Inr (Continue d2, ks')"
    then show "P d2 ks'" using less dialog_key_rest by (metis le_imp_less_Suc length_Cons)
  qed
qed

text \<open>What the list holds after an iteration has begun, and that the selection is an index of it.\<close>

lemma refresh_selected:
  assumes "sorts (sort_names u)" "refresh_list u fs od d = (names, d1)"
  shows "0 \<le> selected d1" "selected d1 < int (length names)" "currentDir d1 = currentDir d"
    "set names = insert ''..'' {n. \<exists>es e. listing fs (currentDir d) = Some es \<and> (n, e) \<in> set es \<and> listed od (n, e)}"
proof -
  define l where "l = (case listing fs (currentDir d) of None \<Rightarrow> [''..''] | Some es \<Rightarrow> ''..'' # map fst (filter (listed od) es))"
  have f: "names = sort_names u l" "d1 = d\<lparr>errorMsg := errorMsg d1, selected := max 0 (min (selected d) (int (length l) - 1))\<rparr>"
    using assms(2) by (auto simp: refresh_list_def l_def split: option.splits)
  have m: "mset names = mset l" using assms(1) f(1) by (simp add: sorts_def)
  then have n: "length names = length l" "set names = set l" by (metis mset_eq_length, metis mset_eq_setD)
  have "l \<noteq> []" by (simp add: l_def split: option.splits)
  then have "0 < length l" by simp
  moreover have "selected d1 = max 0 (min (selected d) (int (length l) - 1))" "currentDir d1 = currentDir d"
    by (subst f(2), simp)+
  ultimately show "0 \<le> selected d1" "selected d1 < int (length names)" "currentDir d1 = currentDir d"
    using n(1) by auto
  show "set names = insert ''..'' {n. \<exists>es e. listing fs (currentDir d) = Some es \<and> (n, e) \<in> set es \<and> listed od (n, e)}"
    unfolding n(2) l_def by (force split: option.splits)
qed

lemma choice_in_range:
  assumes "sorts (sort_names u)" "refresh_list u fs od d = (names, d1)"
  obtains c where "choice_at names (selected d1) = Inr c" "c \<in> set names"
proof -
  note r = refresh_selected[OF assms]
  then have "nat (selected d1) < length names" by linarith
  then show ?thesis using that r(1,2) by (simp add: choice_at_def)
qed

text \<open>A preview that is accepted is of a readable torrent without a list of files.\<close>

lemma preview_accepted:
  assumes "showTorrentPreview lc d mr p keys = Inr (True, ks)"
  obtains c v t where "d p = Some c" "decode lc c = Inr v" "parseTorrentFile v = Inr t" "files (info t) = []"
proof -
  obtain c v t where cvt: "d p = Some c" "decode lc c = Inr v" "parseTorrentFile v = Inr t"
    using assms by (auto simp: showTorrentPreview_def File_read_def rbind_Inr_iff split: sum.splits option.splits if_splits list.splits)
  moreover have "files (info t) = []" using preview_unset[of d p c lc v t mr keys] cvt assms by fastforce
  ultimately show thesis using that by blast
qed

definition picked :: "ui \<Rightarrow> bool \<Rightarrow> string \<Rightarrow> bool" where
  "picked u only_dirs p \<longleftrightarrow>
     (\<exists>n dir es e. listing (file_system u (Listing n)) dir = Some es \<and> e \<in> set es \<and> listed only_dirs e \<and> p = path_join dir (fst e))"

lemma press_enter_result:
  assumes "sorts (sort_names u)" "refresh_list u (file_system u (Listing n)) od d = (names, d1)"
  shows "press_enter u fs od names d1 ks = Inr (Return p, ks') \<Longrightarrow> picked u od p \<and> (od \<or>
      path_extension p = ''.torrent'' \<and> showTorrentPreview (cast u) (contents u) (max_rows u) p ks = Inr (True, ks'))"
    and "press_enter u fs od names d1 ks = Inl e \<Longrightarrow> \<not> od \<and> (\<exists>p. showTorrentPreview (cast u) (contents u) (max_rows u) p ks = Inl e)"
proof -
  obtain c where c: "choice_at names (selected d1) = Inr c" "c \<in> set names" by (rule choice_in_range[OF assms])
  have "picked u od (path_join (currentDir d1) c)" if "c \<noteq> ''..''"
    using c(2) that refresh_selected(3,4)[OF assms] by (fastforce simp: picked_def)
  then show "press_enter u fs od names d1 ks = Inr (Return p, ks') \<Longrightarrow> picked u od p \<and> (od \<or>
      path_extension p = ''.torrent'' \<and> showTorrentPreview (cast u) (contents u) (max_rows u) p ks = Inr (True, ks'))"
    using c(1) by (auto simp: press_enter_def Let_def rbind_Inr_iff split: if_splits path_status.splits)
  show "press_enter u fs od names d1 ks = Inl e \<Longrightarrow> \<not> od \<and> (\<exists>p. showTorrentPreview (cast u) (contents u) (max_rows u) p ks = Inl e)"
    using c(1) by (auto simp: press_enter_def Let_def rbind_Inl_iff split: if_splits path_status.splits)
qed

lemma dialog_key_result:
  assumes "sorts (sort_names u)" "refresh_list u (file_system u (Listing n)) od d = (names, d1)"
  shows "dialog_key u od names d1 k ks = Inr (Return p, ks') \<Longrightarrow> p \<noteq> [] \<Longrightarrow> picked u od p \<and> (od \<or>
      path_extension p = ''.torrent'' \<and> showTorrentPreview (cast u) (contents u) (max_rows u) p ks = Inr (True, ks'))"
    and "dialog_key u od names d1 k ks = Inl e \<Longrightarrow> \<not> od \<and> (\<exists>p. showTorrentPreview (cast u) (contents u) (max_rows u) p ks = Inl e)"
proof -
  obtain c where c: "choice_at names (selected d1) = Inr c" by (rule choice_in_range[OF assms])
  show "dialog_key u od names d1 k ks = Inr (Return p, ks') \<Longrightarrow> p \<noteq> [] \<Longrightarrow> picked u od p \<and> (od \<or>
      path_extension p = ''.torrent'' \<and> showTorrentPreview (cast u) (contents u) (max_rows u) p ks = Inr (True, ks'))"
    using press_enter_result(1)[OF assms] by (auto simp: dialog_key_def Let_def rbind_Inr_iff split: if_splits)
  show "dialog_key u od names d1 k ks = Inl e \<Longrightarrow> \<not> od \<and> (\<exists>p. showTorrentPreview (cast u) (contents u) (max_rows u) p ks = Inl e)"
    using press_enter_result(2)[OF assms] c by (auto simp: dialog_key_def Let_def press_e_def rbind_Inl_iff split: if_splits)
qed

definition layout_stuck :: "ui \<Rightarrow> bool" where
  "layout_stuck u \<longleftrightarrow> (\<exists>p err. calculate_path_height (COLS u) p err = None \<or> refresh_path_window (COLS u) p err = None)"

lemma dialog_loop_result:
  assumes "sorts (sort_names u)"
  shows "(\<forall>p ks. dialog_loop u od d keys = Inr (p, ks) \<longrightarrow> p \<noteq> [] \<longrightarrow> picked u od p \<and> (od \<or>
      path_extension p = ''.torrent'' \<and> (\<exists>keys' ks'. showTorrentPreview (cast u) (contents u) (max_rows u) p keys' = Inr (True, ks'))))
    \<and> (\<forall>e. dialog_loop u od d keys = Inl e \<longrightarrow> e = Blocks \<or> e = Diverges \<and> layout_stuck u \<or> \<not> od \<and> (\<exists>p keys'. showTorrentPreview (cast u) (contents u) (max_rows u) p keys' = Inl e))"
proof (induction d keys rule: dialog_induct[of u od])
  case (loop d keys)
  obtain names d1 where r: "refresh_list u (file_system u (Listing (length keys))) od d = (names, d1)"
    by (cases "refresh_list u (file_system u (Listing (length keys))) od d")
  note res = dialog_key_result[OF assms r]
  note step = dialog_loop.simps[of u od d keys, unfolded r prod.case]
  show ?case
  proof (cases "calculate_path_height (COLS u) (currentDir d1) (errorMsg d1) = None \<or>
      refresh_path_window (COLS u) (currentDir d1) (errorMsg d1) = None")
    case True
    then have "layout_stuck u" unfolding layout_stuck_def by blast
    moreover have "dialog_loop u od d keys = Inl Diverges" using True by (simp only: step if_True)
    ultimately show ?thesis by simp
  next
    case False
    note step = step[unfolded if_not_P[OF False]]
    show ?thesis
    proof (cases keys)
      case Nil
      with step show ?thesis by simp
    next
      case (Cons k ks)
      note step = step[unfolded Cons list.case]
      show ?thesis
      proof (cases "dialog_key u od names d1 k ks")
        case (Inl e)
        from res(2)[OF Inl] obtain p where "\<not> od" "showTorrentPreview (cast u) (contents u) (max_rows u) p ks = Inl e" by blast
        with Inl step Cons show ?thesis by auto
      next
        case (Inr a)
        obtain o' ks' where a: "a = (o', ks')" by (cases a)
        show ?thesis
        proof (cases o')
          case (Continue d2)
          with Inr a loop[OF Cons r] show ?thesis by (simp add: Cons step)
        next
          case (Return p)
          have "picked u od p \<and> (od \<or> path_extension p = ''.torrent'' \<and>
              (\<exists>keys' ks'. showTorrentPreview (cast u) (contents u) (max_rows u) p keys' = Inr (True, ks')))" if "p \<noteq> []"
            using res(1)[of k ks p ks'] Inr a Return that by blast
          with Inr a Return show ?thesis by (auto simp: Cons step)
        qed
      qed
    qed
  qed
qed

lemma layout_returns:
  assumes "18 \<le> cols" "cols \<le> int int_max" "length p < 2 ^ 62"
  shows "calculate_path_height cols p [] \<noteq> None" "refresh_path_window cols p [] \<noteq> None"
  using path_fits[OF assms] by auto

text \<open>A directory with a torrent and a folder, on a terminal of 80 columns.\<close>

definition ex_fs :: fsys where
  "ex_fs = \<lparr>current_path = Some ''/h'', listing = (\<lambda>p. if p = ''/h'' then Some [(''d'', EDir), (''B.torrent'', ERegular), (''c.txt'', ERegular)]
       else if p = ''/h/d'' then Some [] else None),
     openable = (\<lambda>p. p = ''/h'' \<or> p = ''/h/d''), status = (\<lambda>p. if p = ''/h'' \<or> p = ''/h/d'' then IsDir else NotDir),
     what_of = (\<lambda>p. p)\<rparr>"

definition ex_ui :: ui where
  "ex_ui = \<lparr>file_system = (\<lambda>_. ex_fs), contents = [''/h/B.torrent'' \<mapsto> ''d8:announce1:te''], cast = lexcast_ref, COLS = 80,
     max_rows = 10, sort_names = sort_key to_low\<rparr>"

lemma ex_preview: "showTorrentPreview lexcast_ref (contents ex_ui) 10 ''/h/B.torrent'' [ENTER] = Inr (True, [])"
  by (simp add: showTorrentPreview_def File_read_def ex_ui_def decode_eval parseTorrentFile_def new_torrent_def
      visit_string_def ENTER_def is_q_def)

lemma ex_dialog: "fileDialog ex_ui ''.'' False [KEY_DOWN, ENTER, ENTER] = Inr (''/h/B.torrent'', [])"
proof -
  have b: "char_of (98 :: nat) = CHR ''b''" by (simp add: char_of_def bit_0)
  have l: "refresh_list ex_ui ex_fs False \<lparr>currentDir = ''/h'', selected = i, errorMsg = []\<rparr>
      = ([''..'', ''B.torrent'', ''d''], \<lparr>currentDir = ''/h'', selected = max 0 (min i 2), errorMsg = []\<rparr>)" for i
    by (simp add: refresh_list_def ex_ui_def ex_fs_def listed_def path_extension_def after_slash_def to_low_def tolower_def
        sort_key_def b)
  have cols: "COLS ex_ui = 80" "file_system ex_ui m = ex_fs" for m by (simp_all add: ex_ui_def)
  have lay: "calculate_path_height 80 ''/h'' [] \<noteq> None" "refresh_path_window 80 ''/h'' [] \<noteq> None"
    using layout_returns[of 80 "''/h''"] by (simp_all add: int_max_def)
  have k1: "dialog_key ex_ui False [''..'', ''B.torrent'', ''d''] \<lparr>currentDir = ''/h'', selected = 0, errorMsg = []\<rparr> KEY_DOWN ks
      = Inr (Continue \<lparr>currentDir = ''/h'', selected = 1, errorMsg = []\<rparr>, ks)" for ks
    by (simp add: dialog_key_def)
  have k2: "dialog_key ex_ui False [''..'', ''B.torrent'', ''d''] \<lparr>currentDir = ''/h'', selected = 1, errorMsg = []\<rparr> ENTER [ENTER]
      = Inr (Return ''/h/B.torrent'', [])"
    using ex_preview by (simp add: dialog_key_def is_e_def ENTER_def press_enter_def choice_at_def path_join_def
        ex_ui_def ex_fs_def path_extension_def after_slash_def)
  have cwd: "current_path ex_fs = Some ''/h''" by (simp add: ex_fs_def)
  have "dialog_loop ex_ui False \<lparr>currentDir = ''/h'', selected = 1, errorMsg = []\<rparr> [ENTER, ENTER] = Inr (''/h/B.torrent'', [])"
    using lay by (subst dialog_loop.simps) (simp add: l k2 cols)
  then have "dialog_loop ex_ui False \<lparr>currentDir = ''/h'', selected = 0, errorMsg = []\<rparr> [KEY_DOWN, ENTER, ENTER]
      = Inr (''/h/B.torrent'', [])"
    using lay by (subst dialog_loop.simps) (simp add: l k1 cols)
  then show ?thesis using lay by (simp add: fileDialog_def cwd cols)
qed

lemma fileDialog_result:
  assumes "sorts (sort_names u)" "fileDialog u startDir only_dirs keys = Inr (p, ks)" "p \<noteq> []"
  shows "picked u only_dirs p"
    and "\<not> only_dirs \<Longrightarrow> path_extension p = ''.torrent''"
    and "\<not> only_dirs \<Longrightarrow> \<exists>keys' ks'. showTorrentPreview (cast u) (contents u) (max_rows u) p keys' = Inr (True, ks')"
proof -
  obtain d where "dialog_loop u only_dirs d keys = Inr (p, ks)"
    using assms(2) by (auto simp: fileDialog_def rbind_Inr_iff split: if_splits)
  with dialog_loop_result[OF assms(1), of only_dirs d keys] assms(3)
  show "picked u only_dirs p" "\<not> only_dirs \<Longrightarrow> path_extension p = ''.torrent''"
    "\<not> only_dirs \<Longrightarrow> \<exists>keys' ks'. showTorrentPreview (cast u) (contents u) (max_rows u) p keys' = Inr (True, ks')" by blast+
qed

text \<open>
  C20. What a dialog returns: nothing, when the user quits; for directories, the path of a directory
  that a listing showed; for torrents, the path of a listed file with the extension of torrents whose contents
  are those of a torrent \<^emph>\<open>without a list of files\<close>. No torrent with a list of files can be chosen,
  because its preview copies uninitialised lengths.
\<close>

theorem dialog_choice:
  assumes "sorts (sort_names u)" "fileDialog u startDir only_dirs keys = Inr (p, ks)" "p \<noteq> []"
  shows "picked u only_dirs p \<and> (only_dirs \<or> path_extension p = ''.torrent'' \<and> (\<exists>c v t. contents u p = Some c \<and>
      decode (cast u) c = Inr v \<and> parseTorrentFile v = Inr t \<and> files (info t) = []))"
proof (cases only_dirs)
  case False
  obtain keys' ks' where "showTorrentPreview (cast u) (contents u) (max_rows u) p keys' = Inr (True, ks')"
    using fileDialog_result(3)[OF assms False] by blast
  from preview_accepted[OF this] show ?thesis using fileDialog_result(1,2)[OF assms] by metis
qed (use fileDialog_result(1)[OF assms] in simp)

text \<open>
  C40. The selection never leaves the list of files, although the directory is read again before every key and its entries
  come and go: the dialog for directories never has undefined behaviour and lets no exception out but that of the working directory,
  and the dialog for torrents only what the preview has. The other ways not to return are that no key
  arrives, and a layout loop that never ends, as on terminals of four columns (lemma \<open>path_height_returns\<close>).
\<close>

theorem dialog_in_range:
  assumes "sorts (sort_names u)" "fileDialog u startDir only_dirs keys = Inl e"
  shows "e = Blocks \<or>
    (e = Diverges \<and> (\<exists>p err. calculate_path_height (COLS u) p err = None \<or> refresh_path_window (COLS u) p err = None)) \<or>
    (startDir = ''.'' \<and> current_path (file_system u (Listing (length keys))) = None \<and> e = RuntimeError ''filesystem error: '') \<or>
    (\<not> only_dirs \<and> (\<exists>p keys'. showTorrentPreview (cast u) (contents u) (max_rows u) p keys' = Inl e))"
proof (cases "\<exists>d. dialog_loop u only_dirs d keys = Inl e")
  case True
  then obtain d where "dialog_loop u only_dirs d keys = Inl e" by blast
  with dialog_loop_result[OF assms(1), of only_dirs d keys] show ?thesis unfolding layout_stuck_def by blast
next
  case False
  with assms(2) show ?thesis by (auto simp: fileDialog_def rbind_Inl_iff split: if_splits option.splits)
qed

lemma dialog_choice_witness:
  "picked ex_ui False ''/h/B.torrent'' \<and> (\<exists>v t. decode lexcast_ref ''d8:announce1:te'' = Inr v \<and> parseTorrentFile v = Inr t \<and> files (info t) = [])"
proof -
  have s: "sorts (sort_names ex_ui)" by (simp add: ex_ui_def sort_key_sorts)
  from dialog_choice[OF s ex_dialog] show ?thesis by (simp add: ex_ui_def)
qed

text \<open>
  A directory whose two folders are removed while the second one is selected: the selection goes back to the one entry left,
  which ENTER then opens.
\<close>

definition shrinking_ui :: ui where
  "shrinking_ui = ex_ui\<lparr>file_system := (\<lambda>m. ex_fs\<lparr>listing := (\<lambda>p. Some (if p = ''/h'' \<and> (\<exists>n > 1. m = Listing n)
     then [(''d'', EDir), (''e'', EDir)] else []))\<rparr>)\<rparr>"

lemma dialog_in_range_witness:
  "\<exists>e. fileDialog shrinking_ui ''/h'' True [KEY_DOWN, KEY_DOWN, ENTER] = Inl e \<and> e = Blocks"
proof -
  have s: "sorts (sort_names shrinking_ui)" by (simp add: shrinking_ui_def ex_ui_def sort_key_sorts)
  have lay: "calculate_path_height 80 ''/h'' [] \<noteq> None" "refresh_path_window 80 ''/h'' [] \<noteq> None"
    "calculate_path_height 80 ''/'' [] \<noteq> None" "refresh_path_window 80 ''/'' [] \<noteq> None"
    using layout_returns[of 80 "''/h''"] layout_returns[of 80 "''/''"] by (simp_all add: int_max_def)
  have cols: "COLS shrinking_ui = 80" by (simp add: shrinking_ui_def ex_ui_def)
  let ?at = "\<lambda>i. \<lparr>currentDir = ''/h'', selected = i, errorMsg = []\<rparr>"
  have l: "refresh_list shrinking_ui (file_system shrinking_ui (Listing n)) True (?at i) =
      (if 1 < n then ([''..'', ''d'', ''e''], ?at (max 0 (min i 2))) else ([''..''], ?at 0))" for n i
    by (simp add: refresh_list_def shrinking_ui_def ex_ui_def ex_fs_def listed_def to_low_def tolower_def)
  have down: "dialog_key shrinking_ui True [''..'', ''d'', ''e''] (?at i) KEY_DOWN ks = Inr (Continue (?at (i + 1)), ks)"
    if "i < 2" for i ks using that by (simp add: dialog_key_def)
  have enter: "dialog_key shrinking_ui True [''..''] (?at 0) ENTER [] = Inr (Continue d, [])"
    if "d = go_parent (file_system shrinking_ui (Handling 0)) (?at 0)" for d
    using that by (simp add: dialog_key_def is_e_def ENTER_def press_enter_def choice_at_def)
  have parent: "go_parent (file_system shrinking_ui (Handling 0)) (?at 0) = ?at 0"
    by (simp add: go_parent_def parent_path_def strip_slashes_def after_slash_def shrinking_ui_def ex_ui_def ex_fs_def)
  have d0: "dialog_loop shrinking_ui True (?at i) [] = Inl Blocks" for i
    using lay by (subst dialog_loop.simps) (simp add: l cols)
  have d1: "dialog_loop shrinking_ui True (?at 2) [ENTER] = Inl Blocks"
    using lay by (subst dialog_loop.simps) (simp add: l cols enter[OF refl] parent d0)
  have d2: "dialog_loop shrinking_ui True (?at 1) [KEY_DOWN, ENTER] = Inl Blocks"
    using lay by (subst dialog_loop.simps) (simp add: l cols down d1)
  have d3: "dialog_loop shrinking_ui True (?at 0) [KEY_DOWN, KEY_DOWN, ENTER] = Inl Blocks"
    using lay by (subst dialog_loop.simps) (simp add: l cols down d2)
  then have e: "fileDialog shrinking_ui ''/h'' True [KEY_DOWN, KEY_DOWN, ENTER] = Inl Blocks"
    using lay by (simp add: fileDialog_def cols)
  with dialog_in_range[OF s e] show ?thesis by blast
qed

end
