(* ===== verification/Menu.thy ===== *)
theory Menu
  imports Dialog Transition
begin

text \<open>
  The main program of the terminal interface (\<open>main\<close> in \<open>src/main.cpp\<close>): the menu as a state
  machine over the keys and the torrent it creates. libtorrent
  is a parameter.
\<close>

section \<open>The menu\<close>

definition left_items :: "string list" where
  "left_items = [''Add Torrent'', ''Select Download Dir'', ''Create example Torrent'', ''Exit'']"

record menu =
  left_selected :: int
  left_active :: bool
  right_selected :: int
  right_active :: bool
  right_items :: "string list"
  selectedTorrents :: "string list"
  downDir :: string
  torrent_session :: "(string \<times> string) list"
  the_disk :: disk

text \<open>
  The environment of the menu: what the dialogs see when the disk has given contents, the nodes of the file
  system for the creation of a torrent, the hash of Boost, writing files, and the two calls of libtorrent,
  each of which may throw.
\<close>

record env =
  ui_of :: "disk \<Rightarrow> ui"
  node_of :: "disk \<Rightarrow> string \<Rightarrow> fs_node"
  sha1_of :: digest
  writing :: write_env
  torrent_info_of :: "disk \<Rightarrow> string \<Rightarrow> unit res"
  add_to_session :: "(string \<times> string) list \<Rightarrow> string \<times> string \<Rightarrow> unit res"

text \<open>
  The next and the previous item: an \<open>int\<close> plus a \<open>size_t\<close> is computed modulo \<open>2^64\<close>,
  and \<open>0 - 1\<close> wraps around before the size is added.
\<close>

definition next_item :: "string list \<Rightarrow> int \<Rightarrow> int" where
  "next_item items i = uint (word_of_int (i + 1) mod (of_nat (length items) :: 64 word))"

definition prev_item :: "string list \<Rightarrow> int \<Rightarrow> int" where
  "prev_item items i = uint ((word_of_int (i - 1) + of_nat (length items)) mod (of_nat (length items) :: 64 word))"

datatype run = Goes menu | Ends menu

definition add_torrent :: "env \<Rightarrow> menu \<Rightarrow> key list \<Rightarrow> (run \<times> key list) res" where
  "add_torrent env s keys =
     rbind (fileDialog (ui_of env (the_disk s)) ''.'' False keys) (\<lambda>(p, keys).
       if p = [] then Inr (Goes s, keys)
       else rbind (torrent_info_of env (the_disk s) p) (\<lambda>_.
            rbind (add_to_session env (torrent_session s) (p, downDir s)) (\<lambda>_.
              Inr (Goes (s\<lparr>torrent_session := torrent_session s @ [(p, downDir s)]\<rparr>), keys))))"

definition select_dir :: "env \<Rightarrow> menu \<Rightarrow> key list \<Rightarrow> (run \<times> key list) res" where
  "select_dir env s keys =
     rbind (fileDialog (ui_of env (the_disk s)) ''.'' True keys) (\<lambda>(p, keys). Inr (Goes (s\<lparr>downDir := p\<rparr>), keys))"

text \<open>The example torrent: made from what the first dialog chose, written where the second one says.\<close>

definition make_example :: "env \<Rightarrow> disk \<Rightarrow> string \<Rightarrow> torrent_file res" where
  "make_example env d folder =
     createTorrentFile (sha1_of env) d (node_of env d) ''exemple'' [[''exemple'']] ''Tester'' folder None None"

definition example_path :: "env \<Rightarrow> disk \<Rightarrow> nat \<Rightarrow> string \<Rightarrow> string res" where
  "example_path env d n outPath =
     (case status (file_system (ui_of env d) (Handling n)) outPath of
        IsDir \<Rightarrow> Inr (path_join outPath ''example.torrent'')
      | StatusFails \<Rightarrow> Inl (RuntimeError ''filesystem error: '')
      | _ \<Rightarrow> Inr outPath)"

definition write_example :: "env \<Rightarrow> torrent_file \<Rightarrow> string \<Rightarrow> disk \<Rightarrow> disk res" where
  "write_example env t outPath d =
     rbind (toValue t) (\<lambda>v. rbind (encode v) (\<lambda>data.
       case createFile (writing env) outPath data d of
         (d', Inl e) \<Rightarrow> Inl e
       | (d', Inr _) \<Rightarrow> Inr d'))"

definition create_example :: "env \<Rightarrow> menu \<Rightarrow> key list \<Rightarrow> (run \<times> key list) res" where
  "create_example env s keys =
     rbind (fileDialog (ui_of env (the_disk s)) ''.'' True keys) (\<lambda>(folder, keys).
       if folder = [] then Inr (Goes s, keys)
       else rbind (make_example env (the_disk s) folder) (\<lambda>torrent.
            rbind (fileDialog (ui_of env (the_disk s)) ''.'' True keys) (\<lambda>(outPath, keys).
              if outPath = [] then Inr (Goes s, keys)
              else rbind (example_path env (the_disk s) (length keys) outPath) (\<lambda>outPath.
                   rbind (write_example env torrent outPath (the_disk s)) (\<lambda>d.
                     Inr (Goes (s\<lparr>the_disk := d\<rparr>), keys))))))"

definition left_key :: "env \<Rightarrow> menu \<Rightarrow> key \<Rightarrow> key list \<Rightarrow> (run \<times> key list) res" where
  "left_key env s ch keys =
     (if ch = KEY_DOWN then Inr (Goes (s\<lparr>left_selected := next_item left_items (left_selected s)\<rparr>), keys)
      else if ch = KEY_UP then Inr (Goes (s\<lparr>left_selected := prev_item left_items (left_selected s)\<rparr>), keys)
      else if ch = KEY_RIGHT then
        Inr (Goes (if selectedTorrents s \<noteq> [] then s\<lparr>left_active := False, right_active := True, right_selected := 0\<rparr> else s), keys)
      else if ch = ENTER then
        (if left_selected s = 0 then add_torrent env s keys
         else if left_selected s = 1 then select_dir env s keys
         else if left_selected s = 2 then create_example env s keys
         else if left_selected s = 3 then Inr (Ends s, keys)
         else Inr (Goes s, keys))
      else Inr (Goes s, keys))"

definition right_key :: "menu \<Rightarrow> key \<Rightarrow> key list \<Rightarrow> (run \<times> key list) res" where
  "right_key s ch keys =
     (if ch = KEY_LEFT then Inr (Goes (s\<lparr>left_active := True, right_active := False\<rparr>), keys)
      else if right_items s = [] then Inr (Goes s, keys)
      else if ch = KEY_DOWN then Inr (Goes (s\<lparr>right_selected := next_item (right_items s) (right_selected s)\<rparr>), keys)
      else if ch = KEY_UP then Inr (Goes (s\<lparr>right_selected := prev_item (right_items s) (right_selected s)\<rparr>), keys)
      else if ch = ENTER then
        rbind (choice_at (selectedTorrents s) (right_selected s)) (\<lambda>_. Inr (Goes s, keys))
      else Inr (Goes s, keys))"

definition menu_key :: "env \<Rightarrow> menu \<Rightarrow> key \<Rightarrow> key list \<Rightarrow> (run \<times> key list) res" where
  "menu_key env s ch keys =
     (if ch = KEY_F1 then Inr (Ends s, keys)
      else if left_active s then left_key env s ch keys
      else if right_active s then right_key s ch keys
      else Inr (Goes s, keys))"

lemma dialog_loop_rest: "dialog_loop u od d keys = Inr (p, ks) \<Longrightarrow> length ks \<le> length keys"
proof (induction d keys rule: dialog_induct[of u od])
  case (loop d keys)
  obtain names d1 where r: "refresh_list u (file_system u (Listing (length keys))) od d = (names, d1)"
    by (cases "refresh_list u (file_system u (Listing (length keys))) od d")
  note step = dialog_loop.simps[of u od d keys, unfolded r prod.case]
  from loop(2) obtain k ks0 a ks' where k: "keys = k # ks0" "dialog_key u od names d1 k ks0 = Inr (a, ks')"
    "(case a of Continue d2 \<Rightarrow> dialog_loop u od d2 ks' | Return p' \<Rightarrow> Inr (p', ks')) = Inr (p, ks)"
    unfolding step by (auto split: if_splits list.splits sum.splits)
  note le = dialog_key_rest[OF k(2)]
  show ?case
  proof (cases a)
    case (Continue d2)
    with k have "length ks \<le> length ks'" using loop(1)[OF k(1) r, of d2 ks'] by simp
    with le k(1) show ?thesis by simp
  next
    case (Return p')
    with k le show ?thesis by simp
  qed
qed

lemma fileDialog_rest: "fileDialog u startDir od keys = Inr (p, ks) \<Longrightarrow> length ks \<le> length keys"
  by (auto simp: fileDialog_def rbind_Inr_iff split: if_splits dest: dialog_loop_rest)

lemma menu_key_rest: "menu_key env s ch keys = Inr (r, ks) \<Longrightarrow> length ks \<le> length keys"
  by (auto simp: menu_key_def left_key_def right_key_def add_torrent_def select_dir_def create_example_def rbind_Inr_iff
      split: if_splits dest!: fileDialog_rest)

text \<open>
  The loop over the keys, with whether it ended. An exception or undefined behaviour ends the program.
\<close>

function main_loop :: "env \<Rightarrow> menu \<Rightarrow> key list \<Rightarrow> (menu \<times> bool) res" where
  "main_loop env s [] = Inr (s, False)"
| "main_loop env s (ch # keys) =
     (case menu_key env s ch keys of
        Inl e \<Rightarrow> Inl e
      | Inr (Goes s', keys') \<Rightarrow> main_loop env s' keys'
      | Inr (Ends s', keys') \<Rightarrow> Inr (s', True))"
  by pat_completeness auto
termination
  by (relation "measure (\<lambda>(env, s, keys). length keys)") (auto dest: menu_key_rest[THEN le_imp_less_Suc])

definition main_start :: "disk \<Rightarrow> menu" where
  "main_start d = \<lparr>left_selected = 0, left_active = True, right_selected = 0, right_active = False, right_items = [],
     selectedTorrents = [], downDir = ''.'', torrent_session = [], the_disk = d\<rparr>"

definition main_program :: "env \<Rightarrow> disk \<Rightarrow> key list \<Rightarrow> (menu \<times> bool) res" where
  "main_program env d keys = main_loop env (main_start d) keys"

text \<open>An empty folder chosen for the example ends the program with an exception that nothing catches.\<close>

lemma empty_folder_ends:
  assumes "fileDialog (ui_of env (the_disk s)) ''.'' True keys = Inr (folder, ks)" "folder \<noteq> []" "node_of env (the_disk s) folder = Folder []"
  shows "create_example env s keys = Inl (RuntimeError ''The folder is empty: '')"
  using assms by (simp add: create_example_def make_example_def createTorrentFile_def create_info_def)

text \<open>Quitting the dialog for the download directory forgets the directory chosen before.\<close>

lemma quit_forgets_dir:
  assumes "fileDialog (ui_of env (the_disk s)) ''.'' True keys = Inr ([], ks)"
  shows "select_dir env s keys = Inr (Goes (s\<lparr>downDir := []\<rparr>), ks)"
  using assms by (simp add: select_dir_def)

section \<open>The states of the menu\<close>

text \<open>
  A configuration is the menu with the keys still to come. A key takes one to the next, unless it ends the program.
\<close>

definition key_step :: "env \<Rightarrow> menu \<times> key list \<Rightarrow> menu \<times> key list \<Rightarrow> bool" where
  "key_step env = (\<lambda>(s, keys) (s', keys').
     \<exists>ch ks. keys = ch # ks \<and> menu_key env s ch ks = Inr (Goes s', keys'))"

text \<open>\<open>entered env d keys i s ks\<close>: in the run of the program, ENTER is pressed on the item \<open>i\<close> of the menu.\<close>

definition entered :: "env \<Rightarrow> disk \<Rightarrow> key list \<Rightarrow> int \<Rightarrow> menu \<Rightarrow> key list \<Rightarrow> bool" where
  "entered env d keys i s ks \<longleftrightarrow>
     (key_step env)\<^sup>*\<^sup>* (main_start d, keys) (s, ENTER # ks) \<and> left_active s \<and> left_selected s = i"

definition menu_inv :: "menu \<Rightarrow> bool" where
  "menu_inv s \<longleftrightarrow> 0 \<le> left_selected s \<and> left_selected s < 4 \<and> left_active s \<and> \<not> right_active s \<and>
     right_items s = [] \<and> selectedTorrents s = []"

lemma next_item_range: "items \<noteq> [] \<Longrightarrow> length items < 2 ^ 63 \<Longrightarrow> 0 \<le> next_item items i \<and> next_item items i < int (length items)"
  by (simp add: next_item_def uint_mod uint_nat[of "of_nat _"] unat_of_nat take_bit_nat_eq_self flip: of_nat_less_iff)

lemma prev_item_range: "items \<noteq> [] \<Longrightarrow> length items < 2 ^ 63 \<Longrightarrow> 0 \<le> prev_item items i \<and> prev_item items i < int (length items)"
  by (simp add: prev_item_def uint_mod uint_nat[of "of_nat _"] unat_of_nat take_bit_nat_eq_self flip: of_nat_less_iff)

lemma left_item_range [simp]:
  "0 \<le> next_item left_items i" "next_item left_items i < 4" "0 \<le> prev_item left_items i" "prev_item left_items i < 4"
  using next_item_range[of left_items i] prev_item_range[of left_items i] by (simp_all add: left_items_def)

text \<open>What a key can do to the menu, apart from the selection.\<close>

lemma menu_key_Goes:
  assumes "menu_key env s ch keys = Inr (Goes s', keys')" "menu_inv s"
  shows "menu_inv s'"
    and "torrent_session s' = torrent_session s \<or>
     (\<exists>p ks. ch = ENTER \<and> left_selected s = 0 \<and> p \<noteq> [] \<and> fileDialog (ui_of env (the_disk s)) ''.'' False keys = Inr (p, ks) \<and>
        torrent_session s' = torrent_session s @ [(p, downDir s)])"
    and "the_disk s' = the_disk s \<or> (\<exists>t p. write_example env t p (the_disk s) = Inr (the_disk s'))"
    and "downDir s' = downDir s \<or> ch = ENTER \<and> left_selected s = 1 \<and>
     (\<exists>ks. fileDialog (ui_of env (the_disk s)) ''.'' True keys = Inr (downDir s', ks))"
  using assms unfolding menu_key_def left_key_def menu_inv_def
  by (auto simp: add_torrent_def select_dir_def create_example_def rbind_Inr_iff split: if_splits)

lemma menu_key_Ends:
  "menu_key env s ch keys = Inr (Ends s', keys') \<Longrightarrow> s' = s"
  by (auto simp: menu_key_def left_key_def right_key_def add_torrent_def select_dir_def create_example_def rbind_Inr_iff
      split: if_splits)

interpretation menu: invariant_system "\<lambda>c. \<exists>d keys. c = (main_start d, keys)" "key_step env" "\<lambda>c. menu_inv (fst c)"
proof
  show "menu_inv (fst c)" if "\<exists>d keys. c = (main_start d, keys)" for c using that by (auto simp: menu_inv_def main_start_def)
  show "menu_inv (fst c')" if "menu_inv (fst c)" "key_step env c c'" for c c'
    using that menu_key_Goes(1) by (auto simp: key_step_def)
qed

lemma main_loop_steps: "main_loop env s keys = Inr (s', b) \<Longrightarrow> \<exists>ks. (key_step env)\<^sup>*\<^sup>* (s, keys) (s', ks)"
proof (induction env s keys rule: main_loop.induct)
  case (2 env s ch keys)
  show ?case
  proof (cases "menu_key env s ch keys")
    case (Inr a)
    obtain r ks where a: "a = (r, ks)" by (cases a)
    show ?thesis
    proof (cases r)
      case (Goes s1)
      then have "key_step env (s, ch # keys) (s1, ks)" using Inr a by (simp add: key_step_def)
      moreover obtain ks' where "(key_step env)\<^sup>*\<^sup>* (s1, ks) (s', ks')"
        using "2.IH"[OF Inr a[symmetric] Goes] "2.prems" Inr a Goes by (simp, blast)
      ultimately show ?thesis by (meson converse_rtranclp_into_rtranclp)
    next
      case (Ends s1)
      then have "s' = s" using "2.prems" Inr a menu_key_Ends by auto
      then show ?thesis by blast
    qed
  qed (use "2.prems" in simp)
qed auto

text \<open>Where the download directory and the torrents of the session come from.\<close>

definition chosen_dir :: "env \<Rightarrow> disk \<Rightarrow> key list \<Rightarrow> string \<Rightarrow> bool" where
  "chosen_dir env d keys dir \<longleftrightarrow> dir = ''.'' \<or>
     (\<exists>s ks ks'. entered env d keys 1 s ks \<and> fileDialog (ui_of env (the_disk s)) ''.'' True ks = Inr (dir, ks'))"

definition chosen_torrent :: "env \<Rightarrow> disk \<Rightarrow> key list \<Rightarrow> string \<Rightarrow> string \<Rightarrow> bool" where
  "chosen_torrent env d keys p dir \<longleftrightarrow> p \<noteq> [] \<and>
     (\<exists>s ks ks'. entered env d keys 0 s ks \<and> downDir s = dir \<and> fileDialog (ui_of env (the_disk s)) ''.'' False ks = Inr (p, ks'))"

lemma session_chosen:
  assumes "(key_step env)\<^sup>*\<^sup>* (main_start d, keys) c"
  shows "chosen_dir env d keys (downDir (fst c)) \<and>
    (\<forall>(p, dir) \<in> set (torrent_session (fst c)). chosen_torrent env d keys p dir \<and> chosen_dir env d keys dir)"
  using assms
proof (induction rule: rtranclp_induct)
  case (step c c')
  obtain s ch ks s' ks' where c: "c = (s, ch # ks)" "c' = (s', ks')" "menu_key env s ch ks = Inr (Goes s', ks')"
    using step.hyps(2) by (cases c; cases c') (auto simp: key_step_def)
  have "menu_inv (fst (main_start d, keys))" by (rule menu.inv_init) blast
  with step.hyps(1) have "menu_inv (fst c)" by (rule menu.inv_steps)
  then have i: "menu_inv s" using c(1) by simp
  have e: "entered env d keys (left_selected s) s ks" if "ch = ENTER"
    using that step.hyps(1) i unfolding c(1) by (simp add: entered_def menu_inv_def)
  note k = menu_key_Goes[OF c(3) i]
  have "chosen_dir env d keys (downDir s')"
    using k(4)
  proof
    assume "downDir s' = downDir s"
    then show ?thesis using step.IH unfolding c(1,2) by simp
  next
    assume d: "ch = ENTER \<and> left_selected s = 1 \<and> (\<exists>ks1. fileDialog (ui_of env (the_disk s)) ''.'' True ks = Inr (downDir s', ks1))"
    then have "entered env d keys 1 s ks" using e by simp
    with d show ?thesis unfolding chosen_dir_def by blast
  qed
  moreover have "chosen_torrent env d keys p (downDir s)"
    if "ch = ENTER" "left_selected s = 0" "p \<noteq> []" "fileDialog (ui_of env (the_disk s)) ''.'' False ks = Inr (p, ks1)" for p ks1
  proof -
    have "entered env d keys 0 s ks" using that(1,2) e by simp
    with that(3,4) show ?thesis unfolding chosen_torrent_def by blast
  qed
  moreover have "chosen_dir env d keys (downDir s)" using step.IH unfolding c(1) by simp
  moreover have "\<forall>(p, dir) \<in> set (torrent_session s). chosen_torrent env d keys p dir \<and> chosen_dir env d keys dir"
    using step.IH unfolding c(1) by simp
  ultimately show ?case using k(2) unfolding c(2) by auto
qed (simp add: chosen_dir_def main_start_def)

text \<open>
  C19. The states of the menu: whatever keys are pressed, the selection stays one of the four items, the right
  window is never reached (nothing fills the set of selected torrents), and every torrent in the session is what
  the dialog returned when ENTER was pressed on the first item of the menu, a path with the extension of torrents, with the
  directory of that moment: the initial one, or what the dialog for directories returned when ENTER was pressed
  on the second item (which is no directory when the user quit it).
\<close>

theorem menu_states:
  assumes "\<And>d. sorts (sort_names (ui_of env d))" "main_program env d keys = Inr (s, ended)"
  shows "0 \<le> left_selected s \<and> left_selected s < 4 \<and> left_active s \<and> \<not> right_active s \<and>
     selectedTorrents s = [] \<and>
     (\<forall>(p, dir) \<in> set (torrent_session s). path_extension p = ''.torrent'' \<and>
        chosen_torrent env d keys p dir \<and> chosen_dir env d keys dir)"
proof -
  obtain ks where st: "(key_step env)\<^sup>*\<^sup>* (main_start d, keys) (s, ks)"
    using main_loop_steps[OF assms(2)[unfolded main_program_def]] by blast
  have "menu_inv (fst (main_start d, keys))" by (rule menu.inv_init) blast
  with st have "menu_inv (fst (s, ks))" by (rule menu.inv_steps)
  moreover have "path_extension p = ''.torrent''" if "chosen_torrent env d keys p dir" for p dir
    using that fileDialog_result(2)[OF assms(1)] unfolding chosen_torrent_def by fastforce
  ultimately show ?thesis using session_chosen[OF st] by (auto simp: menu_inv_def)
qed

text \<open>A folder with one file of two bytes, and a hash that is the same for every input.\<close>

definition ex_env :: env where
  "ex_env = \<lparr>ui_of = (\<lambda>d. ex_ui\<lparr>contents := d\<rparr>), node_of = (\<lambda>d p. if p = ''/h/d'' then Folder [(''/h/d/f'', [''f''], 2)] else Absent),
     sha1_of = (\<lambda>_. [0x41424344, 0x41424344, 0x41424344, 0x41424344, 0x41424344]),
     writing = \<lparr>may_open = (\<lambda>_. True), write_ok = (\<lambda>_ _. True), stored = (\<lambda>_ c. c)\<rparr>,
     torrent_info_of = (\<lambda>_ _. Inr ()), add_to_session = (\<lambda>_ _. Inr ())\<rparr>"

definition ex_disk :: disk where
  "ex_disk = [''/h/d/f'' \<mapsto> ''hi'']"

lemma menu_states_witness:
  "\<exists>s. main_program ex_env (contents ex_ui) [KEY_DOWN, KEY_UP, ENTER, KEY_DOWN, ENTER, ENTER] = Inr (s, False) \<and> left_selected s = 0 \<and>
     torrent_session s = [(''/h/B.torrent'', ''.'')] \<and>
     chosen_torrent ex_env (contents ex_ui) [KEY_DOWN, KEY_UP, ENTER, KEY_DOWN, ENTER, ENTER] ''/h/B.torrent'' ''.''"
proof -
  have s: "sorts (sort_names (ui_of ex_env d))" for d by (simp add: ex_env_def ex_ui_def sort_key_sorts)
  have u: "ui_of ex_env (contents ex_ui) = ex_ui" by (simp add: ex_env_def)
  have c: "torrent_info_of ex_env (contents ex_ui) p = Inr ()" "add_to_session ex_env l q = Inr ()" for p l q
    by (simp_all add: ex_env_def)
  have "\<exists>s. main_program ex_env (contents ex_ui) [KEY_DOWN, KEY_UP, ENTER, KEY_DOWN, ENTER, ENTER] = Inr (s, False) \<and> left_selected s = 0 \<and>
      torrent_session s = [(''/h/B.torrent'', ''.'')]"
    using ex_dialog by (simp add: main_program_def menu_key_def left_key_def main_start_def next_item_def prev_item_def left_items_def
        ENTER_def add_torrent_def u c)
  with menu_states[OF s] show ?thesis by fastforce
qed

end
