(* ===== verification/Created.thy ===== *)
theory Created
  imports Menu
begin

text \<open>
  The torrent the menu creates, read again: the composition of the creation of a torrent, the writer of values,
  the encoder, the file written, the decoder, the reader of metadata and the preview.
\<close>

section \<open>What is written can be decoded\<close>

text \<open>Values whose numbers survive; that strings are not empty follows when they can be printed.\<close>

fun small :: "bvalue \<Rightarrow> bool" where
  "small (VInt i) = (0 \<le> sint i)"
| "small (VULL n) = (unat n \<le> int_max)"
| "small (VStr s) = True"
| "small (VList vs) = list_all small vs"
| "small (VDict d) = (wf_map d \<and> list_all (\<lambda>(k, v). small v) d)"

lemma encode_str_length: "encode_str s = Inr t \<Longrightarrow> length t \<le> int_max \<Longrightarrow> str_ok s"
  by (auto simp: encode_str_def str_ok_def split: if_splits)

lemma encodable_if_small:
  "encode v = Inr t \<Longrightarrow> small v \<Longrightarrow> length t \<le> int_max \<Longrightarrow> encodable v"
  "encode_dict d = Inr t \<Longrightarrow> list_all (\<lambda>(k, v). small v) d \<Longrightarrow> length t \<le> int_max \<Longrightarrow> list_all (\<lambda>(k, v). str_ok k \<and> encodable v) d"
  "encode_list vs = Inr t \<Longrightarrow> list_all small vs \<Longrightarrow> length t \<le> int_max \<Longrightarrow> list_all encodable vs"
proof (induction v and d and vs arbitrary: t and t and t rule: encode_encode_dict_encode_list.induct)
qed (auto simp: rbind_Inr_iff dest: encode_str_length)

lemma to_int_small: "to_int (Some k) = Inr i \<Longrightarrow> unat k \<le> int_max \<Longrightarrow> 0 \<le> sint i"
  by (auto simp: to_int_def sint_ucast_small)

definition small_files :: "file_info list \<Rightarrow> bool" where
  "small_files fs \<longleftrightarrow> (\<forall>f \<in> set fs. case length_of f of None \<Rightarrow> False | Some n \<Rightarrow> unat n \<le> int_max)"

lemma file_values_small: "file_values fs = Inr vs \<Longrightarrow> small_files fs \<Longrightarrow> list_all small vs"
proof (induction fs arbitrary: vs)
  case (Cons f fs)
  then show ?case
    by (auto simp: rbind_Inr_iff file_value_eq small_files_def wf_map_def list_all_iff split: option.splits) (blast intro: to_int_small)
qed simp

lemma toValue_small:
  assumes "toValue t = Inr v" "small_files (files (info t))" "pieceLength (info t) = Some n" "unat n \<le> int_max" "creationDate t = None"
  shows "small v"
proof -
  obtain fs where fs: "file_values (files (info t)) = Inr fs"
    using file_values_ok[of "files (info t)"] assms(2) by (force simp: small_files_def split: option.splits)
  have pl: "to_int (pieceLength (info t)) = Inr (ucast n)" by (simp add: to_int_def assms(3))
  show ?thesis
    using assms(1) to_int_small[OF pl[unfolded assms(3)] assms(4)] assms(3) file_values_small[OF fs assms(2)]
    unfolding toValue_eq[OF pl fs]
    by (auto simp: opt_entry_def tiers_value_def wf_map_def list_all_iff assms(5) split: option.splits if_splits)
qed

section \<open>Reading it back\<close>

lemma path_strings_normv [simp]: "path_strings (map (normv \<circ> VStr) ss) = ss"
  by (induction ss) simp_all

lemma get_strings_normv [simp]: "get_strings (map (normv \<circ> VStr) ss) = Inr ss"
  by (induction ss) simp_all

lemma visit_files_normv:
  "file_values fs = Inr vs \<Longrightarrow> visit_files (map normv vs) = map (\<lambda>f. f\<lparr>length_of := None\<rparr>) fs"
proof (induction fs arbitrary: vs)
  case (Cons f fs)
  then show ?case by (auto simp: rbind_Inr_iff file_value_eq visit_file_def)
qed simp

lemma visit_tiers_normv:
  "visit_tiers (map (normv \<circ> (\<lambda>tier. VList (map VStr tier))) ts) acc = Inr (acc @ ts)"
  by (induction ts arbitrary: acc) simp_all

lemma parse_normv:
  assumes "toValue t = Inr v" "file_values (files (info t)) = Inr fs" "pieceLength (info t) = Some n" "creationDate t = None"
  shows "\<exists>t'. parseTorrentFile (normv v) = Inr t' \<and> pieces (info t') = pieces (info t) \<and>
    files (info t') = map (\<lambda>f. f\<lparr>length_of := None\<rparr>) (files (info t))"
proof -
  have pl: "to_int (pieceLength (info t)) = Inr (ucast n)" by (simp add: to_int_def assms(3))
  have e: "fs = [] \<longleftrightarrow> files (info t) = []" using assms(2) by (cases "files (info t)") (auto simp: rbind_Inr_iff)
  note fv = visit_files_normv[OF assms(2)]
  show ?thesis
    using assms(1) fv e unfolding toValue_eq[OF pl assms(2)]
    by (cases "createdBy t"; cases "fs = []")
      (auto simp: opt_entry_def tiers_value_def parseTorrentFile_def new_torrent_def visit_list_def
        visit_tiers_normv visit_int_def visit_string_def assms(4))
qed

lemma create_info_files: "create_info node p = Inr (fs, ps, n) \<Longrightarrow> fs \<noteq> []"
  by (auto simp: create_info_def folder_files_def split: fs_node.splits if_splits)

lemma make_example_fields:
  assumes "make_example env d folder = Inr t"
  shows "files (info t) \<noteq> []" "\<exists>n. pieceLength (info t) = Some n \<and> unat n \<le> int_max" "creationDate t = None" "createdBy t = None"
proof -
  have "unat (choosePieceLength n) \<le> int_max" for n using choosePieceLength_disj[of n] by (auto simp: int_max_def)
  then show "files (info t) \<noteq> []" "\<exists>n. pieceLength (info t) = Some n \<and> unat n \<le> int_max" "creationDate t = None" "createdBy t = None"
    using assms by (auto simp: make_example_def createTorrentFile_def rbind_Inr_iff Let_def dest: create_info_files)
qed

text \<open>
  C9. The torrent that the menu creates and writes, when no file is longer than \<open>INT_MAX\<close> bytes, the torrent is not longer
  either and the system stores what is written, is read back without the lengths of its files: it decodes to
  the same files and piece hashes, but selecting it under the first item of the menu copies uninitialised
  lengths before the preview is shown, so that the program cannot open the torrents it makes.
\<close>

theorem created_torrent_unusable:
  assumes "lexcast_ok lc" "make_example env d folder = Inr t" "small_files (files (info t))"
    and "write_example env t out d = Inr d'" "\<And>c. stored (writing env) out c = c"
    and "\<And>c. d' out = Some c \<Longrightarrow> length c \<le> int_max"
  shows "\<exists>c v t'. d' out = Some c \<and> decode lc c = Inr v \<and> parseTorrentFile v = Inr t' \<and>
    map path (files (info t')) = map path (files (info t)) \<and> pieces (info t') = pieces (info t) \<and>
    (\<forall>f \<in> set (files (info t')). length_of f = None) \<and>
    (\<forall>rows keys. \<exists>u. showTorrentPreview lc d' rows out keys = Inl (Undefined u))"
proof -
  note m = make_example_fields[OF assms(2)]
  obtain n where n: "pieceLength (info t) = Some n" "unat n \<le> int_max" using m(2) by blast
  obtain v c where vc: "toValue t = Inr v" "encode v = Inr c" "d' out = Some c"
    using assms(4,5) by (auto simp: write_example_def rbind_Inr_iff createFile_def split: if_splits)
  obtain vs where vs: "file_values (files (info t)) = Inr vs"
    using file_values_ok[of "files (info t)"] assms(3) by (force simp: small_files_def split: option.splits)
  have len: "length c \<le> int_max" using assms(6) vc(3) by blast
  have "encodable v"
    by (rule encodable_if_small(1)[OF vc(2) toValue_small[OF vc(1) assms(3) n m(3)] len])
  then have dec: "decode lc c = Inr (normv v)"
    using lexical_cast.decode_prefix_encode[OF lexical_cast.intro[OF assms(1)], of v c "[]"] vc(2) by (simp add: decode_def)
  obtain t' where t': "parseTorrentFile (normv v) = Inr t'" "pieces (info t') = pieces (info t)"
    "files (info t') = map (\<lambda>f. f\<lparr>length_of := None\<rparr>) (files (info t))"
    using parse_normv[OF vc(1) vs n(1) m(3)] by blast
  have "files (info t') \<noteq> []" using t'(3) m(1) by simp
  with preview_unset[of d' out c lc "normv v" t'] vc(3) dec t' show ?thesis by (auto simp: comp_def)
qed

definition ex_pieces :: bytes where
  "ex_pieces = digest_memory [0x41424344, 0x41424344, 0x41424344, 0x41424344, 0x41424344]"

definition ex_made :: torrent_file where
  "ex_made = \<lparr>announce = ''exemple'', announceList = [[''exemple'']], createdBy = None, creationDate = None,
     info = \<lparr>files = [\<lparr>length_of = Some 2, path = [''f'']\<rparr>], info_name = ''Tester'', pieceLength = Some 16384, pieces = ex_pieces\<rparr>\<rparr>"

lemma ex_make: "make_example ex_env ex_disk ''/h/d'' = Inr ex_made"
proof -
  have "choosePieceLength 2 = 16384" by (simp add: choosePieceLength_def)
  moreover have "createHash dg [''/h/d/f'' \<mapsto> ''hi''] [''/h/d/f''] 16384 = Inr (digest_memory (dg ''hi''))" for dg
  proof -
    have "length (replicate 16384 (char_of (0::nat))) = 16384" by (rule length_replicate)
    from hash_file_last[of 16384, OF _ this, of dg "''hi''" "[]"]
    obtain b where "hash_file dg 16384 True ''hi'' (replicate 16384 (char_of (0::nat))) 0 [] = Inr (b, 0, digest_memory (dg ''hi''))"
      by (auto simp: chunk_hash_def)
    then show ?thesis unfolding createHash_def by simp
  qed
  ultimately show ?thesis
    by (simp add: make_example_def createTorrentFile_def ex_env_def ex_disk_def create_info_def folder_files_def ex_made_def ex_pieces_def)
qed

lemma ex_pieces_length: "length ex_pieces = 20"
  by (simp add: ex_pieces_def digest_memory_def le32_def)

lemma ex_write: "\<exists>c. write_example ex_env ex_made ''/h/example.torrent'' ex_disk = Inr (ex_disk(''/h/example.torrent'' \<mapsto> c)) \<and> length c \<le> 1000"
proof -
  have v: "toValue ex_made = Inr (VDict [(''announce'', VStr ''exemple''), (''announce-list'', VList [VList [VStr ''exemple'']]),
     (''info'', VDict [(''files'', VList [VDict [(''length'', VInt 2), (''path'', VList [VStr ''f''])]]),
       (''name'', VStr ''Tester''), (''piece length'', VInt 16384), (''pieces'', VStr ex_pieces)])])"
    by (simp add: toValue_def ex_made_def file_value_def to_int_def)
  have "ex_pieces \<noteq> []" using ex_pieces_length by auto
  then have "\<exists>c. rbind (toValue ex_made) encode = Inr c \<and> length c \<le> 1000"
    by (simp add: v encode_str_def encode_int_def ex_pieces_length dec_int_def dec_nat.simps)
  then show ?thesis
    by (auto simp: write_example_def v createFile_def ex_env_def)
qed

lemma created_torrent_unusable_witness:
  "\<exists>c v t' d'. write_example ex_env ex_made ''/h/example.torrent'' ex_disk = Inr d' \<and> d' ''/h/example.torrent'' = Some c \<and>
    decode lexcast_ref c = Inr v \<and> parseTorrentFile v = Inr t' \<and> map path (files (info t')) = [[''f'']] \<and>
    (\<exists>u. showTorrentPreview lexcast_ref d' 10 ''/h/example.torrent'' [ENTER] = Inl (Undefined u))"
proof -
  obtain c where c: "write_example ex_env ex_made ''/h/example.torrent'' ex_disk = Inr (ex_disk(''/h/example.torrent'' \<mapsto> c))"
    "length c \<le> 1000" using ex_write by blast
  have "small_files (files (info ex_made))" by (simp add: small_files_def ex_made_def int_max_def)
  moreover have "stored (writing ex_env) p b = b" for p b by (simp add: ex_env_def)
  moreover have "length b \<le> int_max" if "(ex_disk(''/h/example.torrent'' \<mapsto> c)) ''/h/example.torrent'' = Some b" for b
    using that c(2) by (simp add: int_max_def)
  ultimately obtain b v t' where "(ex_disk(''/h/example.torrent'' \<mapsto> c)) ''/h/example.torrent'' = Some b"
    "decode lexcast_ref b = Inr v" "parseTorrentFile v = Inr t'" "map path (files (info t')) = map path (files (info ex_made))"
    "\<exists>u. showTorrentPreview lexcast_ref (ex_disk(''/h/example.torrent'' \<mapsto> c)) 10 ''/h/example.torrent'' [ENTER] = Inl (Undefined u)"
    using created_torrent_unusable[OF lexcast_ref_ok ex_make _ c(1)] by blast
  with c(1) show ?thesis by (auto simp: ex_made_def)
qed

end
