(* ===== verification/Threads.thy ===== *)
theory Threads
  imports Client Session Concurrent
begin

text \<open>
  The threads of a download (\<open>TorrentClient::downloadFile\<close> and \<open>terminate\<close>): the main thread in
  its loop over the tracker, and the connection threads over the shared queue and the piece manager, in every
  interleaving.
\<close>

section \<open>The system\<close>

text \<open>
  Where a connection thread is in \<open>PeerConnection::start\<close>: before the test of its loop, at \<open>pop_front\<close>, in a
  conversation, in the destructor of its copy of the connection, or ended; in a conversation and in the destructor it may be
  inside a handler of the piece manager, between two of its critical sections. The main thread is at the test of its loop,
  asking the tracker, clearing the queue, pushing peers, pushing the peers of \<open>terminate\<close>, joining the threads, or returned;
  or it left with an exception, or an exception that nobody catches ended the program.
  The members \<open>terminated\<close> that \<open>stop\<close> sets belong to copies of the connections, so that no thread ever sees them.
\<close>

datatype thread_phase = Testing | Popping | Talking job | Leaving job | Ended

fun job_of :: "thread_phase \<Rightarrow> job" where
  "job_of (Talking j) = j"
| "job_of (Leaving j) = j"
| "job_of ph = Idle"

datatype main_phase =
    Polling
  | Asking int
  | Refilling "peer list"
  | Pushing "peer list"
  | Terminating nat
  | Joining
  | Returned
  | Thrown cxx_error
  | Crashed cxx_error

fun alive :: "main_phase \<Rightarrow> bool" where
  "alive (Crashed e) = False"
| "alive ph = True"

record system =
  the_manager :: pmanager
  the_client :: client
  threads :: "thread_phase list"
  main_at :: main_phase

definition set_queue :: "peer list \<Rightarrow> system \<Rightarrow> system" where
  "set_queue q s = s\<lparr>the_client := (the_client s)\<lparr>client_queue := q\<rparr>\<rparr>"

definition set_thread :: "nat \<Rightarrow> thread_phase \<Rightarrow> system \<Rightarrow> system" where
  "set_thread i p s = s\<lparr>threads := (threads s)[i := p]\<rparr>"

definition set_main :: "main_phase \<Rightarrow> system \<Rightarrow> system" where
  "set_main ph s = s\<lparr>main_at := ph\<rparr>"

abbreviation queue_of :: "system \<Rightarrow> peer list" where
  "queue_of s \<equiv> client_queue (the_client s)"

definition thread_at :: "system \<Rightarrow> nat \<Rightarrow> thread_phase \<Rightarrow> bool" where
  "thread_at s i p \<longleftrightarrow> alive (main_at s) \<and> i < length (threads s) \<and> threads s ! i = p"

text \<open>The thread pool: one thread for every number below \<open>threadNum\<close>, none when that is not positive.\<close>

definition start_threads :: "int \<Rightarrow> pmanager \<Rightarrow> system" where
  "start_threads threadNum pm =
     \<lparr>the_manager = pm, the_client = \<lparr>client_queue = [], lastPeerQuery = -1\<rparr>,
      threads = replicate (nat threadNum) Testing, main_at = Polling\<rparr>"

text \<open>
  A peer is read through the dangling reference of \<open>pop_front\<close>: the rule takes the value the destroyed element had (\<open>last_value\<close>).
  A conversation reaches the manager by its handlers (lemma \<open>runs_start\<close>), one step for every critical section, and may
  end outside of them at any time. Every access of the main thread to the queue is one step, with whatever the tracker answers.
  Both the handler of a
  failed conversation and the destructor remove the peer from the manager; when the manager does not know it, the exception
  leaves the thread and ends the program. An exception of the tracker leaves the loop: the destructor of the thread pool
  then ends the program, unless there is no thread.
\<close>

inductive system_step :: "system \<Rightarrow> system \<Rightarrow> bool" where
  test: "thread_at s i Testing \<Longrightarrow>
    system_step s (set_thread i (if isComplete (the_manager s) then Leaving Idle else Popping) s)"
| pop: "thread_at s i Popping \<Longrightarrow> sq_pop_front (queue_of s) = Inr (r, q) \<Longrightarrow>
    system_step s (set_thread i (if host (last_value r) = dummy_peer_ip then Leaving Idle else Talking Idle) (set_queue q s))"
| talk: "thread_at s i (Talking j) \<Longrightarrow> job_step (the_manager s, j) (pm, j') \<Longrightarrow>
    system_step s (set_thread i (Talking j') (s\<lparr>the_manager := pm\<rparr>))"
| hang_up: "thread_at s i (Talking Idle) \<Longrightarrow> system_step s (set_thread i Testing s)"
| leave: "thread_at s i (Leaving Idle) \<Longrightarrow> system_step s (set_thread i Ended s)"
| leave_check: "thread_at s i (Leaving Idle) \<Longrightarrow> \<not> isComplete (the_manager s) \<Longrightarrow>
    system_step s (set_thread i (Leaving (Removing peer)) s)"
| leave_peer: "thread_at s i (Leaving (Removing peer)) \<Longrightarrow> rp_erase peer (the_manager s) = Inr pm \<Longrightarrow>
    system_step s (set_thread i Ended (s\<lparr>the_manager := pm\<rparr>))"
| crash: "thread_at s i (Talking (Removing peer)) \<or> thread_at s i (Leaving (Removing peer)) \<Longrightarrow>
    rp_erase peer (the_manager s) = Inl e \<Longrightarrow> system_step s (set_main (Crashed e) s)"
| query: "main_at s = Polling \<Longrightarrow> \<not> isComplete (the_manager s) \<Longrightarrow>
    lastPeerQuery (the_client s) = -1 \<or> 60 \<le> now - lastPeerQuery (the_client s) \<or> sq_empty (queue_of s) \<Longrightarrow>
    system_step s (set_main (Asking now) s)"
| answer: "main_at s = Asking now \<Longrightarrow> retrievePeers lc env r (bytesDownloaded (the_manager s)) = Inr ps \<Longrightarrow>
    system_step s (set_main (if ps = [] then Polling else Refilling ps) (s\<lparr>the_client := (the_client s)\<lparr>lastPeerQuery := now\<rparr>\<rparr>))"
| no_answer: "main_at s = Asking now \<Longrightarrow> retrievePeers lc env r (bytesDownloaded (the_manager s)) = Inl e \<Longrightarrow>
    system_step s (set_main (if threads s = [] \<and> is_exception e then Thrown e else Crashed e) s)"
| clear: "main_at s = Refilling ps \<Longrightarrow> system_step s (set_main (Pushing ps) (set_queue (sq_clear (queue_of s)) s))"
| push: "main_at s = Pushing (p # ps) \<Longrightarrow> system_step s (set_main (Pushing ps) (set_queue (sq_push_back p (queue_of s)) s))"
| pushed: "main_at s = Pushing [] \<Longrightarrow> system_step s (set_main Polling s)"
| complete: "main_at s = Polling \<Longrightarrow> isComplete (the_manager s) \<Longrightarrow>
    system_step s (set_main (Terminating (length (threads s))) s)"
| dummy: "main_at s = Terminating (Suc k) \<Longrightarrow>
    system_step s (set_main (Terminating k) (set_queue (sq_push_back dummy_peer (queue_of s)) s))"
| stopped: "main_at s = Terminating 0 \<Longrightarrow> system_step s (set_main Joining s)"
| join: "main_at s = Joining \<Longrightarrow> set (threads s) \<subseteq> {Ended} \<Longrightarrow> system_step s (set_main Returned s)"

inductive_cases system_stepE: "system_step s s'"

lemma set_simps [simp]:
  "the_manager (set_thread i p s) = the_manager s" "the_client (set_thread i p s) = the_client s"
  "main_at (set_thread i p s) = main_at s" "threads (set_thread i p s) = (threads s)[i := p]"
  "threads (set_queue q s) = threads s" "main_at (set_queue q s) = main_at s"
  "the_manager (set_queue q s) = the_manager s" "the_client (set_queue q s) = (the_client s)\<lparr>client_queue := q\<rparr>"
  "the_manager (set_main ph s) = the_manager s" "the_client (set_main ph s) = the_client s"
  "threads (set_main ph s) = threads s" "main_at (set_main ph s) = ph"
  by (simp_all add: set_thread_def set_queue_def set_main_def)

section \<open>The main thread by itself\<close>

text \<open>Without the other threads, a round of the loop and \<open>terminate\<close> have the effects of \<open>client_round\<close> and \<open>terminate\<close>.\<close>

lemma queue_terminate: "client_queue (terminate n c) = client_queue c @ replicate n dummy_peer"
  by (simp add: terminate_def client_queue_refilled)

lemma push_steps: "main_at s = Pushing ps \<Longrightarrow> system_step\<^sup>*\<^sup>* s (set_main Polling (set_queue (push_all ps (queue_of s)) s))"
proof (induction ps arbitrary: s)
  case Nil
  have "set_main Polling (set_queue (queue_of s) s) = set_main Polling s" by (simp add: set_queue_def)
  then show ?case using system_step.pushed[OF Nil] by (metis push_all_def foldl_Nil r_into_rtranclp)
next
  case (Cons p ps)
  let ?s = "set_main (Pushing ps) (set_queue (sq_push_back p (queue_of s)) s)"
  have "set_main Polling (set_queue (push_all ps (queue_of ?s)) ?s) = set_main Polling (set_queue (push_all (p # ps) (queue_of s)) s)"
    by (simp add: push_all_def set_main_def set_queue_def)
  with system_step.push[OF Cons.prems] Cons.IH[of ?s] show ?case by (simp add: converse_rtranclp_into_rtranclp)
qed

lemma round_steps:
  assumes "client_round lc env r (the_manager s) now (the_client s) = Inr (Some c)" "main_at s = Polling"
  shows "system_step\<^sup>*\<^sup>* s (s\<lparr>the_client := c\<rparr>)"
proof (cases "lastPeerQuery (the_client s) = -1 \<or> 60 \<le> now - lastPeerQuery (the_client s) \<or> sq_empty (queue_of s)")
  case False
  with assms show ?thesis by (auto simp: client_round_def split: if_splits)
next
  case True
  have nc: "\<not> isComplete (the_manager s)" using assms(1) by (auto simp: client_round_def split: if_splits)
  with assms(1) True obtain ps where ps: "retrievePeers lc env r (bytesDownloaded (the_manager s)) = Inr ps"
    "c = (if ps = [] then (the_client s)\<lparr>lastPeerQuery := now\<rparr>
          else (the_client s)\<lparr>lastPeerQuery := now, client_queue := push_all ps (sq_clear (queue_of s))\<rparr>)"
    by (auto simp: client_round_def rbind_Inr_iff Let_def split: if_splits)
  let ?a = "set_main (Asking now) s"
  let ?b = "set_main (if ps = [] then Polling else Refilling ps) (s\<lparr>the_client := (the_client s)\<lparr>lastPeerQuery := now\<rparr>\<rparr>)"
  have q: "system_step s ?a" by (rule system_step.query[OF assms(2) nc True])
  have "system_step ?a ?b" using system_step.answer[of ?a now lc env r ps] ps(1) by (simp add: set_main_def)
  with q have sb: "system_step\<^sup>*\<^sup>* s ?b" by auto
  show ?thesis
  proof (cases "ps = []")
    case True
    then have "?b = s\<lparr>the_client := c\<rparr>" using ps(2) assms(2) by (simp add: set_main_def)
    with sb show ?thesis by simp
  next
    case False
    let ?c = "set_main (Pushing ps) (set_queue (sq_clear (queue_of ?b)) ?b)"
    have "system_step ?b ?c" using system_step.clear[of ?b ps] False by simp
    with sb push_steps[of ?c ps] have "system_step\<^sup>*\<^sup>* s (set_main Polling (set_queue (push_all ps (queue_of ?c)) ?c))" by simp
    moreover have "set_main Polling (set_queue (push_all ps (queue_of ?c)) ?c) = s\<lparr>the_client := c\<rparr>"
      using False ps(2) assms(2) by (simp add: set_main_def set_queue_def)
    ultimately show ?thesis by simp
  qed
qed

lemma terminate_steps:
  "main_at s = Terminating k \<Longrightarrow> system_step\<^sup>*\<^sup>* s (set_main Joining (s\<lparr>the_client := terminate k (the_client s)\<rparr>))"
proof (induction k arbitrary: s)
  case 0
  have "s\<lparr>the_client := terminate 0 (the_client s)\<rparr> = s" by (simp add: terminate_def push_all_def)
  with system_step.stopped[OF 0] show ?case by simp
next
  case (Suc k)
  let ?s = "set_main (Terminating k) (set_queue (sq_push_back dummy_peer (queue_of s)) s)"
  have "set_main Joining (?s\<lparr>the_client := terminate k (the_client ?s)\<rparr>) = set_main Joining (s\<lparr>the_client := terminate (Suc k) (the_client s)\<rparr>)"
    by (simp add: terminate_def push_all_def set_main_def set_queue_def)
  with system_step.dummy[OF Suc.prems] Suc.IH[of ?s] show ?case by (simp add: converse_rtranclp_into_rtranclp)
qed

section \<open>Threads on different pieces\<close>

definition exclusive :: "system \<Rightarrow> bool" where
  "exclusive s \<longleftrightarrow> all_apart (map job_of (threads s))"

definition calm_step :: "system \<Rightarrow> system \<Rightarrow> bool" where
  "calm_step s s' \<longleftrightarrow> system_step s s' \<and> exclusive s'"

section \<open>The invariant\<close>

text \<open>
  After the main thread has left its loop the download is complete, and the queue together with what \<open>terminate\<close> is still
  going to push has a peer for every thread that waits at \<open>pop_front\<close>; nobody adds waiting threads, because the test of the
  loop fails.
\<close>

definition waiting :: "system \<Rightarrow> nat" where
  "waiting s = length (filter (\<lambda>p. p = Popping) (threads s))"

fun left_loop :: "main_phase \<Rightarrow> bool" where
  "left_loop (Terminating k) = True"
| "left_loop Joining = True"
| "left_loop Returned = True"
| "left_loop ph = False"

fun to_push :: "main_phase \<Rightarrow> nat" where
  "to_push (Terminating k) = k"
| "to_push ph = 0"

definition manager_inv :: "pmanager \<Rightarrow> system \<Rightarrow> bool" where
  "manager_inv pm s \<longleftrightarrow> pm_core (the_manager s) \<and> same_layout pm (the_manager s) \<and> exclusive s \<and>
     (\<forall>k < length (threads s). job_ok (the_manager s) (job_of (threads s ! k)))"

definition system_inv :: "pmanager \<Rightarrow> system \<Rightarrow> bool" where
  "system_inv pm s \<longleftrightarrow> manager_inv pm s \<and>
     (left_loop (main_at s) \<longrightarrow> isComplete (the_manager s) \<and> waiting s \<le> length (queue_of s) + to_push (main_at s)) \<and>
     (main_at s = Returned \<longrightarrow> set (threads s) \<subseteq> {Ended})"

lemma filter_update:
  "i < length xs \<Longrightarrow> length (filter P (xs[i := x])) + (if P (xs ! i) then 1 else 0) = length (filter P xs) + (if P x then 1 else 0)"
proof (induction xs arbitrary: i)
  case (Cons y ys)
  show ?case
  proof (cases i)
    case (Suc j)
    with Cons.IH[of j] Cons.prems show ?thesis by simp
  qed simp
qed simp

lemma waiting_set:
  "i < length (threads s) \<Longrightarrow> waiting (set_thread i p s) + (if threads s ! i = Popping then 1 else 0)
     = waiting s + (if p = Popping then 1 else 0)"
  using filter_update[of i "threads s" "\<lambda>p. p = Popping" p] by (simp add: waiting_def)

lemma waiting_other [simp]:
  "waiting (set_queue q s) = waiting s" "waiting (set_main ph s) = waiting s" "waiting (s\<lparr>the_manager := m\<rparr>) = waiting s"
  "waiting (s\<lparr>the_client := c\<rparr>) = waiting s"
  by (simp_all add: waiting_def)

lemma waiting_le: "waiting s \<le> length (threads s)"
  by (simp add: waiting_def)

lemma manager_inv_other [simp]:
  "manager_inv pm (set_queue q s) = manager_inv pm s" "manager_inv pm (set_main ph s) = manager_inv pm s"
  "manager_inv pm (s\<lparr>the_client := c\<rparr>) = manager_inv pm s"
  by (simp_all add: manager_inv_def exclusive_def)

lemma thread_not_returned: "system_inv pm s \<Longrightarrow> thread_at s i p \<Longrightarrow> p \<noteq> Ended \<Longrightarrow> main_at s \<noteq> Returned"
  by (auto simp: system_inv_def thread_at_def dest: nth_mem)

lemma manager_job:
  assumes "manager_inv pm s" "i < length (threads s)" "job_step (the_manager s, job_of (threads s ! i)) (m, job_of p)"
    and "exclusive (set_thread i p (s\<lparr>the_manager := m\<rparr>))"
  shows "manager_inv pm (set_thread i p (s\<lparr>the_manager := m\<rparr>))"
proof -
  let ?js = "map job_of (threads s)"
  have m: "map job_of ((threads s)[i := p]) = ?js[i := job_of p]" by (simp add: map_update)
  have pre: "pm_core (the_manager s)" "\<forall>k < length ?js. job_ok (the_manager s) (?js ! k)" "i < length ?js"
    "job_step (the_manager s, ?js ! i) (m, job_of p)" "\<forall>k < length ?js. k \<noteq> i \<longrightarrow> apart (?js ! i) (?js ! k)"
    using assms(1-3) by (auto simp: manager_inv_def exclusive_def all_apart_def)
  note o = job_rg.one_of_many[OF pre]
  have "job_ok m (job_of ((threads s)[i := p] ! k))" if "k < length (threads s)" for k
    using o(3) that m by (metis length_list_update length_map nth_map)
  with o(1,2) assms(1,4) show ?thesis by (auto simp: manager_inv_def intro: same_layout_trans)
qed

lemma all_apart_update:
  assumes "all_apart js" "held j = None"
  shows "all_apart (js[i := j])"
proof -
  have "held (js[i := j] ! k) = (if k = i then None else held (js ! k))" if "k < length js" for k
    using that assms(2) by simp
  with assms(1) show ?thesis by (auto simp: all_apart_def apart_def)
qed

lemma manager_quiet:
  assumes "manager_inv pm s" "held (job_of p) = None"
  shows "manager_inv pm (set_thread i p s)"
proof -
  have "all_apart ((map job_of (threads s))[i := job_of p])"
    using assms by (intro all_apart_update) (simp_all add: manager_inv_def exclusive_def)
  moreover have "job_ok (the_manager s) (job_of p)" using assms(2) by (cases "job_of p") simp_all
  ultimately show ?thesis using assms(1)
    by (cases "i < length (threads s)") (auto simp: manager_inv_def exclusive_def map_update nth_list_update list_update_beyond)
qed

lemma inv_thread:
  assumes "system_inv pm s" "thread_at s i p0" "p0 \<noteq> Ended" "p = Popping \<Longrightarrow> \<not> isComplete (the_manager s)" "held (job_of p) = None"
  shows "system_inv pm (set_thread i p s)"
proof -
  have "waiting (set_thread i p s) \<le> waiting s \<or> p = Popping"
    using waiting_set[of i s p] assms(2) by (auto simp: thread_at_def split: if_splits)
  with thread_not_returned[OF assms(1-3)] assms(1,4) manager_quiet[OF _ assms(5)] show ?thesis by (auto simp: system_inv_def)
qed

lemma inv_job:
  assumes "system_inv pm s" "thread_at s i p0" "p0 \<noteq> Ended" "p \<noteq> Popping" "job_step (the_manager s, job_of p0) (m, job_of p)"
    and "exclusive (set_thread i p (s\<lparr>the_manager := m\<rparr>))"
  shows "system_inv pm (set_thread i p (s\<lparr>the_manager := m\<rparr>))"
proof -
  have i: "i < length (threads s)" "threads s ! i = p0" using assms(2) by (simp_all add: thread_at_def)
  have m: "manager_inv pm s" using assms(1) by (simp add: system_inv_def)
  have "waiting (set_thread i p (s\<lparr>the_manager := m\<rparr>)) \<le> waiting s"
    using waiting_set[of i "s\<lparr>the_manager := m\<rparr>" p] i assms(4) by (auto split: if_splits)
  moreover have "isComplete (the_manager s) \<Longrightarrow> isComplete m"
    using complete_job[of "the_manager s" "job_of p0" m "job_of p"] assms(5) m i by (auto simp: manager_inv_def)
  ultimately show ?thesis
    using manager_job[OF m i(1), of m p] i(2) assms thread_not_returned[OF assms(1-3)] by (auto simp: system_inv_def)
qed

lemma inv_main:
  "system_inv pm s \<Longrightarrow> \<not> left_loop ph \<Longrightarrow> system_inv pm (set_main ph s)"
  by (cases ph) (auto simp: system_inv_def)

lemma inv_queue:
  "system_inv pm s \<Longrightarrow> \<not> left_loop (main_at s) \<Longrightarrow> system_inv pm (set_queue q s)"
  by (cases "main_at s") (auto simp: system_inv_def)

lemma system_inv_step:
  assumes "system_inv pm s" "system_step s s'" "exclusive s'"
  shows "system_inv pm s'"
  using assms(2,1,3)
proof (induction rule: system_step.induct)
  case (test s i)
  then show ?case by (intro inv_thread) auto
next
  case (hang_up s i)
  then show ?case by (intro inv_thread) auto
next
  case (leave s i)
  then show ?case by (intro inv_thread) auto
next
  case (leave_check s i peer)
  then show ?case by (intro inv_thread) auto
next
  case (pop s i r q)
  let ?ph = "if host (last_value r) = dummy_peer_ip then Leaving Idle else Talking Idle"
  have q: "length (queue_of s) = Suc (length q)"
    using pop(2) by auto
  have "waiting (set_thread i ?ph (set_queue q s)) + 1 = waiting s"
    using waiting_set[of i "set_queue q s" ?ph] pop(1) by (simp add: thread_at_def split: if_splits)
  moreover have "manager_inv pm (set_thread i ?ph (set_queue q s))"
    using pop(3) by (intro manager_quiet) (simp_all add: system_inv_def)
  ultimately show ?case using pop(3) q thread_not_returned[OF pop(3,1)] by (auto simp: system_inv_def)
next
  case (talk s i j m j')
  then show ?case by (intro inv_job) auto
next
  case (leave_peer s i peer m)
  then show ?case using job_step.erase[OF leave_peer(2)] by (intro inv_job) auto
next
  case (answer s now lc env r ps)
  then have "system_inv pm (s\<lparr>the_client := (the_client s)\<lparr>lastPeerQuery := now\<rparr>\<rparr>)" by (simp add: system_inv_def)
  then show ?case by (auto intro: inv_main)
next
  case (complete s)
  then show ?case using waiting_le[of s] by (simp add: system_inv_def)
next
  case (dummy s k)
  then show ?case by (auto simp: system_inv_def sq_push_back_def)
qed (auto intro: inv_main inv_queue simp: system_inv_def)

section \<open>The end of the download\<close>

fun rank :: "thread_phase \<Rightarrow> nat" where
  "rank Ended = 0"
| "rank (Leaving j) = 1"
| "rank Testing = 2"
| "rank (Talking j) = 3"
| "rank Popping = 4"

definition busy :: "system \<Rightarrow> nat" where
  "busy s = sum_list (map rank (threads s))"

lemma busy_set:
  assumes "i < length (threads s)" "rank p < rank (threads s ! i)"
  shows "busy (set_thread i p s) < busy s"
proof -
  have "i < length xs \<Longrightarrow> sum_list (map rank (xs[i := p])) + rank (xs ! i) = sum_list (map rank xs) + rank p" for xs
  proof (induction xs arbitrary: i)
    case (Cons y ys)
    show ?case
    proof (cases i)
      case (Suc j)
      with Cons.IH[of j] Cons.prems show ?thesis by simp
    qed simp
  qed simp
  with assms show ?thesis by (fastforce simp: busy_def)
qed

text \<open>Once all pieces are had the threads stay out of each other's way, and none begins to remove a peer.\<close>

definition removing :: "system \<Rightarrow> bool" where
  "removing s \<longleftrightarrow> (\<exists>i < length (threads s). \<exists>p. job_of (threads s ! i) = Removing p)"

lemma removing_thread: "\<not> removing s \<Longrightarrow> thread_at s i ph \<Longrightarrow> job_of ph \<noteq> Removing p"
  by (auto simp: removing_def thread_at_def)

lemma not_removing_set: "\<not> removing s \<Longrightarrow> (\<And>p. job_of ph \<noteq> Removing p) \<Longrightarrow> \<not> removing (set_thread i ph s)"
  unfolding removing_def by (metis length_list_update nth_list_update_eq nth_list_update_neq set_simps(4))

lemma removing_other [simp]:
  "removing (set_queue q s) = removing s" "removing (set_main ph s) = removing s" "removing (s\<lparr>the_manager := m\<rparr>) = removing s"
  "removing (s\<lparr>the_client := c\<rparr>) = removing s"
  by (simp_all add: removing_def)

definition all_had :: "pmanager \<Rightarrow> system \<Rightarrow> bool" where
  "all_had pm s \<longleftrightarrow> system_inv pm s \<and> isComplete (the_manager s)"

lemma all_had_job:
  assumes "all_had pm s" "thread_at s i ph" "job_step (the_manager s, job_of ph) (m, j')"
  shows "isComplete m \<and> held j' = None \<and> (\<forall>p. j' \<noteq> Removing p)"
proof (rule complete_job)
  show "pm_core (the_manager s)" "job_ok (the_manager s) (job_of ph)" "isComplete (the_manager s)"
    using assms(1,2) by (auto simp: all_had_def system_inv_def manager_inv_def thread_at_def)
qed (rule assms(3))

lemma exclusive_set:
  "exclusive s \<Longrightarrow> held (job_of ph) = None \<Longrightarrow> exclusive (set_thread i ph s)"
  by (simp add: exclusive_def map_update all_apart_update)

lemma exclusive_other [simp]:
  "exclusive (set_queue q s) = exclusive s" "exclusive (set_main ph s) = exclusive s" "exclusive (s\<lparr>the_manager := m\<rparr>) = exclusive s"
  "exclusive (s\<lparr>the_client := c\<rparr>) = exclusive s"
  by (simp_all add: exclusive_def)

lemma all_had_step:
  assumes "all_had pm s" "system_step s s'"
  shows "all_had pm s'"
proof -
  have ex: "exclusive s" and inv: "system_inv pm s" and c: "isComplete (the_manager s)"
    using assms(1) by (auto simp: all_had_def system_inv_def manager_inv_def)
  have "exclusive s' \<and> isComplete (the_manager s')"
    using assms(2)
  proof (cases rule: system_step.cases)
    case (talk i j m j')
    with all_had_job[OF assms(1), of i "Talking j" m j'] ex show ?thesis by (simp add: exclusive_set)
  next
    case (leave_peer i peer m)
    with all_had_job[OF assms(1), of i "Leaving (Removing peer)" m Idle] job_step.erase ex show ?thesis by (simp add: exclusive_set)
  qed (use ex c in \<open>simp_all add: exclusive_set\<close>)
  with system_inv_step[OF inv assms(2)] show ?thesis by (simp add: all_had_def)
qed

lemma all_had_steps: "system_step\<^sup>*\<^sup>* s s' \<Longrightarrow> all_had pm s \<Longrightarrow> all_had pm s'"
  by (induction rule: rtranclp_induct) (auto intro: all_had_step)

lemma all_had_calm: "system_step\<^sup>*\<^sup>* s s' \<Longrightarrow> all_had pm s \<Longrightarrow> calm_step\<^sup>*\<^sup>* s s'"
proof (induction rule: rtranclp_induct)
  case (step u v)
  from all_had_step[OF all_had_steps[OF step(1,4)] step(2)] have "exclusive v"
    by (simp add: all_had_def system_inv_def manager_inv_def)
  with step(2) have "calm_step u v" by (simp add: calm_step_def)
  with step.IH[OF step(4)] show ?case by (rule rtranclp.rtrancl_into_rtrancl)
qed simp

text \<open>Without a thread in \<open>removePeer\<close> nothing can end the program any more.\<close>

lemma quiet_end_step:
  assumes "all_had pm s" "system_step s s'" "left_loop (main_at s)" "\<not> removing s"
  shows "left_loop (main_at s') \<and> \<not> removing s'"
  using assms(2)
proof (cases rule: system_step.cases)
  case (talk i j m j')
  with all_had_job[OF assms(1), of i "Talking j" m j'] assms(3,4) show ?thesis by (simp add: not_removing_set)
next
  case (crash i peer e)
  then show ?thesis using removing_thread[OF assms(4)] by fastforce
qed (use assms(1,3,4) in \<open>simp_all add: not_removing_set all_had_def\<close>)

lemma quiet_end_steps:
  "system_step\<^sup>*\<^sup>* s s' \<Longrightarrow> all_had pm s \<Longrightarrow> left_loop (main_at s) \<Longrightarrow> \<not> removing s \<Longrightarrow>
     all_had pm s' \<and> left_loop (main_at s') \<and> \<not> removing s'"
proof (induction rule: rtranclp_induct)
  case (step u v)
  with all_had_step[of pm u v] quiet_end_step[of pm u v] show ?case by blast
qed simp

text \<open>A thread that has not ended can always go on once the main thread joins.\<close>

lemma joining_goes_on:
  assumes "all_had pm s" "\<not> removing s" "main_at s = Joining" "i < length (threads s)" "threads s ! i \<noteq> Ended"
  obtains s' where "system_step s s'" "main_at s' = Joining" "busy s' < busy s"
proof -
  have at: "thread_at s i (threads s ! i)" using assms(3,4) by (simp add: thread_at_def)
  have idle: "job_of (threads s ! i) = Idle"
  proof -
    have "job_ok (the_manager s) (job_of (threads s ! i))" "ongoingPieces (the_manager s) = []"
      using assms(1,4) core_complete(2) by (auto simp: all_had_def system_inv_def manager_inv_def)
    with removing_thread[OF assms(2) at] show ?thesis by (cases "job_of (threads s ! i)") auto
  qed
  show thesis
  proof (cases "threads s ! i")
    case Testing
    with assms(1,3) have "system_step s (set_thread i (Leaving Idle) s)"
      using system_step.test[of s i] at by (auto simp: all_had_def)
    with that busy_set[OF assms(4), of "Leaving Idle"] assms(3) Testing show thesis by simp
  next
    case Popping
    then have "Popping \<in> set (threads s)" using assms(4) by (metis nth_mem)
    then have "0 < waiting s" by (auto simp: waiting_def length_greater_0_conv filter_empty_conv)
    then obtain p q where q: "queue_of s = p # q"
      using assms(1,3) by (cases "queue_of s") (auto simp: all_had_def system_inv_def)
    have "system_step s (set_thread i (if host p = dummy_peer_ip then Leaving Idle else Talking Idle) (set_queue q s))"
      using system_step.pop[of s i "Dangling p" q] at Popping q by simp
    moreover have "busy (set_thread i ph (set_queue q s)) < busy s" if "rank ph < 4" for ph
      using busy_set[of i "set_queue q s" ph] assms(4) Popping that by (simp add: busy_def)
    ultimately show thesis using that assms(3) by simp
  next
    case (Talking j)
    with that system_step.hang_up[of s i] busy_set[OF assms(4), of Testing] assms(3) at idle show thesis by simp
  next
    case (Leaving j)
    with that system_step.leave[of s i] busy_set[OF assms(4), of Ended] assms(3) at idle show thesis by simp
  qed (use assms(5) in simp)
qed

lemma joining_ends:
  "all_had pm u \<Longrightarrow> \<not> removing u \<Longrightarrow> main_at u = Joining \<Longrightarrow>
     \<exists>s'. system_step\<^sup>*\<^sup>* u s' \<and> main_at s' = Returned \<and> set (threads s') \<subseteq> {Ended}"
proof (induction "busy u" arbitrary: u rule: less_induct)
  case less
  show ?case
  proof (cases "set (threads u) \<subseteq> {Ended}")
    case True
    with system_step.join[OF less.prems(3)] have "system_step u (set_main Returned u)" by blast
    with True show ?thesis by (intro exI[of _ "set_main Returned u"]) auto
  next
    case False
    then obtain i where i: "i < length (threads u)" "threads u ! i \<noteq> Ended" by (auto simp: subset_iff in_set_conv_nth)
    obtain u1 where u1: "system_step u u1" "main_at u1 = Joining" "busy u1 < busy u"
      by (rule joining_goes_on[OF less.prems i])
    have "\<not> removing u1" using quiet_end_step[OF less.prems(1) u1(1)] less.prems(2,3) by simp
    from less.hyps[OF u1(3) all_had_step[OF less.prems(1) u1(1)] this u1(2)] u1(1) show ?thesis
      by (meson converse_rtranclp_into_rtranclp)
  qed
qed

interpretation sys: invariant_system "\<lambda>s. (\<exists>n t. s = start_threads n pm \<and> pm_start t pm)" calm_step "system_inv pm" for pm
proof
  show "system_inv pm s" if "\<exists>n t. s = start_threads n pm \<and> pm_start t pm" for s
    using that
    by (auto simp: system_inv_def manager_inv_def start_threads_def exclusive_def all_apart_def apart_def pm_wf_core pm_start_wf)
  show "system_inv pm s \<Longrightarrow> calm_step s s' \<Longrightarrow> system_inv pm s'" for s s' by (simp add: calm_step_def system_inv_step)
qed

lemma sys_inv: "pm_start t pm \<Longrightarrow> calm_step\<^sup>*\<^sup>* (start_threads n pm) s \<Longrightarrow> system_inv pm s"
  using sys.inv_reachable by blast

lemma sys_verified:
  assumes "pm_start t pm" "all_had pm s" "i < length (splitPieceHashes (pieces (info t)))"
  shows "fips_sha1 (piece_bytes (store (the_manager s) ! i)) = splitPieceHashes (pieces (info t)) ! i"
  using assms(2) by (intro all_verified[OF assms(1) _ _ _ assms(3)]) (auto simp: all_had_def system_inv_def manager_inv_def)

lemma quiet_end:
  assumes "all_had pm s" "left_loop (main_at s)" "\<not> removing s"
  shows "\<exists>s'. system_step\<^sup>*\<^sup>* s s' \<and> main_at s' = Returned \<and> set (threads s') \<subseteq> {Ended}"
proof (cases "main_at s")
  case (Terminating k)
  from terminate_steps[OF this] obtain u where u: "system_step\<^sup>*\<^sup>* s u" "main_at u = Joining"
    by (meson set_simps(12))
  with joining_ends[of pm u] quiet_end_steps[OF u(1) assms] show ?thesis by (meson rtranclp_trans)
next
  case Joining
  with joining_ends[OF assms(1,3)] show ?thesis by blast
next
  case Returned
  with assms(1) show ?thesis by (intro exI[of _ s]) (simp add: all_had_def system_inv_def)
qed (use assms(2) in auto)

text \<open>
  C5. The end of a download with any number of threads, in every interleaving in which no two threads are in
  \<open>blockReceived\<close> for the same piece. Once the main
  thread has left its loop every piece has data with the hash of the torrent, and this stays
  so; no thread waits for a peer that never comes; and if no thread was inside \<open>removePeer\<close>, no exception ends the program
  any more and the main thread can return, with
  every thread ended, as soon as the conversations end.
\<close>

theorem threads_can_be_joined:
  assumes "pm_start t pm" "calm_step\<^sup>*\<^sup>* (start_threads n pm) s" "left_loop (main_at s)"
  shows "(\<forall>s'. system_step\<^sup>*\<^sup>* s s' \<longrightarrow>
      (\<forall>i < length (splitPieceHashes (pieces (info t))).
        fips_sha1 (piece_bytes (store (the_manager s') ! i)) = splitPieceHashes (pieces (info t)) ! i) \<and>
      (main_at s' \<in> {Joining, Returned} \<longrightarrow> length (filter (\<lambda>p. p = Popping) (threads s')) \<le> length (queue_of s'))) \<and>
    ((\<forall>i < length (threads s). \<forall>p. job_of (threads s ! i) \<noteq> Removing p) \<longrightarrow>
      (\<forall>s'. system_step\<^sup>*\<^sup>* s s' \<longrightarrow> alive (main_at s')) \<and>
      (\<exists>s'. system_step\<^sup>*\<^sup>* s s' \<and> main_at s' = Returned \<and> set (threads s') \<subseteq> {Ended}))"
proof -
  have had: "all_had pm s" using sys_inv[OF assms(1,2)] assms(3) by (simp add: all_had_def system_inv_def)
  have "length (filter (\<lambda>p. p = Popping) (threads s')) \<le> length (queue_of s')"
    if "system_step\<^sup>*\<^sup>* s s'" "main_at s' \<in> {Joining, Returned}" for s'
    using all_had_steps[OF that(1) had] that(2) by (auto simp: all_had_def system_inv_def waiting_def)
  moreover have "alive (main_at s')" if "system_step\<^sup>*\<^sup>* s s'" "\<not> removing s" for s'
    using quiet_end_steps[OF that(1) had assms(3) that(2)] by (cases "main_at s'") auto
  ultimately show ?thesis
    using sys_verified[OF assms(1)] all_had_steps[OF _ had] quiet_end[OF had assms(3)] by (auto simp: removing_def)
qed

text \<open>A torrent without pieces, and two threads.\<close>

definition ex_nothing :: torrent_file where
  "ex_nothing = ex_torrent\<lparr>info := (info ex_torrent)\<lparr>pieces := []\<rparr>\<rparr>"

lemma ex_nothing_start: "\<exists>pm. pm_start ex_nothing pm \<and> isComplete pm"
proof -
  obtain pm where "PieceManager True ex_nothing = Inr pm" "isComplete pm"
    by (simp add: PieceManager_def ceil_int_def int_max_def block_size_def signed_divide_int_def ex_nothing_def ex_torrent_def
        initiatePieces_def getTotalFileSize_def splitPieceHashes.simps isComplete_def)
  then show ?thesis by (blast intro: pm_startI)
qed

lemma threads_can_be_joined_witness:
  "\<exists>pm s. pm_start ex_nothing pm \<and> system_step (start_threads 2 pm) s \<and> main_at s = Terminating 2 \<and>
     (\<exists>s'. system_step\<^sup>*\<^sup>* s s' \<and> main_at s' = Returned \<and> set (threads s') \<subseteq> {Ended})"
proof -
  obtain pm where pm: "pm_start ex_nothing pm" "isComplete pm" using ex_nothing_start by blast
  let ?s = "set_main (Terminating 2) (start_threads 2 pm)"
  have st: "system_step (start_threads 2 pm) ?s"
    using system_step.complete[of "start_threads 2 pm"] pm(2) by (simp add: start_threads_def)
  then have "calm_step\<^sup>*\<^sup>* (start_threads 2 pm) ?s"
    by (auto simp: calm_step_def exclusive_def all_apart_def apart_def start_threads_def)
  with threads_can_be_joined[OF pm(1), of 2 ?s] have "\<exists>s'. system_step\<^sup>*\<^sup>* ?s s' \<and> main_at s' = Returned \<and> set (threads s') \<subseteq> {Ended}"
    by (auto simp: start_threads_def)
  with pm(1) st show ?thesis by (intro exI[of _ pm] exI[of _ ?s]) simp
qed

section \<open>Without threads\<close>

text \<open>The number of threads is not checked: with none, or a negative number, the main thread asks the tracker for ever.\<close>

lemma no_threads_step:
  assumes "system_step s s'" "threads s = []" "\<not> isComplete (the_manager s)" "\<not> left_loop (main_at s)"
  shows "threads s' = [] \<and> the_manager s' = the_manager s \<and> \<not> left_loop (main_at s')"
  using assms by (induction rule: system_step.induct) (auto simp: thread_at_def)

lemma no_threads_poll:
  assumes "threadNum \<le> 0" "\<not> isComplete pm" "system_step\<^sup>*\<^sup>* (start_threads threadNum pm) s"
  shows "the_manager s = pm \<and> main_at s \<noteq> Returned"
proof -
  have "threads s = [] \<and> the_manager s = pm \<and> \<not> left_loop (main_at s)"
    using assms(3)
  proof (induction rule: rtranclp_induct)
    case base
    show ?case using assms(1) by (simp add: start_threads_def)
  next
    case (step u v)
    then show ?case using no_threads_step[of u v] assms(2) by auto
  qed
  then show ?thesis by auto
qed

text \<open>The main thread leaves its loop only in a state in which it sees the download complete.\<close>

lemma seen_complete:
  assumes "system_step\<^sup>*\<^sup>* s0 s" "\<not> left_loop (main_at s0)" "left_loop (main_at s)"
  shows "\<exists>u. system_step\<^sup>*\<^sup>* s0 u \<and> isComplete (the_manager u) \<and> system_step\<^sup>*\<^sup>* u s"
  using assms(1,3)
proof (induction rule: rtranclp_induct)
  case base
  with assms(2) show ?case by simp
next
  case (step u v)
  show ?case
  proof (cases "left_loop (main_at u)")
    case True
    with step.IH step.hyps(2) show ?thesis by (meson rtranclp.rtrancl_into_rtrancl)
  next
    case False
    from step.hyps(2) have "isComplete (the_manager u)"
      by (cases rule: system_step.cases) (use False step.prems in \<open>auto split: if_splits\<close>)
    with step.hyps show ?thesis by blast
  qed
qed

section \<open>With a piece counted twice\<close>

text \<open>After the race of \<open>piece_counted_twice\<close> on the last piece the main thread stays in its loop for ever.\<close>

lemma overfull_system:
  assumes "system_step\<^sup>*\<^sup>* s s'" "totalPieces (the_manager s) < length (havePieces (the_manager s))" "\<not> left_loop (main_at s)"
  shows "totalPieces (the_manager s') < length (havePieces (the_manager s')) \<and> \<not> left_loop (main_at s')"
  using assms
proof (induction rule: rtranclp_induct)
  case (step u v)
  then have u: "totalPieces (the_manager u) < length (havePieces (the_manager u))" "\<not> left_loop (main_at u)" by auto
  from step(2) show ?case
  proof (cases rule: system_step.cases)
    case (talk i j m j')
    with u overfull_step[of "(the_manager u, j)" "(m, j')"] show ?thesis by simp
  next
    case (leave_peer i peer m)
    with u overfull_step[of "(the_manager u, Removing peer)" "(m, Idle)"] job_step.erase show ?thesis by simp
  qed (use u in \<open>auto simp: isComplete_def\<close>)
qed simp

section \<open>A file that failed\<close>

lemma failed_file_step:
  assumes "system_step s s'" "\<not> good (downloadedFile (the_manager s))"
  shows "downloadedFile (the_manager s') = downloadedFile (the_manager s)"
  using assms(1)
proof (cases rule: system_step.cases)
  case (talk i j m j')
  with failed_file_job[of "(the_manager s, j)" "(m, j')"] assms(2) show ?thesis by simp
next
  case (leave_peer i peer m)
  with failed_file_job[of "(the_manager s, Removing peer)" "(m, Idle)"] assms(2) job_step.erase show ?thesis by simp
qed simp_all

lemma failed_file_steps:
  "system_step\<^sup>*\<^sup>* s s' \<Longrightarrow> \<not> good (downloadedFile (the_manager s)) \<Longrightarrow> downloadedFile (the_manager s') = downloadedFile (the_manager s)"
  by (induction rule: rtranclp_induct) (auto dest: failed_file_step)

section \<open>A connection thread is a thread of the system\<close>

lemma terminated_receive: "pc_receiveMessage c = (c', r) \<Longrightarrow> terminated c' = terminated c"
  by (auto simp: pc_receiveMessage_def split: sum.splits)

lemma terminated_send: "pc_send d c = (c', r) \<Longrightarrow> terminated c' = terminated c"
  using pc_send_effect(1) by fastforce

lemma terminated_handshake: "performHandshake env c = (c', r) \<Longrightarrow> terminated c' = terminated c"
  by (auto simp: performHandshake_def lift_res_def Let_def elim!: io_bind_cases dest!: terminated_send
      split: sum.splits prod.splits if_splits)

lemma terminated_establish: "establishNewConnection env c = (c', r) \<Longrightarrow> terminated c' = terminated c"
  by (auto simp: establishNewConnection_def receiveBitField_def sendInterested_def elim!: io_bind_cases
      dest!: terminated_send terminated_receive terminated_handshake split: sum.splits prod.splits if_splits)

lemma terminated_loop: "message_loop time c = (c', r) \<Longrightarrow> terminated c' = terminated c"
proof (induction time c rule: message_loop.induct)
  case (1 time c)
  show ?case
  proof (cases "isComplete (manager c)")
    case True
    with "1.prems" show ?thesis by (simp add: message_loop.simps)
  next
    case False
    with "1.prems" have b: "io_bind (pc_receiveMessage c) (\<lambda>m c. io_bind (handle_message time m c)
        (\<lambda>_ c. message_loop time c)) = (c', r)"
      unfolding message_loop.simps[of time c] by (simp only: if_False)
    then show ?thesis
    proof (cases rule: io_bind_cases)
      case (fail e)
      then show ?thesis using terminated_receive by blast
    next
      case (ok c1 m)
      from ok(2) show ?thesis
      proof (cases rule: io_bind_cases)
        case (fail e)
        then show ?thesis using terminated_receive[OF ok(1)] moved_frame(7)[OF handle_message_effect(1)] by metis
      next
        case o2: (ok c2 u)
        from "1.IH"[OF False ok(1) o2] terminated_receive[OF ok(1)] moved_frame(7)[OF handle_message_effect(1)[OF o2(1)]]
        show ?thesis by simp
      qed
    qed
  qed
qed

lemma terminated_talk: "talk time env c = (c', r) \<Longrightarrow> terminated c' = terminated c"
  by (auto simp: talk_def elim!: io_bind_cases dest!: terminated_establish terminated_loop split: if_splits)

lemma terminated_close: "closeSock c = (c', r) \<Longrightarrow> terminated c' = terminated c"
  by (auto simp: closeSock_def Let_def split: if_splits sum.splits)

lemma close_removes:
  "closeSock c = (c', Inr ()) \<Longrightarrow> manager c' = manager c \<or> (\<exists>p. removePeer p (manager c) = Inr (manager c'))"
  "closeSock c = (c', Inl e) \<Longrightarrow> manager c' = manager c \<and> (\<exists>p. removePeer p (manager c) = Inl e)"
  by (auto simp: closeSock_def Let_def split: if_splits sum.splits)

text \<open>The life of a thread: \<open>start\<close> on a copy of the connection, and then the destructor of the copy.\<close>

definition run_thread :: "(nat \<Rightarrow> int) \<Rightarrow> attempt list \<Rightarrow> pconn \<Rightarrow> unit io" where
  "run_thread time attempts c = io_bind (start time attempts c) (\<lambda>_ c. closeSock c)"

text \<open>The handlers of the sequential runs are sequences of the steps of one thread.\<close>

lemma jobs_steps:
  assumes "job_step\<^sup>*\<^sup>* (m, j) (m', j')" "the_manager s = m" "thread_at s i (Talking j)"
  shows "system_step\<^sup>*\<^sup>* s (set_thread i (Talking j') (s\<lparr>the_manager := m'\<rparr>))"
  using assms(1)
proof (induction rule: rtranclp_induct2)
  case refl
  have "(threads s)[i := Talking j] = threads s" using assms(3) by (simp add: thread_at_def list_update_same_conv)
  then have "set_thread i (Talking j) (s\<lparr>the_manager := m\<rparr>) = s" using assms(2) by (simp add: set_thread_def)
  then show ?case by simp
next
  case (step m1 j1 m2 j2)
  let ?u = "set_thread i (Talking j1) (s\<lparr>the_manager := m1\<rparr>)"
  have "thread_at ?u i (Talking j1)" using assms(3) by (simp add: thread_at_def)
  with system_step.talk[of ?u i j1 m2 j2] step(2)
  have "system_step ?u (set_thread i (Talking j2) (?u\<lparr>the_manager := m2\<rparr>))" by simp
  moreover have "set_thread i (Talking j2) (?u\<lparr>the_manager := m2\<rparr>) = set_thread i (Talking j2) (s\<lparr>the_manager := m2\<rparr>)"
    by (simp add: set_thread_def)
  ultimately show ?case using step.IH by (metis rtranclp.rtrancl_into_rtrancl)
qed

lemma pm_run_wf: "pm_run m m' \<Longrightarrow> pm_wf m \<Longrightarrow> pm_wf m'"
  unfolding pm_run_def by (induction rule: rtranclp_induct) (auto intro: pm_step_wf)

lemma run_jobs:
  assumes "pm_run m m'" "pm_wf m"
  shows "job_step\<^sup>*\<^sup>* (m, Idle) (m', Idle)"
  using assms(1) unfolding pm_run_def
proof (induction rule: rtranclp_induct)
  case (step u v)
  have "pm_wf u" by (rule pm_run_wf) (use step(1) assms(2) in \<open>simp_all add: pm_run_def\<close>)
  with step(2) handler_alone have "job_step\<^sup>*\<^sup>* (u, Idle) (v, Idle)" by blast
  with step.IH show ?case by (rule rtranclp_trans)
qed simp

lemma talk_steps:
  assumes "pm_run m m'" "the_manager s = m" "thread_at s i (Talking Idle)" "pm_wf m"
  shows "system_step\<^sup>*\<^sup>* s (s\<lparr>the_manager := m'\<rparr>)"
proof -
  have "set_thread i (Talking Idle) (s\<lparr>the_manager := m'\<rparr>) = s\<lparr>the_manager := m'\<rparr>"
    using assms(3) by (simp add: set_thread_def thread_at_def list_update_same_conv)
  with jobs_steps[OF run_jobs[OF assms(1,4)] assms(2,3)] show ?thesis by simp
qed

text \<open>An exception of \<open>removePeer\<close> ends the program.\<close>

lemma removePeer_Inl: "removePeer p m = Inl e \<Longrightarrow> \<not> isComplete m \<and> rp_erase p m = Inl e"
  by (simp add: removePeer_halves split: if_splits)

lemma crash_steps:
  assumes "thread_at s i (Talking Idle) \<or> thread_at s i (Leaving Idle)" "removePeer p (the_manager s) = Inl e"
  shows "\<exists>u. system_step\<^sup>*\<^sup>* s (set_main (Crashed e) u) \<and> the_manager u = the_manager s"
proof -
  note r = removePeer_Inl[OF assms(2)]
  have i: "i < length (threads s)" "alive (main_at s)" using assms(1) by (auto simp: thread_at_def)
  from assms(1) obtain ph where ph: "ph = Talking (Removing p) \<or> ph = Leaving (Removing p)" "system_step s (set_thread i ph s)"
  proof
    assume "thread_at s i (Talking Idle)"
    from system_step.talk[OF this job_step.check[of _ p]] r have "system_step s (set_thread i (Talking (Removing p)) s)" by simp
    with that show thesis by blast
  next
    assume "thread_at s i (Leaving Idle)"
    with that system_step.leave_check[of s i p] r show thesis by blast
  qed
  moreover have "system_step (set_thread i ph s) (set_main (Crashed e) (set_thread i ph s))"
    using system_step.crash[of "set_thread i ph s" i p e] ph(1) i r by (auto simp: thread_at_def)
  ultimately show ?thesis by (intro exI[of _ "set_thread i ph s"]) auto
qed

text \<open>What the steps of a thread lead to: its phase, or the end of the program.\<close>

definition leads_to :: "system \<Rightarrow> nat \<Rightarrow> thread_phase \<Rightarrow> pmanager \<Rightarrow> unit res \<Rightarrow> bool" where
  "leads_to s i ph m r \<longleftrightarrow> (\<exists>s'. system_step\<^sup>*\<^sup>* s s' \<and> the_manager s' = m \<and>
     (case r of Inr _ \<Rightarrow> threads s' = (threads s)[i := ph] \<and> main_at s' = main_at s
      | Inl e \<Rightarrow> main_at s' = Crashed e))"

lemma leads_to_later:
  assumes "system_step\<^sup>*\<^sup>* s u" "leads_to u i ph m r" "threads u = (threads s)[i := q]" "main_at u = main_at s"
  shows "leads_to s i ph m r"
proof -
  obtain s' where s': "system_step\<^sup>*\<^sup>* u s'" "the_manager s' = m"
    "case r of Inr _ \<Rightarrow> threads s' = (threads u)[i := ph] \<and> main_at s' = main_at u | Inl e \<Rightarrow> main_at s' = Crashed e"
    using assms(2) by (auto simp: leads_to_def)
  from rtranclp_trans[OF assms(1) s'(1)] s'(2,3) assms(3,4) show ?thesis
    unfolding leads_to_def by (intro exI[of _ s']) (auto split: sum.splits)
qed

lemma start_leads:
  assumes "start time attempts c = (c', r)" "\<not> terminated c" "case r of Inl e \<Rightarrow> is_exception e | Inr _ \<Rightarrow> True"
    and "thread_at s i Testing" "the_manager s = manager c" "map host (queue_of s) = map fst attempts" "pm_wf (manager c)"
  shows "leads_to s i (Leaving Idle) (manager c') r"
  using assms
proof (induction attempts arbitrary: c s)
  case Nil
  then have "isComplete (manager c)" "c' = c" "r = Inr ()"
    by (auto simp: start.simps[of time "[]" c] split: if_splits)
  with system_step.test[OF Nil(4)] Nil(5) show ?case
    unfolding leads_to_def by (intro exI[of _ "set_thread i (Leaving Idle) s"]) auto
next
  case (Cons a attempts)
  obtain ip env "is" as where a: "a = (ip, env, is, as)" by (cases a)
  obtain p q where pq: "queue_of s = p # q" "host p = ip" "map host q = map fst attempts"
    using Cons.prems(6) a by (cases "queue_of s") auto
  define c0 where "c0 = c\<lparr>peer_ip := ip, incoming := is, outgoing := \<lparr>answers = as, sent = []\<rparr>\<rparr>"
  obtain c1 x where t: "talk time env c0 = (c1, x)" by fastforce
  show ?case
  proof (cases "isComplete (manager c)")
    case True
    then have "c' = c" "r = Inr ()" using Cons.prems(1) by (auto simp: start.simps[of time "a # attempts" c])
    with system_step.test[OF Cons.prems(4)] Cons.prems(5) True show ?thesis
      unfolding leads_to_def by (intro exI[of _ "set_thread i (Leaving Idle) s"]) auto
  next
    case nc: False
    let ?s1 = "set_thread i Popping s"
    let ?s2 = "set_thread i (if ip = dummy_peer_ip then Leaving Idle else Talking Idle) (set_queue q ?s1)"
    have i: "i < length (threads s)" "alive (main_at s)" using Cons.prems(4) by (simp_all add: thread_at_def)
    have "system_step s ?s1" using system_step.test[OF Cons.prems(4)] nc Cons.prems(5) by simp
    moreover have "system_step ?s1 ?s2"
      using system_step.pop[of ?s1 i "Dangling p" q] i pq(1,2) by (simp add: thread_at_def)
    ultimately have s2: "system_step\<^sup>*\<^sup>* s ?s2" by auto
    show ?thesis
    proof (cases "ip = dummy_peer_ip")
      case True
      then have "manager c' = manager c" "r = Inr ()"
        using Cons.prems(1,2) nc a by (auto simp: start.simps[of time "(dummy_peer_ip, env, is, as) # attempts" c])
      with s2 True Cons.prems(5) show ?thesis
        unfolding leads_to_def by (intro exI[of _ ?s2]) simp
    next
      case False
      then have st: "(case (c1, x) of (c1, Inr _) \<Rightarrow> start time attempts c1
          | (c1, Inl e) \<Rightarrow> if is_exception e then io_bind (closeSock c1) (\<lambda>_ c2. start time attempts c2)
              else (c1, Inl e)) = (c', r)"
        using Cons.prems(1,2) t nc by (simp add: start.simps[of time "(ip, env, is, as) # attempts" c] a c0_def)
      have rt: "pm_run (manager c) (manager c1)" "terminated c1 = terminated c"
        using runs_talk[OF t] terminated_talk[OF t] by (simp_all add: c0_def)
      have at: "thread_at ?s2 i (Talking Idle)" "the_manager ?s2 = manager c"
        using i Cons.prems(5) False by (simp_all add: thread_at_def)
      have go_on: ?thesis if c2: "start time attempts c2 = (c', r)" "pm_run (manager c) (manager c2)" "\<not> terminated c2" for c2
      proof -
        let ?s3 = "?s2\<lparr>the_manager := manager c2\<rparr>"
        let ?s4 = "set_thread i Testing ?s3"
        have "system_step\<^sup>*\<^sup>* ?s2 ?s3" using talk_steps[OF c2(2) at(2,1) Cons.prems(7)] .
        moreover have "system_step ?s3 ?s4" using system_step.hang_up[of ?s3 i] at by (simp add: thread_at_def)
        ultimately have s4: "system_step\<^sup>*\<^sup>* s ?s4" using s2 by (meson rtranclp.rtrancl_into_rtrancl rtranclp_trans)
        have f: "thread_at ?s4 i Testing" "the_manager ?s4 = manager c2" "map host (queue_of ?s4) = map fst attempts"
          using i pq(3) by (simp_all add: thread_at_def set_thread_def set_queue_def)
        show ?thesis
          by (rule leads_to_later[OF s4 Cons.IH[OF c2(1,3) Cons.prems(3) f pm_run_wf[OF c2(2) Cons.prems(7)]], of Testing]) (simp_all add: set_thread_def set_queue_def)
      qed
      show ?thesis
      proof (cases x)
        case (Inr u)
        with st go_on[of c1] rt Cons.prems(2) show ?thesis by simp
      next
        case (Inl e)
        with st Cons.prems(3) have b: "io_bind (closeSock c1) (\<lambda>_ c2. start time attempts c2) = (c', r)"
          by (auto split: if_splits)
        then show ?thesis
        proof (cases rule: io_bind_cases)
          case (ok c2 u)
          from go_on[OF ok(2)] rt runs_close[OF ok(1)] terminated_close[OF ok(1)] Cons.prems(2) pm_run_trans show ?thesis by blast
        next
          case (fail e')
          from close_removes(2)[OF fail(1)] obtain pr where pr: "manager c' = manager c1" "removePeer pr (manager c1) = Inl e'" by blast
          let ?s3 = "?s2\<lparr>the_manager := manager c1\<rparr>"
          have "thread_at ?s3 i (Talking Idle)" using at(1) by (simp add: thread_at_def)
          with crash_steps[of ?s3 i pr e'] pr(2) obtain u where u: "system_step\<^sup>*\<^sup>* ?s3 (set_main (Crashed e') u)"
            "the_manager u = manager c1" by auto
          with s2 talk_steps[OF rt(1) at(2,1) Cons.prems(7)] have "system_step\<^sup>*\<^sup>* s (set_main (Crashed e') u)" by (meson rtranclp_trans)
          with pr(1) fail(2) u(2) show ?thesis unfolding leads_to_def by (intro exI[of _ "set_main (Crashed e') u"]) simp
        qed
      qed
    qed
  qed
qed

text \<open>
  C21. Refinement: whatever the peers send, the life of a connection thread over the peers of the queue, on a manager that satisfies
  its invariant, is a sequence of steps of one thread of the system, from its first test to its end, with the same effect on the piece manager; when an
  exception leaves the thread the steps lead to the end of the program with that exception.
\<close>

theorem start_refines_thread:
  assumes "run_thread time attempts c = (c', r)" "\<not> terminated c" "case r of Inl e \<Rightarrow> is_exception e | Inr _ \<Rightarrow> True"
    and "i < length (threads s)" "threads s ! i = Testing" "alive (main_at s)"
    and "the_manager s = manager c" "pm_wf (manager c)" "map host (queue_of s) = map fst attempts"
  shows "\<exists>s'. system_step\<^sup>*\<^sup>* s s' \<and> the_manager s' = manager c' \<and>
    (case r of Inr _ \<Rightarrow> threads s' = (threads s)[i := Ended] \<and> main_at s' = main_at s
     | Inl e \<Rightarrow> main_at s' = Crashed e)"
proof -
  have t: "thread_at s i Testing" using assms(4-6) by (simp add: thread_at_def)
  from assms(1) have b: "io_bind (start time attempts c) (\<lambda>_ c. closeSock c) = (c', r)" by (simp add: run_thread_def)
  have "leads_to s i Ended (manager c') r"
  proof (cases rule: io_bind_cases[OF b])
    case (1 e)
    with start_leads[OF 1(1) assms(2) _ t assms(7,9,8)] assms(3) show ?thesis by (simp add: leads_to_def)
  next
    case (2 c1 u)
    from start_leads[OF 2(1) assms(2) _ t assms(7,9,8)] obtain s1 where s1: "system_step\<^sup>*\<^sup>* s s1" "the_manager s1 = manager c1"
      "threads s1 = (threads s)[i := Leaving Idle]" "main_at s1 = main_at s" by (auto simp: leads_to_def)
    then have l: "thread_at s1 i (Leaving Idle)" using assms(4,6) by (simp add: thread_at_def)
    show ?thesis
    proof (cases r)
      case (Inr v)
      with close_removes(1)[of c1 c'] 2(2) consider "manager c' = manager c1" | p where "removePeer p (manager c1) = Inr (manager c')"
        by auto
      then have "leads_to s1 i Ended (manager c') r"
      proof cases
        case 1
        with system_step.leave[OF l] Inr s1(2) show ?thesis
          unfolding leads_to_def by (intro exI[of _ "set_thread i Ended s1"]) auto
      next
        case (2 p)
        show ?thesis
        proof (cases "isComplete (the_manager s1)")
          case True
          with 2 s1(2) have "manager c' = the_manager s1" by (simp add: removePeer_halves)
          with system_step.leave[OF l] Inr show ?thesis
            unfolding leads_to_def by (intro exI[of _ "set_thread i Ended s1"]) auto
        next
          case False
          let ?u = "set_thread i (Leaving (Removing p)) s1"
          have e: "rp_erase p (the_manager ?u) = Inr (manager c')" using 2 s1(2) False by (simp add: removePeer_halves)
          have "thread_at ?u i (Leaving (Removing p))" using l by (simp add: thread_at_def)
          from system_step.leave_peer[OF this e] system_step.leave_check[OF l False, of p]
          have "system_step\<^sup>*\<^sup>* s1 (set_thread i Ended (?u\<lparr>the_manager := manager c'\<rparr>))" by auto
          with Inr show ?thesis
            unfolding leads_to_def by (intro exI[of _ "set_thread i Ended (?u\<lparr>the_manager := manager c'\<rparr>)"]) auto
        qed
      qed
      from leads_to_later[OF s1(1) this s1(3,4)] show ?thesis .
    next
      case (Inl e)
      with close_removes(2)[of c1 c' e] 2(2) obtain p where p: "manager c' = manager c1" "removePeer p (manager c1) = Inl e" by auto
      with crash_steps[of s1 i p e] l s1(2) obtain u where "system_step\<^sup>*\<^sup>* s1 (set_main (Crashed e) u)" "the_manager u = manager c'"
        by auto
      then have "leads_to s1 i Ended (manager c') r"
        unfolding leads_to_def using Inl by (intro exI[of _ "set_main (Crashed e) u"]) simp
      from leads_to_later[OF s1(1) this s1(3,4)] show ?thesis .
    qed
  qed
  then show ?thesis by (simp add: leads_to_def)
qed

text \<open>Two threads of which one downloads the only piece from the only peer.\<close>

lemma start_refines_thread_witness:
  "\<exists>s'. system_step\<^sup>*\<^sup>* \<lparr>the_manager = ex0, the_client = \<lparr>client_queue = [\<lparr>host = ''1.2.3.4'', port = 1\<rparr>], lastPeerQuery = 0\<rparr>,
      threads = [Ended, Testing], main_at = Polling\<rparr> s' \<and> isComplete (the_manager s') \<and> threads s' = [Ended, Ended]"
proof -
  let ?s = "\<lparr>the_manager = ex0, the_client = \<lparr>client_queue = [\<lparr>host = ''1.2.3.4'', port = 1\<rparr>], lastPeerQuery = 0\<rparr>,
      threads = [Ended, Testing], main_at = Polling\<rparr>"
  obtain snt where r: "start (\<lambda>_. 0) [(''1.2.3.4'', ex_env, ex_arrivals, [])] (ex_conn id_a [] ex0)
    = (run_state [] [CHR 0x80] False False snt ex_m3 2, Inr ())" using ex_whole_run by blast
  have cm: "isComplete ex_m3" by (simp add: isComplete_def ex_m_defs)
  obtain c' where c': "run_thread (\<lambda>_. 0) [(''1.2.3.4'', ex_env, ex_arrivals, [])] (ex_conn id_a [] ex0) = (c', Inr ())"
    "manager c' = ex_m3"
    unfolding run_thread_def r by (auto simp: io_bind_def closeSock_def run_state_def removePeer_halves cm Let_def)
  have "\<exists>s'. system_step\<^sup>*\<^sup>* ?s s' \<and> the_manager s' = ex_m3 \<and> threads s' = [Ended, Ended]"
    using start_refines_thread[OF c'(1), of 1 ?s] c'(2) run_wf[OF ex_start pm_run_refl] by (auto simp: ex_conn_def run_state_def)
  with cm show ?thesis by auto
qed

end
