(* ===== verification/Doubles.thy ===== *)
theory Doubles
  imports Prelude Complex_Main "HOL-Library.Log_Nat"
begin

text \<open>
  Floating-point arithmetic, as far as the sources use it: finite values that are not negative are rationals,
  every operation rounds its exact result to the nearest value with \<open>prec\<close> significant bits (53 for \<open>double\<close>, 24 for
  \<open>float\<close>), ties to even. Values stay far from the ends of the exponent range, so that there are no subnormal numbers and
  no overflow to infinity except by a division by zero.
\<close>

section \<open>Rounding\<close>

definition half_even :: "rat \<Rightarrow> int" where
  "half_even x =
     (let f = \<lfloor>x\<rfloor>; r = x - of_int f in
      if r < 1/2 then f else if 1/2 < r then f + 1 else if even f then f else f + 1)"

lemma half_even_int [simp]: "half_even (of_int n) = n"
  by (simp add: half_even_def)

lemma half_even_between: "\<lfloor>x\<rfloor> \<le> half_even x" "half_even x \<le> \<lfloor>x\<rfloor> + 1"
  by (simp_all add: half_even_def Let_def)

lemma half_even_mono:
  assumes "x \<le> y"
  shows "half_even x \<le> half_even y"
proof (cases "\<lfloor>x\<rfloor> = \<lfloor>y\<rfloor>")
  case True
  with assms show ?thesis by (auto simp: half_even_def Let_def)
next
  case False
  with assms floor_mono[OF assms] have "\<lfloor>x\<rfloor> + 1 \<le> \<lfloor>y\<rfloor>" by linarith
  with half_even_between(2)[of x] half_even_between(1)[of y] show ?thesis by linarith
qed

text \<open>The exponent of a positive value: \<open>2 ^ e \<le> x < 2 ^ (e + 1)\<close>.\<close>

definition binary_exponent :: "rat \<Rightarrow> int" where
  "binary_exponent x =
     (let (p, q) = quotient_of x; k = bitlen p - bitlen q in
      if 2 powi k \<le> x then k else k - 1)"

lemma binary_exponent_bounds:
  assumes "0 < x"
  shows "2 powi (binary_exponent x) \<le> x" "x < 2 powi (binary_exponent x + 1)"
proof -
  obtain p q where pq: "quotient_of x = (p, q)" by (cases "quotient_of x")
  then have x: "x = of_int p / of_int q" and q: "0 < q"
    using quotient_of_div quotient_of_denom_pos by auto
  with assms have p: "0 < p" by (simp add: zero_less_divide_iff)
  let ?a = "bitlen p" and ?b = "bitlen q"
  have bp: "2 ^ nat (?a - 1) \<le> p" "p < 2 ^ nat ?a" and bq: "2 ^ nat (?b - 1) \<le> q" "q < 2 ^ nat ?b"
    using bitlen_bounds p q by auto
  have "1 \<le> ?a" "1 \<le> ?b" using p q by (simp_all add: bitlen_alt_def)
  then have P: "2 powi (?a - 1) \<le> (of_int p :: rat)" "of_int p < (2 powi ?a :: rat)"
    and Q: "2 powi (?b - 1) \<le> (of_int q :: rat)" "of_int q < (2 powi ?b :: rat)"
    using bp bq by (simp_all add: power_int_def)
  have q': "(0 :: rat) < of_int q" using q by simp
  have up: "x < 2 powi (?a - ?b + 1)"
  proof -
    have "of_int p < (2 powi ?a :: rat)" by (rule P)
    also have "2 powi ?a = 2 powi (?a - ?b + 1) * (2 powi (?b - 1) :: rat)"
      by (simp flip: power_int_add)
    also have "\<dots> \<le> 2 powi (?a - ?b + 1) * of_int q" using Q(1) by (intro mult_left_mono) auto
    finally show ?thesis using q' by (simp add: x field_simps)
  qed
  have low: "2 powi (?a - ?b - 1) \<le> x"
  proof -
    have "2 powi (?a - ?b - 1) * of_int q \<le> 2 powi (?a - ?b - 1) * (2 powi ?b :: rat)"
      using Q(2) by (intro mult_left_mono) auto
    also have "\<dots> = 2 powi (?a - 1)" by (simp flip: power_int_add)
    also have "\<dots> \<le> of_int p" by (rule P)
    finally show ?thesis using q' by (simp add: x field_simps)
  qed
  show "2 powi (binary_exponent x) \<le> x" "x < 2 powi (binary_exponent x + 1)"
    using up low unfolding binary_exponent_def pq prod.case Let_def by (auto split: if_splits)
qed

definition fl :: "nat \<Rightarrow> rat \<Rightarrow> rat" where
  "fl prec x =
     (if x \<le> 0 then 0
      else let ulp = 2 powi (binary_exponent x - int prec + 1) in of_int (half_even (x / ulp)) * ulp)"

lemma fl_nonneg [simp]: "0 \<le> fl prec x"
proof -
  have "0 \<le> half_even (x / 2 powi (binary_exponent x - int prec + 1))" if "0 < x"
    using half_even_mono[of 0 "x / 2 powi (binary_exponent x - int prec + 1)"] half_even_int[of 0] that
    by (simp del: half_even_int)
  then show ?thesis by (simp add: fl_def Let_def)
qed

lemma fl_0 [simp]: "fl prec 0 = 0"
  by (simp add: fl_def)

text \<open>The scaled value has \<open>prec\<close> bits before the point, and so it has after rounding.\<close>

lemma scaled_bounds:
  assumes "0 < x" "0 < prec"
  defines "e \<equiv> binary_exponent x"
  shows "2 ^ (prec - 1) \<le> x / 2 powi (e - int prec + 1)" "x / 2 powi (e - int prec + 1) < 2 ^ prec"
    "2 powi e \<le> fl prec x" "fl prec x \<le> 2 powi (e + 1)"
proof -
  let ?u = "2 powi (e - int prec + 1) :: rat"
  have u: "0 < ?u" by simp
  have e1: "2 ^ (prec - 1) * ?u = 2 powi e" "2 ^ prec * ?u = 2 powi (e + 1)"
    using assms(2) by (simp_all add: of_nat_diff algebra_simps flip: power_int_add power_int_of_nat)
  note b = binary_exponent_bounds[OF assms(1), folded e_def]
  show s: "2 ^ (prec - 1) \<le> x / ?u" "x / ?u < 2 ^ prec"
    using b u e1 by (simp_all add: pos_le_divide_eq pos_divide_less_eq)
  define h where "h = half_even (x / ?u)"
  have "half_even (of_int (2 ^ (prec - 1))) \<le> h" "h \<le> half_even (of_int (2 ^ prec))"
    using s unfolding h_def by (auto intro!: half_even_mono)
  then have "2 ^ (prec - 1) \<le> h" "h \<le> 2 ^ prec" by (simp_all only: half_even_int)
  then have h: "2 ^ (prec - 1) \<le> (of_int h :: rat)" "(of_int h :: rat) \<le> 2 ^ prec"
    by (metis of_int_le_iff of_int_numeral of_int_power)+
  have f: "fl prec x = of_int h * ?u" using assms(1) by (simp add: fl_def Let_def e_def h_def)
  show "2 powi e \<le> fl prec x" using mult_right_mono[OF h(1), of ?u] u unfolding f e1(1)[symmetric] by simp
  show "fl prec x \<le> 2 powi (e + 1)" using mult_right_mono[OF h(2), of ?u] u unfolding f e1(2)[symmetric] by simp
qed

lemma fl_mono:
  assumes "x \<le> y" "0 < prec"
  shows "fl prec x \<le> fl prec y"
proof (cases "0 < x")
  case True
  with assms have y: "0 < y" by simp
  note bx = binary_exponent_bounds[OF True] and by' = binary_exponent_bounds[OF y]
  have "2 powi (binary_exponent x) < (2 powi (binary_exponent y + 1) :: rat)"
    using bx(1) by'(2) assms(1) by linarith
  then have le: "binary_exponent x \<le> binary_exponent y"
    by (metis linorder_not_le one_le_numeral power_int_increasing zless_imp_add1_zle not_less)
  show ?thesis
  proof (cases "binary_exponent x = binary_exponent y")
    case eq: True
    have "half_even (x / 2 powi (binary_exponent y - int prec + 1)) \<le> half_even (y / 2 powi (binary_exponent y - int prec + 1))"
      using assms(1) by (intro half_even_mono divide_right_mono) auto
    then show ?thesis using True y eq by (simp add: fl_def Let_def mult_right_mono)
  next
    case False
    with le have "(2 :: rat) powi (binary_exponent x + 1) \<le> 2 powi (binary_exponent y)"
      by (intro power_int_increasing) auto
    with scaled_bounds(4)[OF True assms(2)] scaled_bounds(3)[OF y assms(2)] show ?thesis by linarith
  qed
next
  case False
  then have "fl prec x = 0" by (simp add: fl_def)
  then show ?thesis by simp
qed

text \<open>Values with at most \<open>prec\<close> bits are not changed.\<close>

lemma fl_exact:
  assumes "0 \<le> m" "m < 2 ^ prec" "0 < prec"
  shows "fl prec (of_int m * 2 powi k) = of_int m * 2 powi k"
proof (cases "m = 0")
  case False
  let ?x = "of_int m * 2 powi k :: rat"
  let ?e = "binary_exponent ?x"
  have x: "0 < ?x" using False assms(1) by simp
  have "(of_int m :: rat) < 2 ^ prec" using assms(2) by (metis of_int_less_iff of_int_numeral of_int_power)
  then have "?x < 2 ^ prec * 2 powi k" by (intro mult_strict_right_mono) simp_all
  then have "2 powi ?e < 2 ^ prec * (2 powi k :: rat)" by (rule le_less_trans[OF binary_exponent_bounds(1)[OF x]])
  also have "\<dots> = 2 powi (int prec + k)" by (simp add: power_int_add)
  finally have "2 powi ?e < (2 powi (int prec + k) :: rat)" .
  then have e: "?e < int prec + k" by (metis linorder_not_le one_le_numeral power_int_increasing not_less)
  define j where "j = nat (k - ?e + int prec - 1)"
  have j: "k = ?e - int prec + 1 + int j" using e by (simp add: j_def)
  have "?x / 2 powi (?e - int prec + 1) = of_int (m * 2 ^ j)"
    by (subst (1) j) (simp add: power_int_add)
  then have "fl prec ?x = of_int (m * 2 ^ j) * 2 powi (?e - int prec + 1)"
    using x by (simp only: fl_def Let_def half_even_int not_le[symmetric]) simp
  also have "\<dots> = ?x" by (subst (2) j) (simp add: power_int_add)
  finally show ?thesis .
qed simp

lemma fl_int: "0 \<le> n \<Longrightarrow> n < 2 ^ prec \<Longrightarrow> 0 < prec \<Longrightarrow> fl prec (of_int n) = of_int n"
  using fl_exact[of n prec 0] by simp

section \<open>Values and operations\<close>

datatype dbl = Fin rat | Infinite | NaN

definition of_count :: "nat \<Rightarrow> nat \<Rightarrow> dbl" where
  "of_count prec n = Fin (fl prec (of_nat n))"

fun ddiv :: "nat \<Rightarrow> dbl \<Rightarrow> dbl \<Rightarrow> dbl" where
  "ddiv prec (Fin x) (Fin y) = (if y = 0 then (if x = 0 then NaN else Infinite) else Fin (fl prec (x / y)))"
| "ddiv prec Infinite (Fin y) = Infinite"
| "ddiv prec (Fin x) Infinite = Fin 0"
| "ddiv prec _ _ = NaN"

fun dmul :: "nat \<Rightarrow> dbl \<Rightarrow> dbl \<Rightarrow> dbl" where
  "dmul prec (Fin x) (Fin y) = Fin (fl prec (x * y))"
| "dmul prec Infinite (Fin y) = (if y = 0 then NaN else Infinite)"
| "dmul prec (Fin x) Infinite = (if x = 0 then NaN else Infinite)"
| "dmul prec Infinite Infinite = Infinite"
| "dmul prec _ _ = NaN"

text \<open>\<open>ceil\<close>, and the conversion to an integer type with the greatest value \<open>m\<close>, which truncates.\<close>

fun dceil :: "dbl \<Rightarrow> dbl" where
  "dceil (Fin x) = Fin (of_int \<lceil>x\<rceil>)"
| "dceil d = d"

fun to_integer :: "int \<Rightarrow> dbl \<Rightarrow> int res" where
  "to_integer m (Fin x) = (if \<lfloor>x\<rfloor> \<le> m then Inr \<lfloor>x\<rfloor> else Inl (Undefined FloatToInteger))"
| "to_integer m _ = Inl (Undefined FloatToInteger)"

text \<open>\<open>std::fixed << std::setprecision(2)\<close>: the decimal with two digits nearest to the exact value.\<close>

fun fixed2 :: "dbl \<Rightarrow> string" where
  "fixed2 (Fin x) =
     (let n = nat (half_even (x * 100)) in
      dec_nat (n div 100) @ ''.'' @ [digit_char (n mod 100 div 10), digit_char (n mod 10)])"
| "fixed2 Infinite = ''inf''"
| "fixed2 NaN = ''nan''"

lemma of_count_small: "n < 2 ^ prec \<Longrightarrow> 0 < prec \<Longrightarrow> of_count prec n = Fin (of_nat n)"
  using fl_int[of "int n" prec] by (simp add: of_count_def)

lemma fl_le_int: "x \<le> of_int n \<Longrightarrow> 0 \<le> n \<Longrightarrow> n < 2 ^ prec \<Longrightarrow> 0 < prec \<Longrightarrow> fl prec x \<le> of_int n"
  using fl_mono[of x "of_int n" prec] fl_int[of n prec] by simp

end
