(* ===== verification/Progress.thy ===== *)
theory Progress
  imports Download NetUtils Doubles
begin

text \<open>
  The progress display of the piece manager (\<open>displayProgressBar\<close> and \<open>trackProgress\<close> in
  \<open>src/network_part/PieceManager.cpp\<close>), with its floating-point numbers, and its thread next to those that drive the manager.
\<close>

section \<open>What is displayed\<close>

definition progress_bar_width :: nat where "progress_bar_width = 40"
definition progress_display_interval :: nat where "progress_display_interval = 1"

definition long_max :: int where "long_max = 2 ^ 63 - 1"

definition bar_text :: "int \<Rightarrow> string" where
  "bar_text barpos =
     map (\<lambda>i. if int i < barpos then CHR ''='' else if int i = barpos then CHR ''>'' else CHR '' '') [0..<progress_bar_width]"

text \<open>
  The speed: a signed product, converted to \<open>unsigned long\<close>. The number of bytes of the interval is divided by the
  width of the bar.
\<close>

definition download_speed :: "pmanager \<Rightarrow> dbl res" where
  "download_speed s =
     (let product = piece_len s * int (piecesDownloadedInInterval s) in
      if product < - long_max - 1 \<or> long_max < product then Inl (Undefined SignedOverflow)
      else Inr (ddiv 53 (ddiv 53 (of_count 53 (unat (word_of_int product :: cull))) (of_count 53 progress_bar_width))
                 (of_count 53 1000000)))"

definition remaining_time :: "pmanager \<Rightarrow> int res" where
  "remaining_time s =
     (let timePerPiece = ddiv 53 (of_count 53 progress_display_interval) (of_count 53 (piecesDownloadedInInterval s));
          left = unat (of_nat (totalPieces s) - of_nat (length (havePieces s)) :: cull)
      in to_integer long_max (dceil (dmul 53 timePerPiece (of_count 53 left))))"

definition progress_of :: "pmanager \<Rightarrow> dbl" where
  "progress_of s = ddiv 53 (of_count 53 (length (havePieces s))) (of_count 53 (totalPieces s))"

definition bar_position :: "pmanager \<Rightarrow> int res" where
  "bar_position s = to_integer (int int_max) (dmul 53 (of_count 53 progress_bar_width) (progress_of s))"

definition displayProgressBar :: "int \<Rightarrow> int \<Rightarrow> int \<Rightarrow> pmanager \<Rightarrow> string res" where
  "displayProgressBar maximumConnections startingTime currentTime s =
     rbind (download_speed s) (\<lambda>avgDownloadSpeedInMBS.
     rbind (remaining_time s) (\<lambda>remainingTime.
     rbind (formatTime remainingTime) (\<lambda>eta.
     rbind (bar_position s) (\<lambda>barpos.
     rbind (formatTime (currentTime - startingTime)) (\<lambda>elapsed.
       Inr (''[Peers: '' @ dec_nat (length (peers s)) @ ''/'' @ dec_int maximumConnections @ '', ''
         @ fixed2 avgDownloadSpeedInMBS @ '' MB/s, '' @ ''ETA: '' @ eta @ '']''
         @ ''['' @ bar_text barpos @ ''] ''
         @ dec_nat (length (havePieces s)) @ ''/'' @ dec_nat (totalPieces s) @ '' ''
         @ ''['' @ fixed2 (dmul 53 (progress_of s) (of_count 53 100)) @ ''%] ''
         @ ''in '' @ elapsed @ [CHR 0x0D]))))))"

lemma length_bar_text [simp]: "length (bar_text p) = 40"
  by (simp add: bar_text_def progress_bar_width_def)

text \<open>The bar: the division and the product are rounded, and the bar is full exactly at the end.\<close>

lemma bar_position_bounds:
  assumes "length (havePieces s) \<le> totalPieces s" "0 < totalPieces s" "totalPieces s \<le> int_max"
  shows "\<exists>p. bar_position s = Inr p \<and> 0 \<le> p \<and> p \<le> 40 \<and> (p = 40 \<longleftrightarrow> isComplete s)"
proof -
  let ?d = "length (havePieces s)" and ?t = "totalPieces s"
  define q where "q = fl 53 (of_nat ?d / of_nat ?t)"
  define x where "x = fl 53 (40 * q)"
  have small: "?d < 2 ^ 53" "?t < 2 ^ 53" using assms by (simp_all add: int_max_def)
  have pr: "progress_of s = Fin q"
    using small assms(2) by (simp add: progress_of_def of_count_small q_def)
  have x: "dmul 53 (of_count 53 progress_bar_width) (progress_of s) = Fin x"
    using pr by (simp add: of_count_small progress_bar_width_def x_def)
  have ratio: "(of_nat ?d :: rat) / of_nat ?t \<le> 1" using assms(1,2) by simp
  have q1: "q \<le> 1" using fl_le_int[of "of_nat ?d / of_nat ?t" 1 53] ratio by (simp add: q_def)
  have x40: "x \<le> 40" using fl_le_int[of "40 * q" 40 53] q1 by (simp add: x_def)
  have "0 \<le> x" by (simp add: x_def)
  then have p: "bar_position s = Inr \<lfloor>x\<rfloor>" "0 \<le> \<lfloor>x\<rfloor>" "\<lfloor>x\<rfloor> \<le> 40"
    using x x40 by (auto simp: bar_position_def int_max_def floor_le_iff)
  moreover have "\<lfloor>x\<rfloor> = 40 \<longleftrightarrow> isComplete s"
  proof (cases "isComplete s")
    case True
    then have "q = 1" using assms(2) fl_int[of 1 53] by (simp add: q_def isComplete_def)
    then have "x = 40" using fl_int[of 40 53] by (simp add: x_def)
    with True show ?thesis by simp
  next
    case False
    then have "?d + 1 \<le> ?t" using assms(1) by (simp add: isComplete_def)
    have exact: "fl 53 (of_int (2 ^ 31 - 1) * 2 powi (- 31)) = of_int (2 ^ 31 - 1) * 2 powi (- 31)"
      "fl 53 (of_int (40 * (2 ^ 31 - 1)) * 2 powi (- 31)) = of_int (40 * (2 ^ 31 - 1)) * 2 powi (- 31)"
      by (rule fl_exact; simp)+
    have "(of_nat ?d :: rat) / of_nat ?t \<le> of_int (2 ^ 31 - 1) * 2 powi (- 31)"
    proof -
      have "(of_nat ?d :: rat) \<le> of_nat ?t - 1" using \<open>?d + 1 \<le> ?t\<close> by linarith
      then have "(of_nat ?d :: rat) * 2 ^ 31 \<le> (of_nat ?t - 1) * 2 ^ 31" by (intro mult_right_mono) auto
      also have "\<dots> \<le> of_nat ?t * (2 ^ 31 - 1)"
        using assms(3) by (simp add: int_max_def algebra_simps)
      finally show ?thesis using assms(2) by (simp add: field_simps power_int_minus)
    qed
    from fl_mono[OF this, of 53] have "q \<le> of_int (2 ^ 31 - 1) * 2 powi (- 31)" unfolding q_def exact by simp
    then have "40 * q \<le> of_int (40 * (2 ^ 31 - 1)) * 2 powi (- 31)" by (simp add: field_simps)
    from fl_mono[OF this, of 53] have "x \<le> of_int (40 * (2 ^ 31 - 1)) * 2 powi (- 31)" unfolding x_def exact by simp
    also have "\<dots> < 40" by (simp add: power_int_minus)
    finally show ?thesis using False by (simp add: floor_eq_iff)
  qed
  ultimately show ?thesis by blast
qed

text \<open>
  The remaining time is undefined exactly when no piece was finished in the interval: the division gives
  infinity, which no integer holds.
\<close>

lemma ceil_product_bound:
  assumes "0 \<le> q" "q \<le> 1" "n \<le> int_max"
  shows "\<lceil>fl 53 (q * of_nat n)\<rceil> \<le> int n"
proof -
  have "q * of_nat n \<le> of_int (int n)" using mult_right_mono[OF assms(2), of "of_nat n"] by simp
  moreover have "int n < 2 ^ 53" using assms(3) by (simp add: int_max_def)
  ultimately have "fl 53 (q * of_nat n) \<le> of_int (int n)" by (intro fl_le_int) simp_all
  then show ?thesis by (simp add: ceiling_le_iff)
qed

lemma remaining_time_cases:
  assumes "length (havePieces s) \<le> totalPieces s" "totalPieces s \<le> int_max" "piecesDownloadedInInterval s \<le> int_max"
  shows "piecesDownloadedInInterval s = 0 \<Longrightarrow> remaining_time s = Inl (Undefined FloatToInteger)"
    and "0 < piecesDownloadedInInterval s \<Longrightarrow>
      \<exists>r. remaining_time s = Inr r \<and> 0 \<le> r \<and> r \<le> int (totalPieces s - length (havePieces s))"
proof -
  let ?k = "piecesDownloadedInInterval s" and ?n = "totalPieces s - length (havePieces s)"
  have k53: "?k < 2 ^ 53" and n53: "?n < 2 ^ 53" and n64: "?n < 2 ^ 64" using assms by (simp_all add: int_max_def)
  have left: "unat (of_nat (totalPieces s) - of_nat (length (havePieces s)) :: cull) = ?n"
    using assms(1) n64 by (simp add: unat_of_nat take_bit_nat_eq_self flip: of_nat_diff)
  have one: "of_count 53 progress_display_interval = Fin 1" by (simp add: of_count_small progress_display_interval_def)
  note rt = remaining_time_def[of s, unfolded Let_def left one of_count_small[OF k53 zero_less_numeral] of_count_small[OF n53 zero_less_numeral]]
  show "?k = 0 \<Longrightarrow> remaining_time s = Inl (Undefined FloatToInteger)" by (simp add: rt)
  assume k: "0 < ?k"
  define q where "q = fl 53 (1 / of_nat ?k)"
  have "(1 :: rat) / of_nat ?k \<le> of_int 1" using k by simp
  from fl_le_int[OF this] have q: "0 \<le> q" "q \<le> 1" by (simp_all add: q_def)
  have "?n \<le> int_max" using assms(2) by simp
  note b = ceil_product_bound[OF q this]
  have "0 \<le> \<lceil>fl 53 (q * of_nat ?n)\<rceil>" using fl_nonneg[of 53 "q * of_nat ?n"] by linarith
  moreover have "\<lceil>fl 53 (q * of_nat ?n)\<rceil> \<le> long_max" proof -
    have "int ?n \<le> long_max" using n53 by (simp add: long_max_def)
    with b show ?thesis by (rule order_trans)
  qed
  ultimately show "\<exists>r. remaining_time s = Inr r \<and> 0 \<le> r \<and> r \<le> int ?n" using k b by (simp add: rt q_def)
qed

lemma formatTime_fails: "formatTime t = Inl e \<Longrightarrow> e = LengthError \<and> 360000 \<le> t"
  using formatTime_cases[of "nat t"] by (cases "t < 0") (auto simp: formatTime_def split: if_splits)

lemma download_speed_fails: "download_speed s = Inl e \<Longrightarrow> e = Undefined SignedOverflow"
  by (auto simp: download_speed_def Let_def split: if_splits)

lemma have_le_total: "pm_wf s \<Longrightarrow> length (havePieces s) \<le> totalPieces s"
proof -
  assume "pm_wf s"
  note l = pm_wfD(3)[OF this, unfolded lists_wf_def]
  have "length (missingPieces s @ ongoingPieces s @ havePieces s) = totalPieces s"
    using distinct_card[of "missingPieces s @ ongoingPieces s @ havePieces s"] l by (metis card_lessThan)
  then show ?thesis by simp
qed

lemma displayProgressBar_Inr:
  assumes "displayProgressBar mc st now s = Inr line" "bar_position s = Inr p"
  shows "\<exists>before after. line = before @ ''['' @ bar_text p @ ''] '' @ after"
proof -
  obtain v eta elapsed where l: "line = (''[Peers: '' @ dec_nat (length (peers s)) @ ''/'' @ dec_int mc @ '', ''
         @ fixed2 v @ '' MB/s, '' @ ''ETA: '' @ eta @ '']'') @ ''['' @ bar_text p @ ''] ''
         @ (dec_nat (length (havePieces s)) @ ''/'' @ dec_nat (totalPieces s) @ '' ''
         @ ''['' @ fixed2 (dmul 53 (progress_of s) (of_count 53 100)) @ ''%] '' @ ''in '' @ elapsed @ [CHR 0x0D])"
    using assms by (auto simp: displayProgressBar_def rbind_Inr_iff)
  show ?thesis unfolding l by blast
qed

text \<open>
  C23. The line of the progress display, in every state of a download that is not complete: without a piece
  finished since the last line its remaining time is undefined; otherwise a bar of 40 columns is shown, which is
  not full, unless the product for the speed overflows or a time of 100 hours or more throws out of the thread.
\<close>

theorem progress_line:
  assumes "pm_wf s" "\<not> isComplete s" "totalPieces s \<le> int_max" "piecesDownloadedInInterval s \<le> int_max"
    and "\<bar>piece_len s * int (piecesDownloadedInInterval s)\<bar> \<le> long_max"
  shows "(displayProgressBar mc st now s = Inl (Undefined FloatToInteger) \<longleftrightarrow> piecesDownloadedInInterval s = 0) \<and>
    (0 < piecesDownloadedInInterval s \<longrightarrow>
      (case displayProgressBar mc st now s of
         Inl e \<Rightarrow> e = LengthError \<and> (360000 \<le> totalPieces s - length (havePieces s) \<or> 360000 \<le> now - st)
       | Inr line \<Rightarrow> \<exists>p before after. 0 \<le> p \<and> p < 40 \<and> line = before @ ''['' @ bar_text p @ ''] '' @ after))"
proof -
  have le: "length (havePieces s) \<le> totalPieces s" using have_le_total[OF assms(1)] .
  with assms(2) have pos: "0 < totalPieces s" by (simp add: isComplete_def)
  obtain p where p: "bar_position s = Inr p" "0 \<le> p" "p < 40"
    using bar_position_bounds[OF le pos assms(3)] assms(2) by fastforce
  have "\<not> (piece_len s * int (piecesDownloadedInInterval s) < - long_max - 1 \<or>
      long_max < piece_len s * int (piecesDownloadedInInterval s))" using assms(5) by linarith
  then obtain v where v: "download_speed s = Inr v" unfolding download_speed_def Let_def by simp
  note r = remaining_time_cases[OF le assms(3,4)]
  show ?thesis
  proof (cases "piecesDownloadedInInterval s = 0")
    case True
    with r(1) v show ?thesis by (simp add: displayProgressBar_def)
  next
    case False
    then obtain t where t: "remaining_time s = Inr t" "0 \<le> t" "t \<le> int (totalPieces s - length (havePieces s))"
      using r(2) by auto
    show ?thesis
    proof (cases "displayProgressBar mc st now s")
      case (Inl e)
      with v t(1) p(1) have "formatTime t = Inl e \<or> formatTime (now - st) = Inl e"
        by (auto simp: displayProgressBar_def rbind_Inl_iff)
      with formatTime_fails t(3) have "e = LengthError \<and> (360000 \<le> totalPieces s - length (havePieces s) \<or> 360000 \<le> now - st)"
        by fastforce
      with Inl False show ?thesis by simp
    next
      case (Inr line)
      note displayProgressBar_Inr[OF this p(1)]
      with Inr False p(2,3) show ?thesis by (simp, blast)
    qed
  qed
qed

lemma pm_wf_count [simp]: "pm_wf (s\<lparr>piecesDownloadedInInterval := k\<rparr>) = pm_wf s"
  by (simp add: pm_wf_def lists_wf_def requests_wf_def)

lemma progress_line_witness:
  "displayProgressBar 5 100 110 ex0 = Inl (Undefined FloatToInteger) \<and>
   (\<exists>line p before after. displayProgressBar 5 100 110 (ex0\<lparr>piecesDownloadedInInterval := 1\<rparr>) = Inr line \<and>
      0 \<le> p \<and> p < 40 \<and> line = before @ ''['' @ bar_text p @ ''] '' @ after)"
proof -
  have wf: "pm_wf ex0" using run_wf[OF ex_start] by simp
  have e: "\<not> isComplete ex0" "totalPieces ex0 = 1" "havePieces ex0 = []" "piecesDownloadedInInterval ex0 = 0" "piece_len ex0 = 16384"
    by (simp_all add: isComplete_def ex_defs)
  have "displayProgressBar 5 100 110 ex0 = Inl (Undefined FloatToInteger)"
    using progress_line[OF wf e(1), of 5 100 110] e by (simp add: int_max_def long_max_def)
  moreover have "(case displayProgressBar 5 100 110 (ex0\<lparr>piecesDownloadedInInterval := 1\<rparr>) of
      Inl e \<Rightarrow> False
    | Inr line \<Rightarrow> \<exists>p before after. 0 \<le> p \<and> p < 40 \<and> line = before @ ''['' @ bar_text p @ ''] '' @ after)"
    using progress_line[of "ex0\<lparr>piecesDownloadedInInterval := 1\<rparr>" 5 100 110] wf e
    by (simp add: int_max_def long_max_def isComplete_def split: sum.splits)
  ultimately show ?thesis by (auto split: sum.splits)
qed

section \<open>The thread of the display\<close>

text \<open>
  The thread sleeps, tests whether the download is complete, displays a line and resets the counter, each under
  its own lock or none, while the other threads drive the manager. An exception of the display ends the program
  with the lock held.
\<close>

datatype tracker_phase = Asleep | Tested | Shown | Finished | Failed cxx_error

record tracking =
  tr_manager :: pmanager
  tr_phase :: tracker_phase
  tr_lines :: "string list"

inductive track_step :: "int \<Rightarrow> int \<Rightarrow> tracking \<Rightarrow> tracking \<Rightarrow> bool" for mc st where
  others: "pm_step ev (tr_manager t) s \<Longrightarrow> track_step mc st t (t\<lparr>tr_manager := s\<rparr>)"
| wake: "tr_phase t = Asleep \<Longrightarrow>
    track_step mc st t (t\<lparr>tr_phase := if isComplete (tr_manager t) then Finished else Tested\<rparr>)"
| display: "tr_phase t = Tested \<Longrightarrow> displayProgressBar mc st now (tr_manager t) = Inr line \<Longrightarrow>
    track_step mc st t (t\<lparr>tr_phase := Shown, tr_lines := tr_lines t @ [line]\<rparr>)"
| fail: "tr_phase t = Tested \<Longrightarrow> displayProgressBar mc st now (tr_manager t) = Inl e \<Longrightarrow>
    track_step mc st t (t\<lparr>tr_phase := Failed e\<rparr>)"
| reset: "tr_phase t = Shown \<Longrightarrow>
    track_step mc st t (t\<lparr>tr_phase := Asleep, tr_manager := (tr_manager t)\<lparr>piecesDownloadedInInterval := 0\<rparr>\<rparr>)"

lemma pm_inv_count: "pm_inv s0 (s\<lparr>piecesDownloadedInInterval := k\<rparr>) = pm_inv s0 s"
  by (simp add: pm_inv_def had_in_file_def pieces_in_file_def)

lemma track_inv_step:
  "track_step mc st t t' \<Longrightarrow> pm_inv s0 (tr_manager t) \<Longrightarrow> pm_inv s0 (tr_manager t')"
  by (induction rule: track_step.induct) (auto intro: pm_inv_step simp: pm_inv_count)

interpretation track: invariant_system
  "\<lambda>t. tr_manager t = s0 \<and> (\<exists>m. pm_start m s0)" "track_step mc st" "\<lambda>t. pm_inv s0 (tr_manager t)" for s0 mc st
proof
  show "pm_inv s0 (tr_manager t)" if "tr_manager t = s0 \<and> (\<exists>m. pm_start m s0)" for t
    using that pm_run_inv[of _ s0 s0] by auto
qed (rule track_inv_step)

text \<open>
  The display never disturbs the download: in every interleaving the manager keeps its invariant. But an interval
  in which no piece is finished leads to the undefined conversion.
\<close>

theorem tracking_run:
  assumes "pm_start m s0" "(track_step mc st)\<^sup>*\<^sup>* \<lparr>tr_manager = s0, tr_phase = Asleep, tr_lines = []\<rparr> t"
  shows "pm_inv s0 (tr_manager t)"
    and "tr_phase t = Shown \<Longrightarrow> \<not> isComplete (tr_manager t) \<Longrightarrow> totalPieces (tr_manager t) \<le> int_max \<Longrightarrow>
      \<exists>t'. (track_step mc st)\<^sup>*\<^sup>* t t' \<and> tr_phase t' = Failed (Undefined FloatToInteger)"
proof -
  show inv: "pm_inv s0 (tr_manager t)"
    by (rule track.inv_reachable[OF _ assms(2)]) (use assms(1) in auto)
  assume p: "tr_phase t = Shown" and nc: "\<not> isComplete (tr_manager t)" and small: "totalPieces (tr_manager t) \<le> int_max"
  define s1 where "s1 = (tr_manager t)\<lparr>piecesDownloadedInInterval := 0\<rparr>"
  define t1 where "t1 = t\<lparr>tr_phase := Asleep, tr_manager := s1\<rparr>"
  have r: "track_step mc st t t1" using track_step.reset[OF p] by (simp add: t1_def s1_def)
  have n1: "\<not> isComplete s1" using nc by (simp add: s1_def isComplete_def)
  have w: "track_step mc st t1 (t1\<lparr>tr_phase := Tested\<rparr>)"
    using track_step.wake[of t1 mc st] n1 by (simp add: t1_def)
  have le: "length (havePieces s1) \<le> totalPieces s1" using inv have_le_total[of s1] by (simp add: s1_def pm_inv_def)
  have "displayProgressBar mc st 0 s1 = Inl (Undefined FloatToInteger)"
    using remaining_time_cases(1)[OF le] small
    by (simp add: s1_def displayProgressBar_def download_speed_def long_max_def)
  then have f: "track_step mc st (t1\<lparr>tr_phase := Tested\<rparr>) (t1\<lparr>tr_phase := Failed (Undefined FloatToInteger)\<rparr>)"
    using track_step.fail[of "t1\<lparr>tr_phase := Tested\<rparr>" mc st 0] by (simp add: t1_def)
  have "(track_step mc st)\<^sup>*\<^sup>* t (t1\<lparr>tr_phase := Failed (Undefined FloatToInteger)\<rparr>)"
    using r w f by (meson converse_rtranclp_into_rtranclp rtranclp.rtrancl_refl)
  then show "\<exists>t'. (track_step mc st)\<^sup>*\<^sup>* t t' \<and> tr_phase t' = Failed (Undefined FloatToInteger)"
    by (intro exI[of _ "t1\<lparr>tr_phase := Failed (Undefined FloatToInteger)\<rparr>"]) simp
qed

end
