(* ===== verification/Objects.thy ===== *)
theory Objects
  imports BItem
begin

text \<open>
  The objects behind the items of \<open>src/libs/bencode\<close>: \<open>BInteger\<close>, \<open>BString\<close>, \<open>BList\<close> and \<open>BDictionary\<close> are
  mutable and shared through pointers. A heap is the list of the objects in the order of their creation, a shared
  pointer an address or null; objects to which a pointer exists are never freed. Dictionaries are \<open>std::map\<close>s over
  pointers to strings whose comparator reads the strings. The operations are proved against the values of \<open>BItem\<close>.
\<close>

section \<open>Objects and pointers\<close>

type_synonym pointer = "nat option"

datatype object =
    IntegerObject cull
  | StringObject string
  | ListObject "pointer list"
  | DictionaryObject "(pointer \<times> pointer) list"

type_synonym heap = "object list"

fun object_at :: "heap \<Rightarrow> pointer \<Rightarrow> object option" where
  "object_at h None = None"
| "object_at h (Some a) = (if a < length h then Some (h ! a) else None)"

definition deref :: "heap \<Rightarrow> pointer \<Rightarrow> object res" where
  "deref h p = (case object_at h p of None \<Rightarrow> Inl (Undefined NullPointer) | Some ob \<Rightarrow> Inr ob)"

text \<open>The four \<open>create\<close> functions, and \<open>as<BString>()\<close>: null for an object of another class.\<close>

definition create_object :: "object \<Rightarrow> heap \<Rightarrow> heap \<times> pointer" where
  "create_object ob h = (h @ [ob], Some (length h))"

definition create_integer :: "cull \<Rightarrow> heap \<Rightarrow> heap \<times> pointer" where
  "create_integer n = create_object (IntegerObject n)"

definition create_string :: "string \<Rightarrow> heap \<Rightarrow> heap \<times> pointer" where
  "create_string s = create_object (StringObject s)"

definition create_list :: "pointer list \<Rightarrow> heap \<Rightarrow> heap \<times> pointer" where
  "create_list items = create_object (ListObject items)"

definition as_string :: "heap \<Rightarrow> pointer \<Rightarrow> pointer res" where
  "as_string h p = rbind (deref h p) (\<lambda>ob. Inr (case ob of StringObject s \<Rightarrow> p | _ \<Rightarrow> None))"

section \<open>Integers and strings\<close>

text \<open>
  The classes of the members are static types, so that the last branches cannot be reached from a program that
  compiles.
\<close>

definition string_value :: "heap \<Rightarrow> pointer \<Rightarrow> string res" where
  "string_value h p = rbind (deref h p) (\<lambda>ob. case ob of StringObject s \<Rightarrow> Inr s | _ \<Rightarrow> Inl (Undefined UninitPointer))"

definition string_length :: "heap \<Rightarrow> pointer \<Rightarrow> nat res" where
  "string_length h p = rbind (string_value h p) (\<lambda>s. Inr (length s))"

definition string_setValue :: "nat \<Rightarrow> string \<Rightarrow> heap \<Rightarrow> heap" where
  "string_setValue a s h = h[a := StringObject s]"

definition integer_value :: "heap \<Rightarrow> pointer \<Rightarrow> cull res" where
  "integer_value h p = rbind (deref h p) (\<lambda>ob. case ob of IntegerObject n \<Rightarrow> Inr n | _ \<Rightarrow> Inl (Undefined UninitPointer))"

definition integer_setValue :: "nat \<Rightarrow> cull \<Rightarrow> heap \<Rightarrow> heap" where
  "integer_setValue a n h = h[a := IntegerObject n]"

section \<open>Lists\<close>

text \<open>What a loop from \<open>begin()\<close> to \<open>end()\<close> runs through, and the operations on it.\<close>

definition list_elements :: "heap \<Rightarrow> nat \<Rightarrow> pointer list" where
  "list_elements h a = (case object_at h (Some a) of Some (ListObject ps) \<Rightarrow> ps | _ \<Rightarrow> [])"

definition list_size :: "heap \<Rightarrow> nat \<Rightarrow> nat" where
  "list_size h a = length (list_elements h a)"

definition list_empty :: "heap \<Rightarrow> nat \<Rightarrow> bool" where
  "list_empty h a = (list_elements h a = [])"

definition list_push_back :: "nat \<Rightarrow> pointer \<Rightarrow> heap \<Rightarrow> heap res" where
  "list_push_back a bItem h =
     (if bItem = None then Inl Aborted else Inr (h[a := ListObject (list_elements h a @ [bItem])]))"

definition list_pop_back :: "nat \<Rightarrow> heap \<Rightarrow> heap res" where
  "list_pop_back a h =
     (if list_empty h a then Inl Aborted else Inr (h[a := ListObject (butlast (list_elements h a))]))"

definition list_front :: "heap \<Rightarrow> nat \<Rightarrow> pointer res" where
  "list_front h a = (if list_empty h a then Inl Aborted else Inr (hd (list_elements h a)))"

definition list_back :: "heap \<Rightarrow> nat \<Rightarrow> pointer res" where
  "list_back h a = (if list_empty h a then Inl Aborted else Inr (last (list_elements h a)))"

section \<open>Dictionaries\<close>

text \<open>The comparator.\<close>

definition key_less :: "heap \<Rightarrow> pointer \<Rightarrow> pointer \<Rightarrow> bool res" where
  "key_less h lhs rhs = rbind (string_value h lhs) (\<lambda>s. rbind (string_value h rhs) (\<lambda>s'. Inr (s < s')))"

text \<open>The entries from \<open>begin()\<close> to \<open>end()\<close>.\<close>

definition dictionary_entries :: "heap \<Rightarrow> nat \<Rightarrow> (pointer \<times> pointer) list" where
  "dictionary_entries h a = (case object_at h (Some a) of Some (DictionaryObject es) \<Rightarrow> es | _ \<Rightarrow> [])"

definition dictionary_size :: "heap \<Rightarrow> nat \<Rightarrow> nat" where
  "dictionary_size h a = length (dictionary_entries h a)"

definition dictionary_empty :: "heap \<Rightarrow> nat \<Rightarrow> bool" where
  "dictionary_empty h a = (dictionary_entries h a = [])"

text \<open>
  \<open>std::map::operator[]\<close>: the first entry whose key is not less, or a new entry with a null pointer before it; with the
  position of the entry. The map must be in the order of the comparator, which a \<open>setValue\<close> of a key can break.
\<close>

fun in_order :: "heap \<Rightarrow> (pointer \<times> pointer) list \<Rightarrow> bool" where
  "in_order h ((k, _) # (k', p) # es) \<longleftrightarrow> key_less h k k' = Inr True \<and> in_order h ((k', p) # es)"
| "in_order h es \<longleftrightarrow> True"

fun find_or_insert :: "heap \<Rightarrow> pointer \<Rightarrow> (pointer \<times> pointer) list \<Rightarrow> ((pointer \<times> pointer) list \<times> nat) res" where
  "find_or_insert h key [] = Inr ([(key, None)], 0)"
| "find_or_insert h key ((k, p) # es) =
     rbind (key_less h k key) (\<lambda>before.
       if before then rbind (find_or_insert h key es) (\<lambda>(es', i). Inr ((k, p) # es', Suc i))
       else rbind (key_less h key k) (\<lambda>smaller.
         Inr (if smaller then (key, None) # (k, p) # es else (k, p) # es, 0)))"

definition dictionary_at :: "nat \<Rightarrow> pointer \<Rightarrow> heap \<Rightarrow> (heap \<times> nat) res" where
  "dictionary_at a key h =
     (if \<not> in_order h (dictionary_entries h a) then Inl (Undefined BrokenOrder)
      else rbind (find_or_insert h key (dictionary_entries h a)) (\<lambda>(es, i). Inr (h[a := DictionaryObject es], i)))"

text \<open>\<open>(*dictionary)[key]\<close> as a value, and \<open>(*dictionary)[key] = item\<close>.\<close>

definition dictionary_get :: "nat \<Rightarrow> pointer \<Rightarrow> heap \<Rightarrow> (heap \<times> pointer) res" where
  "dictionary_get a key h =
     rbind (dictionary_at a key h) (\<lambda>(h', i). Inr (h', snd (dictionary_entries h' a ! i)))"

definition dictionary_put :: "nat \<Rightarrow> pointer \<Rightarrow> pointer \<Rightarrow> heap \<Rightarrow> heap res" where
  "dictionary_put a key p h =
     rbind (dictionary_at a key h) (\<lambda>(h', i).
       let es = dictionary_entries h' a in Inr (h'[a := DictionaryObject (es[i := (fst (es ! i), p)])]))"

text \<open>The constructor from a list of pairs inserts a pair unless its key is there.\<close>

fun insert_pair :: "heap \<Rightarrow> pointer \<times> pointer \<Rightarrow> (pointer \<times> pointer) list \<Rightarrow> (pointer \<times> pointer) list res" where
  "insert_pair h (key, p) [] = Inr [(key, p)]"
| "insert_pair h (key, p) ((k, q) # es) =
     rbind (key_less h k key) (\<lambda>before.
       if before then rbind (insert_pair h (key, p) es) (\<lambda>es'. Inr ((k, q) # es'))
       else rbind (key_less h key k) (\<lambda>smaller.
         Inr (if smaller then (key, p) # (k, q) # es else (k, q) # es)))"

fun insert_pairs :: "heap \<Rightarrow> (pointer \<times> pointer) list \<Rightarrow> (pointer \<times> pointer) list \<Rightarrow> (pointer \<times> pointer) list res" where
  "insert_pairs h [] es = Inr es"
| "insert_pairs h (e # items) es = rbind (insert_pair h e es) (insert_pairs h items)"

definition create_dictionary :: "(pointer \<times> pointer) list \<Rightarrow> heap \<Rightarrow> (heap \<times> pointer) res" where
  "create_dictionary items h = rbind (insert_pairs h items []) (\<lambda>es. Inr (create_object (DictionaryObject es) h))"

section \<open>Visiting and searching\<close>

text \<open>
  \<open>accept\<close> calls the \<open>visit\<close> of the object's class, here of the encoder; the loops over the items get the visit of an item
  as a function. Objects can contain each other, so that a visit may not return.
\<close>

primrec visit_list :: "(pointer \<Rightarrow> string \<Rightarrow> string res) \<Rightarrow> pointer list \<Rightarrow> string \<Rightarrow> string res" where
  "visit_list accept [] out = Inr out"
| "visit_list accept (p # ps) out = rbind (accept p out) (visit_list accept ps)"

fun visit_dictionary :: "(pointer \<Rightarrow> string \<Rightarrow> string res) \<Rightarrow> (pointer \<times> pointer) list \<Rightarrow> string \<Rightarrow> string res" where
  "visit_dictionary accept [] out = Inr out"
| "visit_dictionary accept ((k, p) # es) out =
     rbind (accept k out) (\<lambda>out. rbind (accept p out) (visit_dictionary accept es))"

primrec accept_encoder :: "nat \<Rightarrow> heap \<Rightarrow> pointer \<Rightarrow> string \<Rightarrow> string res" where
  "accept_encoder 0 h p out = Inl OutOfFuel"
| "accept_encoder (Suc f) h p out =
     rbind (deref h p) (\<lambda>ob. case ob of
       IntegerObject n \<Rightarrow> Inr (out @ ''i'' @ dec_int (sint n) @ ''e'')
     | StringObject s \<Rightarrow> Inr (out @ dec_nat (length s) @ '':'' @ s)
     | ListObject ps \<Rightarrow> rbind (visit_list (accept_encoder f h) ps (out @ ''l'')) (\<lambda>out. Inr (out @ ''e''))
     | DictionaryObject es \<Rightarrow> rbind (visit_dictionary (accept_encoder f h) es (out @ ''d'')) (\<lambda>out. Inr (out @ ''e'')))"

abbreviation accept_items :: "nat \<Rightarrow> heap \<Rightarrow> pointer list \<Rightarrow> string \<Rightarrow> string res" where
  "accept_items f h \<equiv> visit_list (accept_encoder f h)"

abbreviation accept_pairs :: "nat \<Rightarrow> heap \<Rightarrow> (pointer \<times> pointer) list \<Rightarrow> string \<Rightarrow> string res" where
  "accept_pairs f h \<equiv> visit_dictionary (accept_encoder f h)"

text \<open>
  \<open>getValue\<close> returns a pointer. \<open>search_inside\<close> is the test of the class of an object, undefined for a null pointer, and the
  search of a nested object; lists are searched only inside dictionaries.
\<close>

fun find_in_dictionary :: "heap \<Rightarrow> string \<Rightarrow> (pointer \<Rightarrow> pointer res) \<Rightarrow> (pointer \<times> pointer) list \<Rightarrow> pointer res" where
  "find_in_dictionary h key inside [] = Inr None"
| "find_in_dictionary h key inside ((k, p) # es) =
     rbind (string_value h k) (\<lambda>s.
       if s = key then Inr p
       else rbind (inside p) (\<lambda>potentialValue.
         if potentialValue \<noteq> None then Inr potentialValue else find_in_dictionary h key inside es))"

primrec find_in_list :: "(pointer \<Rightarrow> pointer res) \<Rightarrow> pointer list \<Rightarrow> pointer res" where
  "find_in_list inside [] = Inr None"
| "find_in_list inside (p # ps) =
     rbind (inside p) (\<lambda>potentialValue. if potentialValue \<noteq> None then Inr potentialValue else find_in_list inside ps)"

primrec search_inside :: "nat \<Rightarrow> heap \<Rightarrow> string \<Rightarrow> bool \<Rightarrow> pointer \<Rightarrow> pointer res" where
  "search_inside 0 h key into_lists p = Inl OutOfFuel"
| "search_inside (Suc f) h key into_lists p =
     (case object_at h p of
        None \<Rightarrow> Inl (Undefined NullPointer)
      | Some ob \<Rightarrow>
          (case ob of
             DictionaryObject es \<Rightarrow> find_in_dictionary h key (search_inside f h key True) es
           | ListObject ps \<Rightarrow> if into_lists then find_in_list (search_inside f h key False) ps else Inr None
           | _ \<Rightarrow> Inr None))"

abbreviation search_dictionary :: "nat \<Rightarrow> heap \<Rightarrow> string \<Rightarrow> (pointer \<times> pointer) list \<Rightarrow> pointer res" where
  "search_dictionary f h key \<equiv> find_in_dictionary h key (search_inside f h key True)"

abbreviation search_list :: "nat \<Rightarrow> heap \<Rightarrow> string \<Rightarrow> pointer list \<Rightarrow> pointer res" where
  "search_list f h key \<equiv> find_in_list (search_inside f h key False)"

section \<open>What the objects hold\<close>

text \<open>The value that the object behind a pointer holds, with everything it points to.\<close>

fun holds :: "heap \<Rightarrow> bitem \<Rightarrow> pointer \<Rightarrow> bool"
  and holds_items :: "heap \<Rightarrow> bitem list \<Rightarrow> pointer list \<Rightarrow> bool"
  and holds_pairs :: "heap \<Rightarrow> (string, bitem) smap \<Rightarrow> (pointer \<times> pointer) list \<Rightarrow> bool" where
  "holds h (BInteger n) p = (object_at h p = Some (IntegerObject n))"
| "holds h (BString s) p = (object_at h p = Some (StringObject s))"
| "holds h (BList vs) p = (case object_at h p of Some (ListObject ps) \<Rightarrow> holds_items h vs ps | _ \<Rightarrow> False)"
| "holds h (BDictionary m) p = (case object_at h p of Some (DictionaryObject es) \<Rightarrow> holds_pairs h m es | _ \<Rightarrow> False)"
| "holds_items h [] ps = (ps = [])"
| "holds_items h (v # vs) ps = (case ps of [] \<Rightarrow> False | p # ps' \<Rightarrow> holds h v p \<and> holds_items h vs ps')"
| "holds_pairs h [] es = (es = [])"
| "holds_pairs h ((s, v) # m) es =
     (case es of [] \<Rightarrow> False
      | (k, p) # es' \<Rightarrow> object_at h k = Some (StringObject s) \<and> holds h v p \<and> holds_pairs h m es')"

lemma holds_not_null: "holds h v p \<Longrightarrow> p \<noteq> None"
  by (cases v; cases p) auto

lemma deref_holds: "object_at h p = Some ob \<Longrightarrow> deref h p = Inr ob"
  by (simp add: deref_def)

lemma string_value_holds: "object_at h k = Some (StringObject s) \<Longrightarrow> string_value h k = Inr s"
  by (simp add: string_value_def deref_holds)

lemma holds_container:
  "holds h (BList vs) p \<longleftrightarrow> (\<exists>ps. object_at h p = Some (ListObject ps) \<and> holds_items h vs ps)"
  "holds h (BDictionary m) p \<longleftrightarrow> (\<exists>es. object_at h p = Some (DictionaryObject es) \<and> holds_pairs h m es)"
  by (auto split: option.splits object.splits)

lemma holds_Cons:
  "holds_items h (v # vs) ps \<longleftrightarrow> (\<exists>p ps'. ps = p # ps' \<and> holds h v p \<and> holds_items h vs ps')"
  "holds_pairs h ((s, v) # m) es \<longleftrightarrow>
     (\<exists>k p es'. es = (k, p) # es' \<and> object_at h k = Some (StringObject s) \<and> holds h v p \<and> holds_pairs h m es')"
  by (auto split: list.splits)

text \<open>The value is determined by the heap.\<close>

lemma holds_unique:
  "holds h v p \<Longrightarrow> holds h w p \<Longrightarrow> w = v"
  "holds_items h vs ps \<Longrightarrow> holds_items h ws ps \<Longrightarrow> ws = vs"
  "holds_pairs h m es \<Longrightarrow> holds_pairs h m' es \<Longrightarrow> m' = m"
proof (induction h v p and h vs ps and h m es arbitrary: w and ws and m' rule: holds_holds_items_holds_pairs.induct)
  case (1 h n p)
  then show ?case by (cases w) (simp_all split: option.splits object.splits)
next
  case (2 h s p)
  then show ?case by (cases w) (simp_all split: option.splits object.splits)
next
  case (3 h vs p)
  from 3(2) obtain ps where ps: "object_at h p = Some (ListObject ps)" "holds_items h vs ps"
    unfolding holds_container by blast
  from 3(3) ps(1) 3(1)[OF ps(1) refl ps(2)] show ?case by (cases w) simp_all
next
  case (4 h m p)
  from 4(2) obtain es where es: "object_at h p = Some (DictionaryObject es)" "holds_pairs h m es"
    unfolding holds_container by blast
  from 4(3) es(1) 4(1)[OF es(1) refl es(2)] show ?case by (cases w) simp_all
next
  case (5 h ps)
  then show ?case by (cases ws) simp_all
next
  case (6 h v vs ps)
  from 6(3) obtain p ps' where p: "ps = p # ps'" "holds h v p" "holds_items h vs ps'" unfolding holds_Cons by blast
  from 6(4) p(1) 6(1)[OF p(1,2)] 6(2)[OF p(1,3)] show ?case by (cases ws) simp_all
next
  case (7 h es)
  then show ?case by (cases m') auto
next
  case (8 h s v m es)
  from 8(3) obtain k p es' where p: "es = (k, p) # es'" "object_at h k = Some (StringObject s)" "holds h v p" "holds_pairs h m es'"
    unfolding holds_Cons by blast
  from 8(4) p(1,2) 8(1)[OF p(1) refl p(3)] 8(2)[OF p(1) refl p(4)] show ?case by (cases m') auto
qed

section \<open>Sharing\<close>

fun children :: "object \<Rightarrow> pointer list" where
  "children (ListObject ps) = ps"
| "children (DictionaryObject es) = map fst es @ map snd es"
| "children _ = []"

definition points :: "heap \<Rightarrow> (nat \<times> nat) set" where
  "points h = {(a, b). a < length h \<and> Some b \<in> set (children (h ! a))}"

definition avoids :: "heap \<Rightarrow> nat \<Rightarrow> pointer \<Rightarrow> bool" where
  "avoids h a p \<longleftrightarrow> (\<forall>b. p = Some b \<longrightarrow> (b, a) \<notin> (points h)\<^sup>*)"

lemma avoids_children: "avoids h a p \<Longrightarrow> object_at h p = Some ob \<Longrightarrow> q \<in> set (children ob) \<Longrightarrow> avoids h a q"
  unfolding avoids_def points_def
  by (cases p) (auto split: if_splits intro: converse_rtrancl_into_rtrancl)

lemma avoids_other: "avoids h a p \<Longrightarrow> object_at (h[a := ob]) p = object_at h p"
  by (cases p) (auto simp: avoids_def, metis nth_list_update_neq rtrancl.rtrancl_refl)

text \<open>Assigning an object keeps every value that does not contain it.\<close>

lemma holds_update:
  "holds h v p \<Longrightarrow> avoids h a p \<Longrightarrow> holds (h[a := ob]) v p"
  "holds_items h vs ps \<Longrightarrow> list_all (avoids h a) ps \<Longrightarrow> holds_items (h[a := ob]) vs ps"
  "holds_pairs h m es \<Longrightarrow> list_all (\<lambda>(k, p). avoids h a k \<and> avoids h a p) es \<Longrightarrow> holds_pairs (h[a := ob]) m es"
proof (induction h v p and h vs ps and h m es rule: holds_holds_items_holds_pairs.induct)
  case (3 h vs p)
  then obtain ps where ps: "object_at h p = Some (ListObject ps)" "holds_items h vs ps"
    by (auto split: option.splits object.splits)
  have "list_all (avoids h a) ps" using avoids_children[OF 3(3) ps(1)] by (simp add: list_all_iff)
  with 3(1)[OF ps(1) refl ps(2)] ps(1) avoids_other[OF 3(3)] show ?case by simp
next
  case (4 h m p)
  then obtain es where es: "object_at h p = Some (DictionaryObject es)" "holds_pairs h m es"
    by (auto split: option.splits object.splits)
  have "list_all (\<lambda>(k, p). avoids h a k \<and> avoids h a p) es"
    using avoids_children[OF 4(3) es(1)] by (force simp: list_all_iff)
  with 4(1)[OF es(1) refl es(2)] es(1) avoids_other[OF 4(3)] show ?case by simp
next
  case (6 h v vs ps)
  then show ?case by (auto split: list.splits)
next
  case (8 h s v m es)
  then show ?case by (auto simp: avoids_other split: list.splits)
qed (simp_all add: avoids_other)

lemma holds_member:
  "holds_items h vs ps \<Longrightarrow> p \<in> set ps \<Longrightarrow> \<exists>v \<in> set vs. holds h v p"
  by (induction vs arbitrary: ps) (fastforce simp: holds_Cons simp del: holds_items.simps(2))+

lemma holds_pair_member:
  "holds_pairs h m es \<Longrightarrow> (k, p) \<in> set es \<Longrightarrow> \<exists>(s, v) \<in> set m. object_at h k = Some (StringObject s) \<and> holds h v p"
proof (induction m arbitrary: es)
  case (Cons e m)
  then show ?case by (cases e) (fastforce simp: holds_Cons simp del: holds_pairs.simps(2))
qed simp

text \<open>What an object contains has a shorter encoding, so that an object with a value never contains itself.\<close>

lemma bytes_member: "v \<in> set vs \<Longrightarrow> length (item_bytes v) < length (item_bytes (BList vs))"
  by (induction vs) auto

lemma bytes_pair_member:
  "(s, v) \<in> set m \<Longrightarrow> length (item_bytes v) < length (item_bytes (BDictionary m)) \<and>
     length (item_bytes (BString s)) < length (item_bytes (BDictionary m))"
proof (induction m)
  case (Cons e m)
  then show ?case by (cases e) auto
qed simp

lemma holds_child:
  assumes "holds h v p" "object_at h p = Some ob" "q \<in> set (children ob)"
  obtains w where "holds h w q" "length (item_bytes w) < length (item_bytes v)"
proof (cases v)
  case (BList vs)
  with assms(1,2) obtain ps where ps: "ob = ListObject ps" "holds_items h vs ps" unfolding BList holds_container by auto
  with assms(3) holds_member[OF ps(2)] bytes_member[of _ vs] that show thesis unfolding BList by fastforce
next
  case (BDictionary m)
  with assms(1,2) obtain es where es: "ob = DictionaryObject es" "holds_pairs h m es" unfolding BDictionary holds_container by auto
  from es(1) assms(3) consider p' where "(q, p') \<in> set es" | k where "(k, q) \<in> set es" by auto
  then show thesis
  proof cases
    case (1 p')
    with holds_pair_member[OF es(2)] obtain s w where "object_at h q = Some (StringObject s)" "(s, w) \<in> set m" by fastforce
    with that[of "BString s"] bytes_pair_member[of s w m] show thesis unfolding BDictionary by simp
  next
    case (2 k)
    with holds_pair_member[OF es(2)] obtain s w where "(s, w) \<in> set m" "holds h w q" by fastforce
    with that[of w] bytes_pair_member[of s w m] show thesis unfolding BDictionary by simp
  qed
qed (use assms in auto)

lemma holds_reachable:
  assumes "(a, b) \<in> (points h)\<^sup>*" "holds h v (Some a)"
  shows "\<exists>w. holds h w (Some b) \<and> length (item_bytes w) \<le> length (item_bytes v)"
  using assms(1)
proof (induction rule: rtrancl_induct)
  case base
  show ?case using assms(2) by blast
next
  case (step y z)
  then obtain w where w: "holds h w (Some y)" "length (item_bytes w) \<le> length (item_bytes v)" by blast
  from step(2) have yz: "object_at h (Some y) = Some (h ! y)" "Some z \<in> set (children (h ! y))" by (auto simp: points_def)
  obtain u where "holds h u (Some z)" "length (item_bytes u) < length (item_bytes w)" by (rule holds_child[OF w(1) yz])
  with w(2) show ?case by (intro exI[of _ u]) simp
qed

lemma holds_object: "holds h v (Some a) \<Longrightarrow> a < length h"
  by (cases v) (auto split: if_splits)

lemma no_cycle:
  assumes "holds h v (Some a)" "q \<in> set (children (h ! a))"
  shows "avoids h a q"
  unfolding avoids_def
proof (intro allI impI notI)
  fix b assume b: "q = Some b" "(b, a) \<in> (points h)\<^sup>*"
  have a: "object_at h (Some a) = Some (h ! a)" using holds_object[OF assms(1)] by simp
  obtain w where w: "holds h w q" "length (item_bytes w) < length (item_bytes v)" by (rule holds_child[OF assms(1) a assms(2)])
  then obtain u where u: "holds h u (Some a)" "length (item_bytes u) \<le> length (item_bytes w)"
    using holds_reachable[OF b(2)] b(1) by blast
  with holds_unique(1)[OF assms(1) u(1)] w(2) show False by simp
qed

section \<open>Operations on values\<close>

text \<open>What \<open>operator[]\<close> finds in a dictionary that holds a map, and where a value is put.\<close>

lemma key_less_strings:
  "object_at h k = Some (StringObject s) \<Longrightarrow> object_at h k' = Some (StringObject s') \<Longrightarrow> key_less h k k' = Inr (s < s')"
  by (simp add: key_less_def string_value_holds)

lemma in_order_holds: "holds_pairs h m es \<Longrightarrow> wf_map m \<Longrightarrow> in_order h es"
proof (induction m arbitrary: es)
  case (Cons e m)
  obtain s v where e: "e = (s, v)" by (cases e)
  from Cons.prems(1) obtain k p es' where es: "es = (k, p) # es'" "object_at h k = Some (StringObject s)" "holds_pairs h m es'"
    unfolding e holds_Cons by blast
  show ?case
  proof (cases m)
    case Nil
    with es show ?thesis by simp
  next
    case (Cons e' m')
    obtain s' v' where e': "e' = (s', v')" by (cases e')
    from es(3) obtain k' p' es2 where es': "es' = (k', p') # es2" "object_at h k' = Some (StringObject s')"
      unfolding Cons e' holds_Cons by blast
    have "s < s'" using Cons.prems(2) by (simp add: e Cons e' wf_map_Cons)
    with Cons.IH[OF es(3)] Cons.prems(2) es(1,2) es' e show ?thesis by (simp add: key_less_strings wf_map_Cons)
  qed
qed simp

definition place :: "heap \<Rightarrow> pointer \<Rightarrow> string \<Rightarrow> (string, bitem) smap \<Rightarrow> (pointer \<times> pointer) list \<Rightarrow>
    (pointer \<times> pointer) list \<Rightarrow> nat \<Rightarrow> bool" where
  "place h key s m es es' i \<longleftrightarrow> i < length es' \<and> set es' \<subseteq> insert (key, None) (set es) \<and>
    (\<forall>v p. holds h v p \<longrightarrow> holds_pairs h (map_set s v m) (es'[i := (fst (es' ! i), p)])) \<and>
    (case map_of m s of None \<Rightarrow> es' ! i = (key, None) | Some w \<Rightarrow> es' = es \<and> holds h w (snd (es ! i)))"

lemma place_later:
  assumes "place h key s m es es' i" "s1 < s" "object_at h k = Some (StringObject s1)" "holds h v1 p1"
  shows "place h key s ((s1, v1) # m) ((k, p1) # es) ((k, p1) # es') (Suc i)"
proof -
  have "s1 \<noteq> s" "\<not> s < s1" "\<not> s = s1" using assms(2) by auto
  with assms show ?thesis unfolding place_def by (auto split: option.splits)
qed

lemma find_or_insert_holds:
  assumes "holds_pairs h m es" "wf_map m" "object_at h key = Some (StringObject s)"
  shows "\<exists>es' i. find_or_insert h key es = Inr (es', i) \<and> place h key s m es es' i"
  using assms
proof (induction m arbitrary: es)
  case (Cons e m)
  obtain s1 v1 where e: "e = (s1, v1)" by (cases e)
  from Cons.prems(1) obtain k p1 es1 where es: "es = (k, p1) # es1" "object_at h k = Some (StringObject s1)"
    "holds h v1 p1" "holds_pairs h m es1" unfolding e holds_Cons by blast
  have wf: "wf_map m" "\<forall>s' \<in> fst ` set m. s1 < s'" using Cons.prems(2) by (auto simp: e wf_map_Cons)
  note less = key_less_strings[OF es(2) Cons.prems(3)] key_less_strings[OF Cons.prems(3) es(2)]
  consider "s1 < s" | "s < s1" | "s = s1" by fastforce
  then show ?case
  proof cases
    case 1
    obtain es' i where i: "find_or_insert h key es1 = Inr (es', i)" "place h key s m es1 es' i"
      using Cons.IH[OF es(4) wf(1) Cons.prems(3)] by blast
    have "find_or_insert h key es = Inr ((k, p1) # es', Suc i)"
      using 1 i(1) less by (simp add: es(1))
    with place_later[OF i(2) 1 es(2,3)] show ?thesis unfolding e es(1) by blast
  next
    case 2
    then have ns: "\<not> s1 < s" "s \<noteq> s1" by auto
    have no: "map_of m s = None" using 2 wf(2) by (fastforce simp: map_of_eq_None_iff)
    have "find_or_insert h key es = Inr ((key, None) # es, 0)" using 2 ns less by (simp add: es(1))
    moreover have "place h key s (e # m) es ((key, None) # es) 0"
      using ns 2 no es Cons.prems(3) by (simp add: place_def e subset_insertI)
    ultimately show ?thesis by blast
  next
    case 3
    then have "find_or_insert h key es = Inr (es, 0)" using less by (simp add: es(1))
    moreover have "place h key s (e # m) es es 0"
      using 3 es by (simp add: place_def e subset_insertI)
    ultimately show ?thesis by blast
  qed
next
  case Nil
  then show ?case by (intro exI[of _ "[(key, None)]"] exI[of _ 0] conjI) (simp_all add: place_def)
qed

lemma holds_entries:
  assumes "holds h (BDictionary m) (Some d)"
  shows "d < length h" "h ! d = DictionaryObject (dictionary_entries h d)" "holds_pairs h m (dictionary_entries h d)"
  using assms by (auto simp: dictionary_entries_def split: option.splits object.splits if_splits)

lemma avoids_entries:
  assumes "holds h (BDictionary m) (Some d)"
  shows "list_all (\<lambda>(k, p). avoids h d k \<and> avoids h d p) (dictionary_entries h d)"
proof -
  have "q \<in> set (map fst (dictionary_entries h d) @ map snd (dictionary_entries h d)) \<Longrightarrow> avoids h d q" for q
    using no_cycle[OF assms] holds_entries(2)[OF assms] by (metis children.simps(2))
  then show ?thesis by (force simp: list_all_iff)
qed

lemma string_avoids:
  assumes "object_at h key = Some (StringObject s)" "holds h (BDictionary m) (Some d)"
  shows "avoids h d key"
  unfolding avoids_def
proof (intro allI impI notI)
  fix b assume b: "key = Some b" "(b, d) \<in> (points h)\<^sup>*"
  from assms(1) b(1) have "h ! b = StringObject s" by (auto split: if_splits)
  with b(2) have "b = d" by (auto simp: points_def elim: converse_rtranclE)
  with \<open>h ! b = StringObject s\<close> holds_entries(2)[OF assms(2)] show False by simp
qed

lemma dictionary_entries_assign [simp]: "d < length h \<Longrightarrow> dictionary_entries (h[d := DictionaryObject es]) d = es"
  by (simp add: dictionary_entries_def)

lemma dictionary_at_holds:
  assumes "holds h (BDictionary m) (Some d)" "wf_map m" "object_at h key = Some (StringObject s)"
  obtains es' i where "dictionary_at d key h = Inr (h[d := DictionaryObject es'], i)"
    "place h key s m (dictionary_entries h d) es' i"
proof -
  note es = holds_entries[OF assms(1)]
  obtain es' i where "find_or_insert h key (dictionary_entries h d) = Inr (es', i)" "place h key s m (dictionary_entries h d) es' i"
    using find_or_insert_holds[OF es(3) assms(2,3)] by blast
  with that[of es' i] in_order_holds[OF es(3) assms(2)] show thesis by (simp add: dictionary_at_def)
qed

lemma dictionary_put_holds:
  assumes "holds h (BDictionary m) (Some d)" "wf_map m" "object_at h key = Some (StringObject s)" "holds h v p" "avoids h d p"
  obtains es where "dictionary_put d key p h = Inr (h[d := DictionaryObject es])"
    "holds (h[d := DictionaryObject es]) (BDictionary (map_set s v m)) (Some d)"
proof -
  note d = holds_entries[OF assms(1)]
  obtain es' i where at: "dictionary_at d key h = Inr (h[d := DictionaryObject es'], i)"
    and pl: "place h key s m (dictionary_entries h d) es' i" by (rule dictionary_at_holds[OF assms(1-3)])
  define es where "es = es'[i := (fst (es' ! i), p)]"
  have "dictionary_put d key p h = Inr (h[d := DictionaryObject es])"
    using d(1) by (simp add: dictionary_put_def at es_def Let_def)
  moreover have "holds_pairs h (map_set s v m) es" using pl assms(4) by (simp add: place_def es_def)
  moreover have "list_all (\<lambda>(k, p). avoids h d k \<and> avoids h d p) es"
  proof -
    have in_es: "(k, q) \<in> set es' \<Longrightarrow> avoids h d k \<and> avoids h d q" for k q
      using pl avoids_entries[OF assms(1)] string_avoids[OF assms(3,1)]
      by (cases q) (fastforce simp: place_def list_all_iff avoids_def)+
    moreover have "avoids h d (fst (es' ! i))"
      using pl in_es[of "fst (es' ! i)" "snd (es' ! i)"] by (simp add: place_def)
    ultimately show ?thesis using assms(5) unfolding es_def list_all_iff
      by (auto dest!: set_update_subset_insert[THEN subsetD])
  qed
  ultimately have "holds_pairs (h[d := DictionaryObject es]) (map_set s v m) es" using holds_update(3) by blast
  with that[of es] \<open>dictionary_put d key p h = _\<close> d(1) show thesis by simp
qed

text \<open>The visitor writes the encoding of the value, and the search finds what the search in the value finds.\<close>

lemma accept_holds:
  "holds h v p \<Longrightarrow> length (item_bytes v) \<le> f \<Longrightarrow> accept_encoder f h p out = Inr (out @ item_bytes v)"
  "holds_items h vs ps \<Longrightarrow> length (concat (map item_bytes vs)) \<le> f \<Longrightarrow>
     accept_items f h ps out = Inr (out @ concat (map item_bytes vs))"
  "holds_pairs h m es \<Longrightarrow> length (concat (map (\<lambda>(k, v). item_bytes (BString k) @ item_bytes v) m)) \<le> f \<Longrightarrow>
     accept_pairs f h es out = Inr (out @ concat (map (\<lambda>(k, v). item_bytes (BString k) @ item_bytes v) m))"
proof (induction h v p and h vs ps and h m es arbitrary: f out and f out and f out rule: holds_holds_items_holds_pairs.induct)
  case (1 h n p)
  then show ?case by (cases f) (simp_all add: deref_holds)
next
  case (2 h s p)
  then show ?case by (cases f) (simp_all add: deref_holds)
next
  case (3 h vs p)
  from 3(2) obtain ps where ps: "object_at h p = Some (ListObject ps)" "holds_items h vs ps" unfolding holds_container by blast
  obtain g where "f = Suc g" using 3(3) by (cases f) auto
  with 3(1)[OF ps(1) refl ps(2), of g "out @ ''l''"] 3(3) ps(1) show ?case by (simp add: deref_holds)
next
  case (4 h m p)
  from 4(2) obtain es where es: "object_at h p = Some (DictionaryObject es)" "holds_pairs h m es" unfolding holds_container by blast
  obtain g where "f = Suc g" using 4(3) by (cases f) auto
  with 4(1)[OF es(1) refl es(2), of g "out @ ''d''"] 4(3) es(1) show ?case by (simp add: deref_holds)
next
  case (6 h v vs ps)
  from 6(3) obtain p ps' where p: "ps = p # ps'" "holds h v p" "holds_items h vs ps'" unfolding holds_Cons by blast
  with 6(1)[OF p(1,2), of f out] 6(2)[OF p(1,3), of f "out @ item_bytes v"] 6(4) show ?case by simp
next
  case (8 h s v m es)
  from 8(3) obtain k p es' where p: "es = (k, p) # es'" "object_at h k = Some (StringObject s)" "holds h v p" "holds_pairs h m es'"
    unfolding holds_Cons by blast
  obtain g where "f = Suc g" using 8(4) by (cases f) auto
  then have "accept_encoder f h k out = Inr (out @ item_bytes (BString s))" using p(2) by (simp add: deref_holds)
  with 8(1)[OF p(1) refl p(3), of f "out @ item_bytes (BString s)"] 8(2)[OF p(1) refl p(4), of f "out @ item_bytes (BString s) @ item_bytes v"] 8(4) p(1)
  show ?case by simp
qed auto

definition found_as :: "heap \<Rightarrow> bitem option \<Rightarrow> pointer res \<Rightarrow> bool" where
  "found_as h w r \<longleftrightarrow> (\<exists>q. r = Inr q \<and> (case w of None \<Rightarrow> q = None | Some v \<Rightarrow> holds h v q))"

definition nested_getValue :: "bool \<Rightarrow> string \<Rightarrow> bitem \<Rightarrow> bitem option" where
  "nested_getValue into_lists key v =
     (case v of BDictionary d \<Rightarrow> dict_getValue key d | BList l \<Rightarrow> if into_lists then list_getValue key l else None | _ \<Rightarrow> None)"

lemma found_as_bind:
  assumes "found_as h a r" "found_as h b r'"
  shows "found_as h (case a of Some w \<Rightarrow> Some w | None \<Rightarrow> b) (rbind r (\<lambda>q. if q \<noteq> None then Inr q else r'))"
  using assms by (auto simp: found_as_def split: option.splits dest: holds_not_null)

lemma search_holds:
  "holds h v p \<Longrightarrow> length (item_bytes v) \<le> f \<Longrightarrow> found_as h (nested_getValue into_lists key v) (search_inside f h key into_lists p)"
  "holds_items h vs ps \<Longrightarrow> length (concat (map item_bytes vs)) \<le> f \<Longrightarrow> found_as h (list_getValue key vs) (search_list f h key ps)"
  "holds_pairs h m es \<Longrightarrow> length (concat (map (\<lambda>(k, v). item_bytes (BString k) @ item_bytes v) m)) \<le> f \<Longrightarrow>
     found_as h (dict_getValue key m) (search_dictionary f h key es)"
proof (induction h v p and h vs ps and h m es arbitrary: f into_lists and f and f rule: holds_holds_items_holds_pairs.induct)
  case (1 h n p)
  then show ?case by (cases f) (simp_all add: found_as_def nested_getValue_def)
next
  case (2 h s p)
  then show ?case by (cases f) (simp_all add: found_as_def nested_getValue_def)
next
  case (3 h vs p)
  from 3(2) obtain ps where ps: "object_at h p = Some (ListObject ps)" "holds_items h vs ps" unfolding holds_container by blast
  obtain g where "f = Suc g" using 3(3) by (cases f) auto
  with 3(1)[OF ps(1) refl ps(2), of g] 3(3) ps(1) show ?case by (simp add: nested_getValue_def found_as_def)
next
  case (4 h m p)
  from 4(2) obtain es where es: "object_at h p = Some (DictionaryObject es)" "holds_pairs h m es" unfolding holds_container by blast
  obtain g where "f = Suc g" using 4(3) by (cases f) auto
  with 4(1)[OF es(1) refl es(2), of g] 4(3) es(1) show ?case by (simp add: nested_getValue_def)
next
  case (6 h v vs ps)
  from 6(3) obtain p ps' where p: "ps = p # ps'" "holds h v p" "holds_items h vs ps'" unfolding holds_Cons by blast
  have "list_getValue key (v # vs) = (case nested_getValue False key v of Some w \<Rightarrow> Some w | None \<Rightarrow> list_getValue key vs)"
    by (cases v) (simp_all add: nested_getValue_def)
  with found_as_bind[OF 6(1)[OF p(1,2), of f False] 6(2)[OF p(1,3), of f]] 6(4) p(1) show ?case by simp
next
  case (8 h s v m es)
  from 8(3) obtain k p es' where p: "es = (k, p) # es'" "object_at h k = Some (StringObject s)" "holds h v p" "holds_pairs h m es'"
    unfolding holds_Cons by blast
  show ?case
  proof (cases "s = key")
    case True
    with p string_value_holds[OF p(2)] show ?thesis by (simp add: found_as_def)
  next
    case False
    have "dict_getValue key ((s, v) # m) = (case nested_getValue True key v of Some w \<Rightarrow> Some w | None \<Rightarrow> dict_getValue key m)"
      using False by (cases v) (simp_all add: nested_getValue_def)
    with found_as_bind[OF 8(1)[OF p(1) refl p(3), of f True] 8(2)[OF p(1) refl p(4), of f]] 8(4) p(1)
      string_value_holds[OF p(2)] False
    show ?thesis by simp
  qed
qed (auto simp: found_as_def)

section \<open>Lists\<close>

lemma holds_items_append: "holds_items h vs ps \<Longrightarrow> holds h v p \<Longrightarrow> holds_items h (vs @ [v]) (ps @ [p])"
proof (induction vs arbitrary: ps)
  case (Cons w vs)
  from Cons.prems(1) obtain q qs where "ps = q # qs" "holds h w q" "holds_items h vs qs" unfolding holds_Cons by blast
  with Cons.IH Cons.prems(2) show ?case by simp
qed simp

lemma holds_items_butlast: "holds_items h vs ps \<Longrightarrow> holds_items h (butlast vs) (butlast ps)"
proof (induction vs arbitrary: ps)
  case (Cons w vs)
  from Cons.prems(1) obtain q qs where "ps = q # qs" "holds h w q" "holds_items h vs qs" unfolding holds_Cons by blast
  with Cons.IH[of qs] show ?case by (cases vs; cases qs) auto
qed simp

lemma holds_items_ends:
  "holds_items h vs ps \<Longrightarrow> length ps = length vs \<and> (vs \<noteq> [] \<longrightarrow> holds h (hd vs) (hd ps) \<and> holds h (last vs) (last ps))"
proof (induction vs arbitrary: ps)
  case (Cons w vs)
  from Cons.prems(1) obtain q qs where "ps = q # qs" "holds h w q" "holds_items h vs qs" unfolding holds_Cons by blast
  with Cons.IH[of qs] show ?case by (cases vs; cases qs) auto
qed simp

lemma holds_elements:
  assumes "holds h (BList vs) (Some a)"
  shows "a < length h" "h ! a = ListObject (list_elements h a)" "holds_items h vs (list_elements h a)"
    "list_all (avoids h a) (list_elements h a)"
  using assms no_cycle[OF assms]
  by (auto simp: list_elements_def list_all_iff split: option.splits object.splits if_splits)

text \<open>The operations of a list object are those of the list that it holds.\<close>

lemma list_object_operations:
  assumes "holds h (BList vs) (Some a)"
  shows "list_size h a = length vs" "list_empty h a \<longleftrightarrow> vs = []"
    and "holds h v p \<Longrightarrow> avoids h a p \<Longrightarrow>
      \<exists>h'. list_push_back a p h = Inr h' \<and> holds h' (BList (vs @ [v])) (Some a)"
    and "vs \<noteq> [] \<Longrightarrow> \<exists>h'. list_pop_back a h = Inr h' \<and> holds h' (BList (butlast vs)) (Some a)"
    and "vs \<noteq> [] \<Longrightarrow> \<exists>p q. list_front h a = Inr p \<and> holds h (hd vs) p \<and> list_back h a = Inr q \<and> holds h (last vs) q"
    and "vs = [] \<Longrightarrow> list_pop_back a h = Inl Aborted \<and> list_front h a = Inl Aborted \<and> list_back h a = Inl Aborted"
proof -
  note e = holds_elements[OF assms]
  note ends = holds_items_ends[OF e(3)]
  show empty: "list_empty h a \<longleftrightarrow> vs = []" using ends by (auto simp: list_empty_def)
  show "list_size h a = length vs" using ends by (simp add: list_size_def)
  have assign: "holds (h[a := ListObject ps]) (BList ws) (Some a)" if "holds_items h ws ps" "list_all (avoids h a) ps" for ws ps
    using holds_update(2)[OF that] e(1) by simp
  show "\<exists>h'. list_push_back a p h = Inr h' \<and> holds h' (BList (vs @ [v])) (Some a)" if "holds h v p" "avoids h a p"
    using assign[OF holds_items_append[OF e(3) that(1)]] e(4) that holds_not_null[OF that(1)]
    by (simp add: list_push_back_def)
  show "\<exists>h'. list_pop_back a h = Inr h' \<and> holds h' (BList (butlast vs)) (Some a)" if "vs \<noteq> []"
    using assign[OF holds_items_butlast[OF e(3)]] e(4) that empty
    by (simp add: list_pop_back_def list_all_iff in_set_butlastD)
  show "\<exists>p q. list_front h a = Inr p \<and> holds h (hd vs) p \<and> list_back h a = Inr q \<and> holds h (last vs) q" if "vs \<noteq> []"
    using ends that empty by (simp add: list_front_def list_back_def)
  show "vs = [] \<Longrightarrow> list_pop_back a h = Inl Aborted \<and> list_front h a = Inl Aborted \<and> list_back h a = Inl Aborted"
    using empty by (simp add: list_pop_back_def list_front_def list_back_def)
qed

text \<open>A list that is pushed onto itself: the visit never returns.\<close>

lemma self_list_never_encoded:
  assumes "h ! a = ListObject []" "a < length h"
  shows "\<exists>h'. list_push_back a (Some a) h = Inr h' \<and> (\<forall>fuel out. accept_encoder fuel h' (Some a) out = Inl OutOfFuel)"
proof -
  let ?h = "h[a := ListObject [Some a]]"
  have "accept_encoder fuel ?h (Some a) out = Inl OutOfFuel" for fuel out
    using assms(2) by (induction fuel arbitrary: out) (simp_all add: deref_def)
  then show ?thesis using assms by (simp add: list_push_back_def list_elements_def)
qed

text \<open>A key is shared with the program that created it: setting it to a greater string breaks the order of the map.\<close>

lemma setValue_breaks_order:
  assumes "d < length h" "h ! d = DictionaryObject ((Some a, p) # (k, q) # es)" "object_at h (Some a) = Some (StringObject s)"
    and "object_at h k = Some (StringObject t)" "k \<noteq> Some a" "\<not> new < t"
  shows "dictionary_at d key (string_setValue a new h) = Inl (Undefined BrokenOrder)"
proof -
  let ?h = "string_setValue a new h"
  have "a \<noteq> d" using assms(2,3) by (auto split: if_splits)
  then have "dictionary_entries ?h d = (Some a, p) # (k, q) # es"
    using assms(1,2) by (simp add: dictionary_entries_def string_setValue_def)
  moreover have "object_at ?h k = Some (StringObject t)"
    using assms(4,5) by (cases k) (auto simp: string_setValue_def split: if_splits)
  moreover have "object_at ?h (Some a) = Some (StringObject new)"
    using assms(3) by (auto simp: string_setValue_def split: if_splits)
  ultimately show ?thesis using key_less_strings[of ?h "Some a" new k t] assms(6) by (simp add: dictionary_at_def)
qed

section \<open>A key that is not there\<close>

lemma holds_pairs_take: "holds_pairs h m es \<Longrightarrow> holds_pairs h (take i m) (take i es)"
proof (induction m arbitrary: es i)
  case (Cons e m)
  obtain s v where e: "e = (s, v)" by (cases e)
  from Cons.prems obtain k p es' where "es = (k, p) # es'" "object_at h k = Some (StringObject s)" "holds h v p" "holds_pairs h m es'"
    unfolding e holds_Cons by blast
  with Cons.IH[of es' "i - 1"] show ?case by (cases i) (simp_all add: e)
qed simp

lemma accept_pairs_append: "accept_pairs f h es out = Inr out' \<Longrightarrow> accept_pairs f h (es @ es') out = accept_pairs f h es' out'"
proof (induction es arbitrary: out)
  case (Cons e es)
  then show ?case by (cases e) (auto simp: rbind_Inr_iff)
qed simp

lemma search_append:
  assumes "search_dictionary f h key es = Inr None" "\<And>k p. (k, p) \<in> set es \<Longrightarrow> string_value h k \<noteq> Inr key"
  shows "search_dictionary f h key (es @ es') = search_dictionary f h key es'"
  using assms
proof (induction es)
  case (Cons e es)
  then show ?case by (cases e) (fastforce simp: rbind_Inr_iff split: if_splits)
qed simp

lemma getValue_absent_key: "map_of m s = None \<Longrightarrow> k \<noteq> s \<Longrightarrow> dict_getValue k (map_set s (BString s) m) = dict_getValue k m"
proof (induction m)
  case (Cons e m)
  then show ?case by (cases e) (auto split: option.splits bitem.splits)
qed simp

lemma getValue_take: "dict_getValue k m = None \<Longrightarrow> dict_getValue k (take i m) = None"
proof (induction m arbitrary: i)
  case (Cons e m)
  then show ?case by (cases e; cases i) (auto split: option.splits if_splits)
qed simp

lemma holds_pairs_length: "holds_pairs h m es \<Longrightarrow> length es = length m"
proof (induction m arbitrary: es)
  case (Cons e m)
  then show ?case by (cases e) (auto simp: holds_Cons simp del: holds_pairs.simps(2))
qed simp

lemma length_map_set_new: "map_of m s = None \<Longrightarrow> length (map_set s v m) = Suc (length m)"
  by (induction s v m rule: map_set.induct) (auto split: if_splits)

lemma concat_take_le: "length (concat (map f (take i xs))) \<le> length (concat (map f xs))"
  by (metis append_take_drop_id concat_append length_append le_add1 map_append)

section \<open>Properties\<close>

text \<open>
  C22. Refinement: \<open>(*dictionary)[key] = item\<close> on an object that holds a map, for an item that does not contain the
  dictionary, makes it hold the updated map, and leaves every value that does not contain it alone. Then the encoder writes
  the encoding of the updated map, and the search finds a pointer to exactly what the search in the map finds.
\<close>

theorem dictionary_put_refines:
  assumes "holds h (BDictionary m) (Some d)" "wf_map m" "holds h (BString s) key" "holds h v p" "avoids h d p"
  shows "\<exists>h'. dictionary_put d key p h = Inr h' \<and>
    holds h' (BDictionary (map_set s v m)) (Some d) \<and>
    (\<forall>w q. holds h w q \<and> avoids h d q \<longrightarrow> holds h' w q) \<and>
    (\<forall>fuel \<ge> length (lib_encode (BDictionary (map_set s v m))).
      accept_encoder fuel h' (Some d) [] = Inr (lib_encode (BDictionary (map_set s v m))) \<and>
      (\<forall>k. case dict_getValue k (map_set s v m) of
         None \<Rightarrow> search_dictionary fuel h' k (dictionary_entries h' d) = Inr None
       | Some w \<Rightarrow> \<exists>q. search_dictionary fuel h' k (dictionary_entries h' d) = Inr q \<and> holds h' w q))"
proof -
  have key: "object_at h key = Some (StringObject s)" using assms(3) by simp
  obtain es where put: "dictionary_put d key p h = Inr (h[d := DictionaryObject es])"
    and new: "holds (h[d := DictionaryObject es]) (BDictionary (map_set s v m)) (Some d)" (is "holds ?h' ?v _")
    by (rule dictionary_put_holds[OF assms(1,2) key assms(4,5)])
  have "accept_encoder fuel ?h' (Some d) [] = Inr (lib_encode ?v)" if "length (lib_encode ?v) \<le> fuel" for fuel
    using accept_holds(1)[OF new] that by (simp add: lib_encode_bytes)
  moreover have "case dict_getValue k (map_set s v m) of
         None \<Rightarrow> search_dictionary fuel ?h' k (dictionary_entries ?h' d) = Inr None
       | Some w \<Rightarrow> \<exists>q. search_dictionary fuel ?h' k (dictionary_entries ?h' d) = Inr q \<and> holds ?h' w q"
    if "length (lib_encode ?v) \<le> fuel" for fuel k
    using search_holds(3)[OF holds_entries(3)[OF new], of fuel k] that
    by (auto simp: found_as_def lib_encode_bytes split: option.splits)
  ultimately show ?thesis using put new holds_update(1) by blast
qed

text \<open>A dictionary with one entry that is a list; the list is then put under another key too.\<close>

definition ex_heap :: heap where
  "ex_heap = [StringObject ''b'', IntegerObject 7, ListObject [Some 1], DictionaryObject [(Some 0, Some 2)], StringObject ''a'']"

lemma dictionary_put_refines_witness:
  "\<exists>h'. dictionary_put 3 (Some 4) (Some 2) ex_heap = Inr h' \<and>
     accept_encoder 20 h' (Some 3) [] = Inr ''d1:ali7ee1:bli7eee'' \<and>
     (\<exists>q. search_dictionary 20 h' ''a'' (dictionary_entries h' 3) = Inr q \<and> holds h' (BList [BInteger 7]) q)"
proof -
  let ?m = "[(''b'', BList [BInteger 7])]"
  have hold: "holds ex_heap (BDictionary ?m) (Some 3)" "holds ex_heap (BString ''a'') (Some 4)" "holds ex_heap (BList [BInteger 7]) (Some 2)"
    by (simp_all add: ex_heap_def)
  have points: "points ex_heap = {(2, 1), (3, 0), (3, 2)}"
    by (auto simp: points_def ex_heap_def nth_Cons' split: if_splits)
  have reach: "b \<in> {2, 1}" if "(2, b) \<in> (points ex_heap)\<^sup>*" for b
    using that by (induction rule: rtrancl_induct) (auto simp: points)
  have "avoids ex_heap 3 (Some 2)" using reach[of 3] by (auto simp: avoids_def)
  moreover have "wf_map ?m" by (simp add: wf_map_def)
  ultimately obtain h' where h': "dictionary_put 3 (Some 4) (Some 2) ex_heap = Inr h'"
    "\<forall>fuel \<ge> length (lib_encode (BDictionary (map_set ''a'' (BList [BInteger 7]) ?m))).
      accept_encoder fuel h' (Some 3) [] = Inr (lib_encode (BDictionary (map_set ''a'' (BList [BInteger 7]) ?m))) \<and>
      (\<forall>k. case dict_getValue k (map_set ''a'' (BList [BInteger 7]) ?m) of
         None \<Rightarrow> search_dictionary fuel h' k (dictionary_entries h' 3) = Inr None
       | Some w \<Rightarrow> \<exists>q. search_dictionary fuel h' k (dictionary_entries h' 3) = Inr q \<and> holds h' w q)"
    using dictionary_put_refines[OF hold(1) _ hold(2,3)] by blast
  have "lib_encode (BDictionary (map_set ''a'' (BList [BInteger 7]) ?m)) = ''d1:ali7ee1:bli7eee''"
    "dict_getValue ''a'' (map_set ''a'' (BList [BInteger 7]) ?m) = Some (BList [BInteger 7])"
    by (simp_all add: lib_encode_bytes dec_int_def dec_nat.simps less_char_def)
  note enc = this
  have "accept_encoder 20 h' (Some 3) [] = Inr ''d1:ali7ee1:bli7eee''"
    using h'(2)[rule_format, of 20, THEN conjunct1] enc(1) by simp
  moreover have "\<exists>q. search_dictionary 20 h' ''a'' (dictionary_entries h' 3) = Inr q \<and> holds h' (BList [BInteger 7]) q"
    using h'(2)[rule_format, of 20, THEN conjunct2, THEN spec[of _ "''a''"]] enc
    by (simp del: holds.simps map_set.simps dict_getValue.simps)
  ultimately show ?thesis using h'(1) by blast
qed

text \<open>A null item after entries that hold a map: the visit dereferences it, and so does a search that reaches it.\<close>

lemma null_item_visited:
  assumes "holds_pairs h m es" "object_at h key = Some (StringObject s)"
    and "length (concat (map (\<lambda>(k, v). item_bytes (BString k) @ item_bytes v) m)) \<le> fuel" "0 < fuel"
  shows "accept_pairs fuel h (es @ (key, None) # es') out = Inl (Undefined NullPointer)"
proof -
  obtain f where f: "fuel = Suc f" using assms(4) by (cases fuel) auto
  show ?thesis
    using accept_pairs_append[OF accept_holds(3)[OF assms(1,3)]] assms(2) by (simp add: f deref_def)
qed

lemma null_item_searched:
  assumes "holds_pairs h m es" "object_at h key = Some (StringObject s)"
    and "length (concat (map (\<lambda>(k, v). item_bytes (BString k) @ item_bytes v) m)) \<le> fuel" "0 < fuel"
    and "k \<noteq> s" "dict_getValue k m = None"
  shows "search_dictionary fuel h k (es @ (key, None) # es') = Inl (Undefined NullPointer)"
proof -
  have none: "search_dictionary fuel h k es = Inr None"
    using search_holds(3)[OF assms(1,3), of k] assms(6) by (simp add: found_as_def)
  have other: "string_value h q \<noteq> Inr k" if mem: "(q, p) \<in> set es" for q p
  proof
    assume sv: "string_value h q = Inr k"
    obtain t v where "(t, v) \<in> set m" "object_at h q = Some (StringObject t)"
      using holds_pair_member[OF assms(1) mem] by blast
    moreover from this sv have "t = k" by (simp add: string_value_holds)
    ultimately have "(k, v) \<in> set (all_entries (BDictionary m))" by fastforce
    then have "map_of (all_entries (BDictionary m)) k \<noteq> None" by (metis map_of_eq_None_iff image_eqI fst_conv)
    with assms(6) show False by (simp add: getValue_entries(1))
  qed
  have "search_dictionary fuel h k (es @ (key, None) # es') = search_dictionary fuel h k ((key, None) # es')"
    by (rule search_append[OF none]) (rule other)
  then show ?thesis using assms(2,4,5) by (cases fuel) (simp_all add: string_value_holds)
qed

text \<open>
  C25. Reading a key that is not there through \<open>operator[]\<close> returns null and leaves a null item in the dictionary: from
  then on the encoder dereferences it, and so does the search for any other key that
  is not found in the dictionary or inside its values. (\<open>typeid(*item)\<close> applies the \<open>operator*\<close> of a null \<open>shared_ptr\<close>, which is undefined: \<open>bad_typeid\<close>
  is thrown for a null pointer only.)
\<close>

theorem missing_key_poisons:
  assumes "holds h (BDictionary m) (Some d)" "wf_map m" "holds h (BString s) key" "map_get m s = None"
  shows "\<exists>h'. dictionary_get d key h = Inr (h', None) \<and> dictionary_size h' d = Suc (dictionary_size h d) \<and>
    (\<forall>fuel > length (lib_encode (BDictionary (map_set s (BString s) m))).
      (\<forall>out. accept_encoder fuel h' (Some d) out = Inl (Undefined NullPointer)) \<and>
      (\<forall>k. k \<noteq> s \<and> dict_getValue k m = None \<longrightarrow> search_dictionary fuel h' k (dictionary_entries h' d) = Inl (Undefined NullPointer)))"
proof -
  note d = holds_entries[OF assms(1)]
  have key: "object_at h key = Some (StringObject s)" using assms(3) by simp
  obtain es i where at: "dictionary_at d key h = Inr (h[d := DictionaryObject es], i)"
    and pl: "place h key s m (dictionary_entries h d) es i" by (rule dictionary_at_holds[OF assms(1,2) key])
  let ?h = "h[d := DictionaryObject es]" and ?M = "map_set s (BString s) m" and ?pre = "take i es"
  have no: "map_of m s = None" using assms(4) by (simp add: map_get_def)
  have i: "i < length es" "es ! i = (key, None)" and sub: "set es \<subseteq> insert (key, None) (set (dictionary_entries h d))"
    using pl no by (simp_all add: place_def)
  have split: "es = ?pre @ (key, None) # drop (Suc i) es" using i by (metis id_take_nth_drop)
  have M: "holds_pairs h ?M (es[i := (key, key)])" using pl assms(3) i(2) by (fastforce simp: place_def)
  then have "holds_pairs h (take i ?M) ?pre" using holds_pairs_take[of h ?M "es[i := (key, key)]" i] by simp
  moreover have "list_all (\<lambda>(k, p). avoids h d k \<and> avoids h d p) ?pre"
    using sub avoids_entries[OF assms(1)] string_avoids[OF key assms(1)]
    by (fastforce simp: list_all_iff avoids_def dest: in_set_takeD)
  ultimately have pre: "holds_pairs ?h (take i ?M) ?pre" using holds_update(3) by blast
  have key': "object_at ?h key = Some (StringObject s)" using key avoids_other[OF string_avoids[OF key assms(1)]] by simp
  have small: "length (concat (map (\<lambda>(k, v). item_bytes (BString k) @ item_bytes v) (take i ?M))) + 2 \<le> length (lib_encode (BDictionary ?M))"
    using concat_take_le[of "\<lambda>(k, v). item_bytes (BString k) @ item_bytes v" i ?M] by (simp add: lib_encode_bytes)
  have enc: "accept_encoder fuel ?h (Some d) out = Inl (Undefined NullPointer)"
    if fuel: "length (lib_encode (BDictionary ?M)) < fuel" for fuel out
  proof -
    obtain f where f: "fuel = Suc f" using fuel by (cases fuel) auto
    have "accept_pairs f ?h (?pre @ (key, None) # drop (Suc i) es) (out @ ''d'') = Inl (Undefined NullPointer)"
      by (rule null_item_visited[OF pre key']) (use small fuel f in simp_all)
    then show ?thesis using d(1) split by (simp add: f deref_def)
  qed
  have search: "search_dictionary fuel ?h k es = Inl (Undefined NullPointer)"
    if fuel: "length (lib_encode (BDictionary ?M)) < fuel" and k: "k \<noteq> s" "dict_getValue k m = None" for fuel k
  proof -
    have "search_dictionary fuel ?h k (?pre @ (key, None) # drop (Suc i) es) = Inl (Undefined NullPointer)"
      by (rule null_item_searched[OF pre key'])
        (use small fuel k getValue_take[of k ?M i] getValue_absent_key[OF no k(1)] in simp_all)
    then show ?thesis using split by simp
  qed
  have "length es = Suc (length (dictionary_entries h d))"
    using holds_pairs_length[OF M] holds_pairs_length[OF d(3)] length_map_set_new[OF no, of "BString s"] by simp
  with enc search at i d(1) show ?thesis by (simp add: dictionary_get_def dictionary_size_def)
qed

lemma missing_key_poisons_witness:
  "\<exists>h'. dictionary_get 3 (Some 4) ex_heap = Inr (h', None) \<and> accept_encoder 30 h' (Some 3) [] = Inl (Undefined NullPointer) \<and>
     search_dictionary 30 h' ''c'' (dictionary_entries h' 3) = Inl (Undefined NullPointer)"
proof -
  let ?m = "[(''b'', BList [BInteger 7])]"
  have hold: "holds ex_heap (BDictionary ?m) (Some 3)" "holds ex_heap (BString ''a'') (Some 4)"
    by (simp_all add: ex_heap_def)
  moreover have "wf_map ?m" "map_get ?m ''a'' = None" by (simp_all add: wf_map_def map_get_def)
  ultimately obtain h' where h': "dictionary_get 3 (Some 4) ex_heap = Inr (h', None)"
    "\<forall>fuel > length (lib_encode (BDictionary (map_set ''a'' (BString ''a'') ?m))).
      (\<forall>out. accept_encoder fuel h' (Some 3) out = Inl (Undefined NullPointer)) \<and>
      (\<forall>k. k \<noteq> ''a'' \<and> dict_getValue k ?m = None \<longrightarrow> search_dictionary fuel h' k (dictionary_entries h' 3) = Inl (Undefined NullPointer))"
    using missing_key_poisons by blast
  have "length (lib_encode (BDictionary (map_set ''a'' (BString ''a'') ?m))) = 16"
    by (simp add: lib_encode_bytes dec_int_def dec_nat.simps less_char_def)
  with h' show ?thesis by (intro exI[of _ h']) auto
qed

end
