(* ===== verification/CommandLine.thy ===== *)
theory CommandLine
  imports Threads
begin

text \<open>
  \<open>src/network_part/main.cpp\<close>: the command line of the client, with the download that it runs and the exit codes. The
  library \<open>cxxopts\<close>, which turns the arguments into options or throws, is a parameter.
\<close>

section \<open>Options\<close>

text \<open>What \<open>parse\<close> returns for the options that \<open>main\<close> declares; those without a default may be missing.\<close>

record parsed_options =
  opt_help :: bool
  opt_thread_num :: int
  opt_logging :: bool
  opt_log_file :: string
  opt_torrent_file :: "string option"
  opt_output_dir :: "string option"

datatype command = Help | Download int string string

definition read_command :: "parsed_options \<Rightarrow> command res" where
  "read_command parsedOptions =
     (if opt_help parsedOptions then Inr Help
      else case opt_torrent_file parsedOptions of
        None \<Rightarrow> Inl (InvalidArgument ''Path torrentFilePath a Torrent file has torrentFilePath be specified!'')
      | Some torrentFilePath \<Rightarrow>
          (case opt_output_dir parsedOptions of
             None \<Rightarrow> Inl (InvalidArgument ''An output directory has torrentFilePath be specified!'')
           | Some outputDir \<Rightarrow> Inr (Download (opt_thread_num parsedOptions) torrentFilePath outputDir)))"

section \<open>The download\<close>

text \<open>
  How \<open>downloadFile\<close> ends: it returns, with the piece manager of the download as its destructor found it, if there was one, it throws, or
  the program ends in it. It may also not end. Files are looked up by \<open>disk\<close>; \<open>steps\<close> says which interleavings of
  the threads are considered, \<open>system_step\<close> all of them or \<open>calm_step\<close> those with the threads on different pieces.
\<close>

datatype download_end = Done "pmanager option" | Threw cxx_error | Died cxx_error

inductive downloadFile :: "(system \<Rightarrow> system \<Rightarrow> bool) \<Rightarrow> lexcast \<Rightarrow> (bytes \<Rightarrow> lt_info option) \<Rightarrow> (string \<Rightarrow> bool) \<Rightarrow> (string \<Rightarrow> bytes option) \<Rightarrow> string \<Rightarrow>
    int \<Rightarrow> string \<Rightarrow> string \<Rightarrow> download_end \<Rightarrow> bool" for steps lc lt opens disk pid threadNum tpath dir where
  setup_throws: "setup_download lc lt opens pid dir (disk tpath) = Inl e \<Longrightarrow>
    downloadFile steps lc lt opens disk pid threadNum tpath dir (if is_exception e then Threw e else Died e)"
| refuses: "setup_download lc lt opens pid dir (disk tpath) = Inr None \<Longrightarrow>
    downloadFile steps lc lt opens disk pid threadNum tpath dir (Done None)"
| returns: "setup_download lc lt opens pid dir (disk tpath) = Inr (Some dl) \<Longrightarrow>
    steps\<^sup>*\<^sup>* (start_threads threadNum (dl_manager dl)) s \<Longrightarrow> main_at s = Returned \<Longrightarrow>
    destroy_manager (the_manager s) = Inr () \<Longrightarrow>
    downloadFile steps lc lt opens disk pid threadNum tpath dir (Done (Some (the_manager s)))"
| destructor_dies: "setup_download lc lt opens pid dir (disk tpath) = Inr (Some dl) \<Longrightarrow>
    steps\<^sup>*\<^sup>* (start_threads threadNum (dl_manager dl)) s \<Longrightarrow> main_at s = Returned \<Longrightarrow>
    destroy_manager (the_manager s) = Inl e \<Longrightarrow> downloadFile steps lc lt opens disk pid threadNum tpath dir (Died e)"
| tracker_throws: "setup_download lc lt opens pid dir (disk tpath) = Inr (Some dl) \<Longrightarrow>
    steps\<^sup>*\<^sup>* (start_threads threadNum (dl_manager dl)) s \<Longrightarrow> main_at s = Thrown e \<Longrightarrow>
    downloadFile steps lc lt opens disk pid threadNum tpath dir (Threw e)"
| dies: "setup_download lc lt opens pid dir (disk tpath) = Inr (Some dl) \<Longrightarrow>
    steps\<^sup>*\<^sup>* (start_threads threadNum (dl_manager dl)) s \<Longrightarrow> main_at s = Crashed e \<Longrightarrow>
    downloadFile steps lc lt opens disk pid threadNum tpath dir (Died e)"

section \<open>The program\<close>

datatype process_end = Exit nat "pmanager option" | Abnormal cxx_error

inductive client_main :: "(system \<Rightarrow> system \<Rightarrow> bool) \<Rightarrow> (string list \<Rightarrow> parsed_options res) \<Rightarrow> lexcast \<Rightarrow> (bytes \<Rightarrow> lt_info option) \<Rightarrow> (string \<Rightarrow> bool) \<Rightarrow>
    (string \<Rightarrow> bytes option) \<Rightarrow> nat list \<Rightarrow> string list \<Rightarrow> process_end \<Rightarrow> bool" for steps parse lc lt opens disk distrib argv where
  parse_throws: "parse argv = Inl e \<Longrightarrow> is_exception e \<Longrightarrow> client_main steps parse lc lt opens disk distrib argv (Exit 1 None)"
| asks_help: "parse argv = Inr parsed \<Longrightarrow> read_command parsed = Inr Help \<Longrightarrow>
    client_main steps parse lc lt opens disk distrib argv (Exit 0 None)"
| missing: "parse argv = Inr parsed \<Longrightarrow> read_command parsed = Inl e \<Longrightarrow>
    client_main steps parse lc lt opens disk distrib argv (Exit 1 None)"
| finished: "parse argv = Inr parsed \<Longrightarrow> read_command parsed = Inr (Download n tpath dir) \<Longrightarrow>
    downloadFile steps lc lt opens disk (client_peerId distrib) n tpath dir (Done m) \<Longrightarrow>
    client_main steps parse lc lt opens disk distrib argv (Exit 0 m)"
| threw: "parse argv = Inr parsed \<Longrightarrow> read_command parsed = Inr (Download n tpath dir) \<Longrightarrow>
    downloadFile steps lc lt opens disk (client_peerId distrib) n tpath dir (Threw e) \<Longrightarrow>
    client_main steps parse lc lt opens disk distrib argv (Exit 1 None)"
| died: "parse argv = Inr parsed \<Longrightarrow> read_command parsed = Inr (Download n tpath dir) \<Longrightarrow>
    downloadFile steps lc lt opens disk (client_peerId distrib) n tpath dir (Died e) \<Longrightarrow>
    client_main steps parse lc lt opens disk distrib argv (Abnormal e)"

lemma read_command_Help: "read_command parsed = Inr Help \<longleftrightarrow> opt_help parsed"
  by (auto simp: read_command_def split: option.splits if_splits)

lemma read_command_Download: "read_command parsed = Inr (Download n tpath dir) \<longleftrightarrow>
    \<not> opt_help parsed \<and> opt_torrent_file parsed = Some tpath \<and> opt_output_dir parsed = Some dir \<and> opt_thread_num parsed = n"
  by (auto simp: read_command_def split: option.splits if_splits)

text \<open>What a download that returns has done.\<close>

lemma calm_steps: "calm_step\<^sup>*\<^sup>* s s' \<Longrightarrow> system_step\<^sup>*\<^sup>* s s'"
  by (induction rule: rtranclp_induct) (auto simp: calm_step_def)

definition download_result :: "(system \<Rightarrow> system \<Rightarrow> bool) \<Rightarrow> int \<Rightarrow> torrent_file \<Rightarrow> pmanager \<Rightarrow> pmanager \<Rightarrow> bool" where
  "download_result steps n t pm0 pm \<longleftrightarrow>
     (\<exists>u s. system_step\<^sup>*\<^sup>* (start_threads n pm0) u \<and> isComplete (the_manager u) \<and> system_step\<^sup>*\<^sup>* u s \<and> pm = the_manager s) \<and>
     (0 < n \<or> splitPieceHashes (pieces (info t)) = []) \<and> content (downloadedFile pm) = [] \<and>
     (steps = calm_step \<longrightarrow> (\<forall>i < length (splitPieceHashes (pieces (info t))).
        fips_sha1 (piece_bytes (store pm ! i)) = splitPieceHashes (pieces (info t)) ! i))"

lemma start_complete:
  assumes "pm_start t pm" "isComplete pm"
  shows "splitPieceHashes (pieces (info t)) = []"
proof -
  have "length (splitPieceHashes (pieces (info t))) = totalPieces pm"
    using run_hashes[OF assms(1) pm_run_refl] pm_wfD(1)[OF run_wf[OF assms(1) pm_run_refl]] by (metis length_map)
  moreover have "havePieces pm = []" using assms(1) by (auto simp: pm_start_def PieceManager_def rbind_Inr_iff split: option.splits)
  ultimately show ?thesis using assms(2) by (simp add: isComplete_def)
qed

lemma download_done:
  assumes "downloadFile steps lc lt opens disk pid n tpath dir (Done m)" "steps = system_step \<or> steps = calm_step"
  shows "\<exists>c. disk tpath = Some c \<and>
    (case m of None \<Rightarrow> lt c = None
     | Some pm \<Rightarrow> \<exists>t v dl. decode lc c = Inr v \<and> parseTorrentFile v = Inr t \<and>
         setup_download lc lt opens pid dir (Some c) = Inr (Some dl) \<and> download_result steps n t (dl_manager dl) pm)"
  using assms(1)
proof (cases rule: downloadFile.cases)
  case refuses
  then show ?thesis by (auto simp: setup_download_def rbind_Inr_iff split: option.splits)
next
  case (returns dl s)
  obtain c ti v t where c: "disk tpath = Some c" "decode lc c = Inr v" "parseTorrentFile v = Inr t"
    "PieceManager (opens (dl_path dl)) t = Inr (dl_manager dl)" "files (info t) = []"
    using setup_reads_no_files[OF returns(2)] by blast
  have st: "pm_start t (dl_manager dl)" using c(4) by (auto simp: pm_start_def)
  have sys: "system_step\<^sup>*\<^sup>* (start_threads n (dl_manager dl)) s" using returns(3) assms(2) calm_steps by blast
  have "0 < n \<or> isComplete (dl_manager dl)" using no_threads_poll[OF _ _ sys] returns(4) by force
  moreover have "content (downloadedFile (the_manager s)) = []"
    using failed_file_steps[OF sys] setup_file_failed[OF returns(2)] by (simp add: start_threads_def)
  moreover have "all_had (dl_manager dl) s" if "steps = calm_step"
    using sys_inv[OF st, of n s] returns(3,4) that by (simp add: all_had_def system_inv_def)
  moreover have "\<exists>u s'. system_step\<^sup>*\<^sup>* (start_threads n (dl_manager dl)) u \<and> isComplete (the_manager u) \<and>
      system_step\<^sup>*\<^sup>* u s' \<and> the_manager s = the_manager s'"
    using seen_complete[OF sys] returns(4) by (auto simp: start_threads_def)
  ultimately have "download_result steps n t (dl_manager dl) (the_manager s)"
    using start_complete[OF st] sys_verified[OF st] by (auto simp: download_result_def)
  with c returns(1,2) show ?thesis by auto
qed (auto split: if_splits)

text \<open>
  C8. Exit codes: the client exits with 0 or 1, and with 0 only after printing its help, after a torrent that libtorrent
  refuses, or after a download whose run went through a state in which the piece manager was complete. Such a download has a
  positive number of threads or a torrent without pieces. Nothing was written to its file, in every interleaving of the
  threads; and when no two threads are in \<open>blockReceived\<close> for the same piece, every piece in memory has the hash of the torrent.
\<close>

theorem client_exit:
  assumes "client_main steps parse lc lt opens disk distrib argv (Exit code m)" "steps = system_step \<or> steps = calm_step"
  shows "code \<le> 1 \<and> (code = 1 \<longrightarrow> m = None) \<and>
    (code = 0 \<longrightarrow> (\<exists>parsed. parse argv = Inr parsed \<and>
      (opt_help parsed \<and> m = None \<or>
       (\<exists>tpath dir c. read_command parsed = Inr (Download (opt_thread_num parsed) tpath dir) \<and> disk tpath = Some c \<and>
         (m = None \<and> lt c = None \<or>
          (\<exists>pm t v dl. m = Some pm \<and> decode lc c = Inr v \<and> parseTorrentFile v = Inr t \<and>
            setup_download lc lt opens (client_peerId distrib) dir (Some c) = Inr (Some dl) \<and>
            (\<exists>u s. system_step\<^sup>*\<^sup>* (start_threads (opt_thread_num parsed) (dl_manager dl)) u \<and> isComplete (the_manager u) \<and>
               system_step\<^sup>*\<^sup>* u s \<and> pm = the_manager s) \<and>
            (0 < opt_thread_num parsed \<or> splitPieceHashes (pieces (info t)) = []) \<and>
            content (downloadedFile pm) = [] \<and>
            (steps = calm_step \<longrightarrow> (\<forall>i < length (splitPieceHashes (pieces (info t))).
              fips_sha1 (piece_bytes (store pm ! i)) = splitPieceHashes (pieces (info t)) ! i))))))))"
  using assms(1)
proof (cases rule: client_main.cases)
  case (asks_help parsed)
  then show ?thesis by (auto simp: read_command_Help)
next
  case (finished parsed n tpath dir)
  note n = finished(3)[unfolded read_command_Download]
  from download_done[OF finished(4) assms(2)] obtain c where c: "disk tpath = Some c"
    "case m of None \<Rightarrow> lt c = None
     | Some pm \<Rightarrow> \<exists>t v dl. decode lc c = Inr v \<and> parseTorrentFile v = Inr t \<and>
         setup_download lc lt opens (client_peerId distrib) dir (Some c) = Inr (Some dl) \<and>
         download_result steps n t (dl_manager dl) pm" by blast
  show ?thesis
  proof (cases m)
    case None
    with c finished n show ?thesis by auto
  next
    case (Some pm)
    with c finished n show ?thesis by (auto simp: download_result_def)
  qed
qed auto

text \<open>A torrent without pieces, downloaded with one thread.\<close>

definition ex_options :: parsed_options where
  "ex_options = \<lparr>opt_help = False, opt_thread_num = 1, opt_logging = False, opt_log_file = ''../logs/client.log'',
     opt_torrent_file = Some ''/a.torrent'', opt_output_dir = Some ''/d/''\<rparr>"

lemma client_exit_witness:
  "\<exists>pm. client_main calm_step (\<lambda>_. Inr ex_options) lexcast_ref (\<lambda>_. Some ex_lt) (\<lambda>_. True) (\<lambda>_. Some ex_single_file) [] [] (Exit 0 (Some pm)) \<and>
     content (downloadedFile pm) = []"
proof -
  let ?dl_result = "setup_download lexcast_ref (\<lambda>_. Some ex_lt) (\<lambda>_. True) (client_peerId []) ''/d/'' (Some ex_single_file)"
  obtain dl v t where dl: "?dl_result = Inr (Some dl)" "PieceManager True t = Inr (dl_manager dl)" "isComplete (dl_manager dl)"
    using ex_setup by blast
  let ?s0 = "start_threads 1 (dl_manager dl)"
  let ?s1 = "set_main (Terminating 1) ?s0"
  have st: "pm_start t (dl_manager dl)" using dl(2) by (auto simp: pm_start_def)
  have "system_step ?s0 ?s1" using system_step.complete[of ?s0] dl(3) by (simp add: start_threads_def)
  then have step: "calm_step ?s0 ?s1"
    by (simp add: calm_step_def exclusive_def all_apart_def apart_def start_threads_def)
  have "the_manager ?s1 = dl_manager dl" by (simp add: start_threads_def)
  with sys_inv[OF st r_into_rtranclp[where r = calm_step, OF step]] dl(3) have had: "all_had (dl_manager dl) ?s1"
    by (simp add: all_had_def)
  have "\<not> removing ?s1" by (simp add: removing_def start_threads_def)
  with quiet_end[OF had] obtain s where s: "system_step\<^sup>*\<^sup>* ?s1 s" "main_at s = Returned" by auto
  have "calm_step\<^sup>*\<^sup>* ?s0 s" using step all_had_calm[OF s(1) had] by (rule converse_rtranclp_into_rtranclp)
  moreover have "destroy_manager (the_manager s) = Inr ()"
    using all_had_steps[OF s(1) had] pm_coreD(3)[of "the_manager s"]
    by (simp add: destroy_manager_eq all_had_def system_inv_def manager_inv_def)
  ultimately have d: "downloadFile calm_step lexcast_ref (\<lambda>_. Some ex_lt) (\<lambda>_. True) (\<lambda>_. Some ex_single_file) (client_peerId []) 1 ''/a.torrent'' ''/d/''
      (Done (Some (the_manager s)))"
    using downloadFile.returns[of lexcast_ref "\<lambda>_. Some ex_lt" "\<lambda>_. True" "client_peerId []" "''/d/''" "\<lambda>_. Some ex_single_file"] dl(1) s(2) by blast
  have "client_main calm_step (\<lambda>_. Inr ex_options) lexcast_ref (\<lambda>_. Some ex_lt) (\<lambda>_. True) (\<lambda>_. Some ex_single_file) [] [] (Exit 0 (Some (the_manager s)))"
    by (rule client_main.finished[where parsed = ex_options, OF _ _ d]) (simp_all add: ex_options_def read_command_def)
  moreover from client_exit[OF this] have "content (downloadedFile (the_manager s)) = []" by auto
  ultimately show ?thesis by blast
qed

end
