(* ===== verification/Screen.thy ===== *)
theory Screen
  imports Menu Doubles
begin

text \<open>
  What the terminal interface draws (\<open>update_progress\<close> and \<open>renderWindows\<close> in \<open>src/main.cpp\<close>): the list of the active
  torrents, which a thread replaces every half second, and the two windows, as the texts that are printed and where.
  Colours, borders and the terminal itself are ncurses. Fractions are of type \<open>float\<close>, with 24 significant bits.
\<close>

section \<open>The active torrents\<close>

datatype lt_state = downloading_metadata | downloading | seeding | finished | OtherState

record lt_status =
  st_name :: string
  st_progress :: rat
  st_paused :: bool
  st_state :: lt_state
  st_rate :: cint

record torrent_status =
  t_name :: string
  t_progress :: rat
  t_rate :: int
  t_state :: string

text \<open>Signed division by a positive constant truncates towards zero.\<close>

definition div_trunc :: "int \<Rightarrow> int \<Rightarrow> int" where
  "div_trunc a b = (if a < 0 then - ((- a) div b) else a div b)"

definition status_entry :: "lt_status \<Rightarrow> torrent_status" where
  "status_entry s =
     \<lparr>t_name = st_name s, t_progress = fl 24 (st_progress s * 100), t_rate = div_trunc (sint (st_rate s)) 1024,
      t_state = (if st_paused s then ''Finished''
        else case st_state s of
          downloading_metadata \<Rightarrow> ''Metadata''
        | downloading \<Rightarrow> ''Downloading''
        | seeding \<Rightarrow> ''Seeding''
        | finished \<Rightarrow> ''Finished''
        | OtherState \<Rightarrow> ''Unknown'')\<rparr>"

definition update_progress :: "lt_status list \<Rightarrow> torrent_status list" where
  "update_progress statuses = map status_entry statuses"

section \<open>The windows\<close>

text \<open>\<open>%.*s\<close>: at most so many characters of a C string, and all of it when the precision is negative.\<close>

definition c_str :: "string \<Rightarrow> string" where
  "c_str s = takeWhile (\<lambda>c. c \<noteq> CHR 0x00) s"

definition precision :: "int \<Rightarrow> string \<Rightarrow> string" where
  "precision n s = (if n < 0 then c_str s else take (nat n) (c_str s))"

text \<open>A printed line: where it starts, its text, then the cells of a bar and the text after it; and whether it is highlighted.\<close>

record printed =
  p_row :: int
  p_text :: string
  p_bar :: "bool list"
  p_after :: string
  p_reverse :: bool

definition plain :: "int \<Rightarrow> string \<Rightarrow> bool \<Rightarrow> printed" where
  "plain r s high = \<lparr>p_row = r, p_text = s, p_bar = [], p_after = [], p_reverse = high\<rparr>"

text \<open>All lines start at column 2.\<close>

definition render_left :: "int \<Rightarrow> menu \<Rightarrow> printed list" where
  "render_left maxx s =
     plain 1 ''Main Menu'' False #
     map (\<lambda>i. plain (int i + 3) (precision (maxx - 4) (left_items ! i))
              (left_active s \<and> word_of_int (left_selected s) = (of_nat i :: 64 word)))
         [0..<length left_items]"

definition bar_width :: nat where "bar_width = 10"

definition bar_pos :: "rat \<Rightarrow> int" where
  "bar_pos percent = \<lfloor>fl 24 (fl 24 (percent / 100) * of_nat bar_width)\<rfloor>"

definition bar_cells :: "int \<Rightarrow> bool list" where
  "bar_cells barpos = map (\<lambda>i. int i < barpos) [0..<bar_width]"

definition rate_text :: "torrent_status \<Rightarrow> string" where
  "rate_text t =
     (if 100 \<le> t_progress t then ''] Finished''
      else if 1024 < t_rate t then ''] '' @ dec_int (div_trunc (t_rate t) 1024) @ '' mb/s''
      else ''] '' @ dec_int (t_rate t) @ '' kb/s'')"

fun render_torrents :: "int \<Rightarrow> int \<Rightarrow> menu \<Rightarrow> int \<Rightarrow> int \<Rightarrow> torrent_status list \<Rightarrow> printed list" where
  "render_torrents maxy maxx s r i [] = []"
| "render_torrents maxy maxx s r i (t # ts) =
     (if maxy - 2 \<le> r then []
      else \<lparr>p_row = r, p_text = precision (maxx - 30) (t_name t) @ '' ['', p_bar = bar_cells (bar_pos (t_progress t)),
             p_after = rate_text t, p_reverse = right_active s \<and> i = right_selected s\<rparr>
           # render_torrents maxy maxx s (r + 1) (i + 1) ts)"

definition render_right :: "int \<Rightarrow> int \<Rightarrow> menu \<Rightarrow> torrent_status list \<Rightarrow> printed list" where
  "render_right maxy maxx s active = plain 1 ''Active Torrents'' False # render_torrents maxy maxx s 3 0 active"

section \<open>Lengths\<close>

definition line_length :: "printed \<Rightarrow> nat" where
  "line_length l = length (p_text l) + length (p_bar l) + length (p_after l)"

lemma length_precision: "length (precision n s) \<le> nat n \<or> n < 0"
  by (simp add: precision_def)

lemma length_bar [simp]: "length (bar_cells p) = 10"
  by (simp add: bar_cells_def bar_width_def)

lemma length_dec_nat: "n < 10 ^ k \<Longrightarrow> 0 < k \<Longrightarrow> length (dec_nat n) \<le> k"
proof (induction k arbitrary: n)
  case (Suc k)
  show ?case
  proof (cases "n < 10")
    case True
    then show ?thesis by (subst dec_nat.simps) simp
  next
    case False
    then have "n div 10 < 10 ^ k" "0 < k" using Suc.prems by (auto simp: less_mult_imp_div_less mult.commute intro: gr0I)
    with Suc.IH[of "n div 10"] False show ?thesis by (subst dec_nat.simps) simp
  qed
qed simp

lemma rate_range: "\<bar>t_rate (status_entry st)\<bar> \<le> 2 ^ 21"
proof -
  have "- (2 ^ 31) \<le> sint (st_rate st)" "sint (st_rate st) < 2 ^ 31"
    using sint_range_size[of "st_rate st"] by (simp_all add: word_size)
  then show ?thesis by (auto simp: status_entry_def div_trunc_def)
qed

lemma length_rate_text: "length (rate_text (status_entry st)) \<le> 15"
proof -
  let ?r = "t_rate (status_entry st)"
  have "length (dec_int n) \<le> 8" if "\<bar>n\<bar> \<le> 2 ^ 21" for n
  proof -
    have "nat \<bar>n\<bar> < 10 ^ 7" using that by (simp add: nat_less_iff)
    with length_dec_nat[of "nat \<bar>n\<bar>" 7] show ?thesis by (auto simp: dec_int_def)
  qed
  moreover have "\<bar>div_trunc ?r 1024\<bar> \<le> 2 ^ 21" using rate_range[of st] by (auto simp: div_trunc_def)
  ultimately show ?thesis using rate_range[of st] by (auto simp: rate_text_def)
qed

lemma rate_text_unfinished: "\<not> 100 \<le> t_progress t \<Longrightarrow> rate_text t \<noteq> ''] Finished''"
  by (auto simp: rate_text_def dest: arg_cong[of _ _ last])

section \<open>The bar\<close>

text \<open>The greatest fraction below one that a \<open>float\<close> has, and what becomes of it.\<close>

lemma float_below_one:
  assumes "fl 24 p = p" "p < 1"
  shows "p \<le> 1 - 2 powi (- 24)"
proof (rule ccontr)
  assume "\<not> ?thesis"
  then have low: "1 - 2 powi (- 24) < p" by simp
  have half: "(1 / 2 :: rat) < 1 - 2 powi (- 24)" by (simp add: power_int_minus)
  then have p: "0 < p" using low by linarith
  have "binary_exponent p = -1"
  proof -
    have "2 powi (binary_exponent p) < (2 powi 0 :: rat)" using binary_exponent_bounds(1)[OF p] assms(2) by simp
    then have "binary_exponent p < 0" by (metis linorder_not_le one_le_numeral power_int_increasing not_less)
    moreover have "(2 powi (-1) :: rat) < 2 powi (binary_exponent p + 1)"
      using binary_exponent_bounds(2)[OF p] low half by (simp add: power_int_minus)
    then have "-1 < binary_exponent p + 1" by (metis linorder_not_le one_le_numeral power_int_increasing not_less)
    ultimately show ?thesis by simp
  qed
  then have "p = of_int (half_even (p / 2 powi (- 24))) * 2 powi (- 24)"
    using assms(1) p by (simp add: fl_def Let_def)
  then obtain h :: int where h: "p = of_int h / 2 ^ 24" by (auto simp: power_int_minus field_simps)
  with assms(2) low have "(of_int h :: rat) < 2 ^ 24" "(2 :: rat) ^ 24 - 1 < of_int h"
    by (simp_all add: power_int_minus field_simps)
  then have "(of_int h :: rat) < of_int (2 ^ 24)" "(of_int (2 ^ 24 - 1) :: rat) < of_int h" by simp_all
  then show False unfolding of_int_less_iff by simp
qed

lemma below_one_values:
  "fl 24 ((1 - 2 powi (- 24)) * 100) = 100 - 2 powi (- 17)"
  "fl 24 ((100 - 2 powi (- 17)) / 100) = 1 - 2 powi (- 24)"
  "fl 24 ((1 - 2 powi (- 24)) * 10) = 10 - 2 powi (- 20)"
  by code_simp+

lemma progress_values:
  assumes "0 \<le> p" "p \<le> 1" "fl 24 p = p"
  shows "0 \<le> bar_pos (fl 24 (p * 100))" "bar_pos (fl 24 (p * 100)) \<le> 10"
    and "bar_pos (fl 24 (p * 100)) = 10 \<longleftrightarrow> p = 1" "100 \<le> fl 24 (p * 100) \<longleftrightarrow> p = 1"
proof -
  let ?percent = "fl 24 (p * 100)"
  let ?x = "fl 24 (fl 24 (?percent / 100) * 10)"
  have b: "bar_pos ?percent = \<lfloor>?x\<rfloor>" by (simp add: bar_pos_def bar_width_def)
  show "0 \<le> bar_pos ?percent" by (simp add: b)
  have one: "fl 24 100 = 100" "fl 24 1 = 1" "fl 24 10 = 10" using fl_int[of 100 24] fl_int[of 1 24] fl_int[of 10 24] by simp_all
  have "bar_pos ?percent \<le> 10 \<and> (bar_pos ?percent = 10 \<longleftrightarrow> p = 1) \<and> (100 \<le> ?percent \<longleftrightarrow> p = 1)"
  proof (cases "p = 1")
    case True
    with one show ?thesis by (simp add: bar_pos_def bar_width_def)
  next
    case False
    then have "p \<le> 1 - 2 powi (- 24)" using float_below_one[OF assms(3)] assms(2) by simp
    then have "p * 100 \<le> (1 - 2 powi (- 24)) * 100" by (intro mult_right_mono) auto
    from fl_mono[OF this, of 24] have c1: "?percent \<le> 100 - 2 powi (- 17)" unfolding below_one_values by simp
    then have "?percent / 100 \<le> (100 - 2 powi (- 17)) / 100" by (intro divide_right_mono) auto
    from fl_mono[OF this, of 24] have "fl 24 (?percent / 100) \<le> 1 - 2 powi (- 24)" unfolding below_one_values by simp
    then have "fl 24 (?percent / 100) * 10 \<le> (1 - 2 powi (- 24)) * 10" by (intro mult_right_mono) auto
    from fl_mono[OF this, of 24] have "?x \<le> 10 - 2 powi (- 20)" unfolding below_one_values by simp
    then have "?x < 10" by (simp add: power_int_minus) 
    moreover have "?percent < 100" using c1 by (simp add: power_int_minus)
    ultimately show ?thesis using False by (simp add: b floor_le_iff floor_eq_iff not_le)
  qed
  then show "bar_pos ?percent \<le> 10" "bar_pos ?percent = 10 \<longleftrightarrow> p = 1" "100 \<le> ?percent \<longleftrightarrow> p = 1" by blast+
qed

lemma bar_cells_replicate: "0 \<le> k \<Longrightarrow> k \<le> 10 \<Longrightarrow> bar_cells k = replicate (nat k) True @ replicate (10 - nat k) False"
  by (rule nth_equalityI) (auto simp: bar_cells_def bar_width_def nth_append)

section \<open>The lines of the window\<close>

lemma render_torrents_lines:
  "length (render_torrents maxy maxx s r i ts) = min (length ts) (nat (maxy - 2 - r)) \<and>
   (\<forall>j < length (render_torrents maxy maxx s r i ts). r + int j < maxy - 2 \<and>
      render_torrents maxy maxx s r i ts ! j =
        \<lparr>p_row = r + int j, p_text = precision (maxx - 30) (t_name (ts ! j)) @ '' ['', p_bar = bar_cells (bar_pos (t_progress (ts ! j))),
         p_after = rate_text (ts ! j), p_reverse = right_active s \<and> i + int j = right_selected s\<rparr>)"
proof (induction ts arbitrary: r i)
  case (Cons t ts)
  show ?case
  proof (cases "maxy - 2 \<le> r")
    case False
    note IH = Cons.IH[of "r + 1" "i + 1"]
    have "nat (maxy - 2 - r) = Suc (nat (maxy - 2 - (r + 1)))" using False by simp
    moreover have "r + int j < maxy - 2 \<and> render_torrents maxy maxx s r i (t # ts) ! j =
        \<lparr>p_row = r + int j, p_text = precision (maxx - 30) (t_name ((t # ts) ! j)) @ '' ['',
         p_bar = bar_cells (bar_pos (t_progress ((t # ts) ! j))),
         p_after = rate_text ((t # ts) ! j), p_reverse = right_active s \<and> i + int j = right_selected s\<rparr>"
      if "j < length (render_torrents maxy maxx s r i (t # ts))" for j
      using that False IH by (cases j) (auto simp: algebra_simps)
    ultimately show ?thesis using False IH by simp
  qed simp
qed simp

text \<open>
  C24. The window of the active torrents, whatever libtorrent reports, with fractions from 0 to 1: one line for every
  torrent as long as there are rows inside the border; the bar has ten cells, filled from the
  left, and exactly a torrent with the fraction 1 has a full bar and the text of a finished one. In a window of at least 30
  columns every line ends inside the border. In a narrower one (a terminal of less than 62 columns) the width for the name is
  negative, which \<open>printf\<close> takes for none at all: the whole name is printed, over the border if it is long.
\<close>

theorem torrent_lines:
  assumes "\<forall>st \<in> set statuses. 0 \<le> st_progress st \<and> st_progress st \<le> 1 \<and> fl 24 (st_progress st) = st_progress st"
  shows "length (render_right maxy maxx s (update_progress statuses)) = Suc (min (length statuses) (nat (maxy - 5))) \<and>
    (\<forall>j < min (length statuses) (nat (maxy - 5)).
      case render_right maxy maxx s (update_progress statuses) ! Suc j of l \<Rightarrow>
        p_row l = 3 + int j \<and> p_row l < maxy - 2 \<and> (30 \<le> maxx \<longrightarrow> 2 + int (line_length l) < maxx) \<and>
        (maxx < 30 \<longrightarrow> p_text l = c_str (st_name (statuses ! j)) @ '' ['' \<and> length (c_str (st_name (statuses ! j))) < line_length l) \<and>
        (\<exists>k \<le> 10. p_bar l = replicate k True @ replicate (10 - k) False \<and>
           (k = 10 \<longleftrightarrow> st_progress (statuses ! j) = 1) \<and>
           (p_after l = ''] Finished'' \<longleftrightarrow> st_progress (statuses ! j) = 1)))"
proof -
  note lines = render_torrents_lines[of maxy maxx s 3 0 "update_progress statuses"]
  have "case render_right maxy maxx s (update_progress statuses) ! Suc j of l \<Rightarrow>
        p_row l = 3 + int j \<and> p_row l < maxy - 2 \<and> (30 \<le> maxx \<longrightarrow> 2 + int (line_length l) < maxx) \<and>
        (maxx < 30 \<longrightarrow> p_text l = c_str (st_name (statuses ! j)) @ '' ['' \<and> length (c_str (st_name (statuses ! j))) < line_length l) \<and>
        (\<exists>k \<le> 10. p_bar l = replicate k True @ replicate (10 - k) False \<and>
           (k = 10 \<longleftrightarrow> st_progress (statuses ! j) = 1) \<and>
           (p_after l = ''] Finished'' \<longleftrightarrow> st_progress (statuses ! j) = 1))"
    if j: "j < min (length statuses) (nat (maxy - 5))" for j
  proof -
    let ?st = "statuses ! j" and ?l = "render_torrents maxy maxx s 3 0 (update_progress statuses) ! j"
    let ?k = "bar_pos (t_progress (status_entry ?st))"
    have "length (render_torrents maxy maxx s 3 0 (update_progress statuses)) = min (length statuses) (nat (maxy - 5))"
      using lines by (simp add: update_progress_def)
    with lines j have row: "3 + int j < maxy - 2" and l: "?l = \<lparr>p_row = 3 + int j, p_text = precision (maxx - 30) (st_name ?st) @ '' ['',
        p_bar = bar_cells ?k, p_after = rate_text (status_entry ?st), p_reverse = right_active s \<and> int j = right_selected s\<rparr>"
      by (auto simp: update_progress_def status_entry_def)
    have "?st \<in> set statuses" using j by simp
    with assms have p: "0 \<le> st_progress ?st" "st_progress ?st \<le> 1" "fl 24 (st_progress ?st) = st_progress ?st" by auto
    note v = progress_values[OF p]
    have t: "t_progress (status_entry ?st) = fl 24 (st_progress ?st * 100)" by (simp add: status_entry_def)
    have "p_bar ?l = replicate (nat ?k) True @ replicate (10 - nat ?k) False" "nat ?k \<le> 10" "nat ?k = 10 \<longleftrightarrow> st_progress ?st = 1"
      using v(1-3) bar_cells_replicate[of ?k] by (auto simp: l t)
    moreover have "rate_text (status_entry ?st) = ''] Finished'' \<longleftrightarrow> st_progress ?st = 1"
      using v(4) rate_text_unfinished[of "status_entry ?st"] by (auto simp: rate_text_def t)
    moreover have "2 + int (line_length ?l) < maxx" if "30 \<le> maxx"
      using length_precision[of "maxx - 30" "st_name ?st"] length_rate_text[of ?st] that by (auto simp: line_length_def l)
    moreover have "p_text ?l = c_str (st_name ?st) @ '' ['' \<and> length (c_str (st_name ?st)) < line_length ?l" if "maxx < 30"
      using that by (simp add: l precision_def line_length_def)
    ultimately show ?thesis using row by (auto simp: render_right_def l)
  qed
  moreover have "length (render_right maxy maxx s (update_progress statuses)) = Suc (min (length statuses) (nat (maxy - 5)))"
    using lines by (simp add: render_right_def update_progress_def)
  ultimately show ?thesis by blast
qed

definition ex_statuses :: "lt_status list" where
  "ex_statuses = [\<lparr>st_name = ''a'', st_progress = 1, st_paused = False, st_state = seeding, st_rate = 0\<rparr>,
     \<lparr>st_name = ''b'', st_progress = 1/2, st_paused = False, st_state = downloading, st_rate = 5000000\<rparr>]"

lemma torrent_lines_witness:
  "\<forall>d. (case render_right 20 40 (main_start d) (update_progress ex_statuses) ! 2 of l \<Rightarrow>
      p_row l = 4 \<and> line_length l < 38 \<and> p_after l \<noteq> ''] Finished'')"
proof
  fix d
  have "fl 24 1 = 1" "fl 24 (1 / 2) = 1 / 2" using fl_int[of 1 24] fl_exact[of 1 24 "-1"] by (simp_all add: power_int_minus)
  then have p: "\<forall>st \<in> set ex_statuses. 0 \<le> st_progress st \<and> st_progress st \<le> 1 \<and> fl 24 (st_progress st) = st_progress st"
    by (simp add: ex_statuses_def)
  have "1 < min (length ex_statuses) (nat (20 - 5))" "st_progress (ex_statuses ! 1) \<noteq> 1" by (simp_all add: ex_statuses_def)
  with torrent_lines[OF p, of 20 40 "main_start d"] show "case render_right 20 40 (main_start d) (update_progress ex_statuses) ! 2 of l \<Rightarrow>
      p_row l = 4 \<and> line_length l < 38 \<and> p_after l \<noteq> ''] Finished''" by (fastforce simp: numeral_2_eq_2)
qed

end
