(* ===== verification/Tests.thy ===== *)
theory Tests
  imports Preview BItem Objects Piece
begin

text \<open>
  The tests of the repository (\<open>tests\<close>) as statements on the models, and the function that they test in
  \<open>src/ufo_torrent.cpp\<close>. The tests of the decoder expect values that it computes from variables without a value.
\<close>

section \<open>testSum\<close>

text \<open>A sum of two \<open>int\<close>s, which is undefined when it does not fit.\<close>

definition testSum :: "cint \<Rightarrow> cint \<Rightarrow> cint res" where
  "testSum a b =
     (if sint a + sint b < - (2 ^ 31) \<or> 2 ^ 31 - 1 < sint a + sint b then Inl (Undefined SignedOverflow) else Inr (a + b))"

lemma testSum_sums: "testSum a b = Inr c \<Longrightarrow> sint c = sint a + sint b"
  by (auto simp: testSum_def sint_word_ariths signed_take_bit_int_eq_self split: if_splits)

lemma test_sums: "testSum 2 2 = Inr 4" "testSum 2 0 = Inr 2"
  by (simp_all add: testSum_def)

section \<open>testEncoder.cpp and testDecoder.cpp\<close>

lemma test_encoder:
  "lib_encode (BInteger 42) = ''i42e''" "lib_encode (BInteger (-123)) = ''i-123e''"
  "lib_encode (BString []) = ''0:''" "lib_encode (BString ''test'') = ''4:test''"
  "lib_encode (BDictionary []) = ''de''"
  by (code_simp, code_simp, code_simp, code_simp, code_simp)

text \<open>The list of the test is built through its operations.\<close>

lemma test_encoder_list:
  "rbind (list_push_back 0 (Some 1) [ListObject [], IntegerObject 1, StringObject ''abc''])
     (\<lambda>h. rbind (list_push_back 0 (Some 2) h) (\<lambda>h. accept_encoder 2 h (Some 0) [])) = Inr ''li1e3:abce''"
  by code_simp

lemma indeterminate_integer: "decodeInteger ''i42e'' = Inl (Undefined Indeterminate)"
  by (simp add: decodeInteger_def readEncodedInteger_def decodeEncodedInteger_def integerRegex_def isdigit_def strToNum_def use_num_def)

lemma indeterminate_string: "decodeString (''1:'' @ s) = Inl (Undefined Indeterminate)"
  by (simp add: decodeString_def readStringLength_def isdigit_def strToNum_def use_num_def dec_val_def digit_val_def)

lemma lib_decode_fails:
  assumes "s \<noteq> []" "\<And>f. decode_stream (Suc (Suc (Suc f))) s = Inl e"
  shows "lib_decode s = Inl e"
proof -
  obtain f where "2 * length s + 2 = Suc (Suc (Suc f))" using assms(1) by (cases s) auto
  with assms(2)[of f] show ?thesis by (simp only: lib_decode_def lib_decode_stream_def rbind_simps)
qed

lemma test_decoder:
  "lib_decode ''d1:a1:b2:aa1:ce'' = Inl (Undefined Indeterminate)"
  "\<exists>w. lib_decode ''dinvalid'' = Inl (DecodingError w)"
  "lib_decode ''i42e'' = Inl (Undefined Indeterminate)"
proof -
  have "decode_stream (Suc (Suc (Suc f))) ''i42e'' = Inl (Undefined Indeterminate)" for f
    by (simp add: indeterminate_integer)
  then show "lib_decode ''i42e'' = Inl (Undefined Indeterminate)"
    by (intro exI lib_decode_fails) auto
  have "decodeInteger ''invalid'' = Inl (DecodingError ''error during the decoding of an integer near '')"
    by (simp add: decodeInteger_def readEncodedInteger_def)
  then have "decode_stream (Suc (Suc (Suc f))) ''dinvalid'' = Inl (DecodingError ''error during the decoding of an integer near '')" for f
    by (simp add: readExpectedChar_def)
  then show "\<exists>w. lib_decode ''dinvalid'' = Inl (DecodingError w)"
    by (intro exI lib_decode_fails) auto
  have "decode_stream (Suc (Suc (Suc f))) ''d1:a1:b2:aa1:ce'' = Inl (Undefined Indeterminate)" for f
    using indeterminate_string[of "''a1:b2:aa1:ce''"] by (simp add: readExpectedChar_def isdigit_def)
  then show "lib_decode ''d1:a1:b2:aa1:ce'' = Inl (Undefined Indeterminate)"
    by (intro exI lib_decode_fails) auto
qed

section \<open>testPiece.cpp and testPrinter.cpp\<close>

definition test_block :: "nat \<Rightarrow> nat \<Rightarrow> block" where
  "test_block p off = \<lparr>blk_piece = p, blk_offset = off, blk_length = 0, blk_status = missing, blk_data = []\<rparr>"

definition test_piece :: "block list \<Rightarrow> bytes \<Rightarrow> piece" where
  "test_piece blocks h = \<lparr>piece_index = 1, piece_hash = h, piece_blocks = blocks\<rparr>"

lemma test_pieces:
  "piece_index (test_piece [test_block 0 1024] ''aabbcc'') = 1" "\<not> is_complete (test_piece [test_block 0 1024] ''aabbcc'')"
  "\<exists>p. next_request (test_piece [test_block 0 1024] ''hash'') = Some (0, p) \<and> blk_status (piece_blocks p ! 0) = pending"
  "blk_offset (test_block 1024 1024) = 1024"
  "\<exists>p. next_request (test_piece [test_block 1024 1024] ''hash'') = Some (0, p)"
  by (simp_all add: test_piece_def test_block_def is_complete_def next_request_def)

lemma test_printer:
  "print_value 0 (VInt 42) = ''42'' @ [CHR 0x0A]" "print_value 0 (VStr ''test string'') = ''test string'' @ [CHR 0x0A]"
  "print_value 0 (VStr [CHR 0x01, CHR 0x02, CHR 0x03, CHR 0x04]) = ''BINARY DATA (length: 4)'' @ [CHR 0x0A]"
  by (code_simp, code_simp, code_simp)

end
