(* ===== verification/Spec2Isabelle.thy ===== *)
theory Spec2Isabelle
  imports Prelude StdMap Codec Transition Bencode NetUtils Sha1 Sha1_Spec SharedQueue Wire
    Piece TorrentFile PieceManager Download Concurrent FileWrites PeerConnection Session Hashing TorrentOps Tracker BItem FileParser Client
    Preview Dialog Menu Created Threads Doubles Progress Objects CommandLine Screen Tests
begin

text \<open>
  \<^bold>\<open>UFO Torrent\<close>, a BitTorrent client in C++: a verification library.

  The program. \<open>src/src/main.cpp\<close> is a terminal user interface that creates torrents with
  the code under \<open>src/src/models\<close>, \<open>src/src/hashing\<close> and \<open>src/src/bencode\<close>.
  \<open>src/src/network_part\<close> is a client of its own: \<open>TorrentClient\<close> reads a torrent, asks the
  tracker for peers (\<open>PeerRetriever\<close>), puts them into a shared queue, and runs threads
  (\<open>PeerConnection\<close>) that take peers from the queue, talk to them over sockets (\<open>connect\<close>,
  \<open>BitTorrentMessage\<close>) and drive the one \<open>PieceManager\<close>, which decides what to request,
  checks the hash of every piece (\<open>src/libs/crypto/sha1\<close>) and writes it to the file.
  \<open>src/libs/bencode\<close> is a second bencode implementation, used by \<open>TorrentFileParser\<close>.

  Foundations.
  \<^item> Prelude: exceptions, undefined behaviour, failed assertions, calls that wait for ever (\<open>Blocks\<close>) and loops that
    do not end (\<open>Diverges\<close>) as values of \<open>cxx_error\<close>; strings as lists of bytes; decimal numerals; integer widths
    (\<open>cint\<close> is \<open>int\<close>, \<open>cull\<close> is \<open>unsigned long long\<close>). A variable that the source leaves
    uninitialised is an option, and its use is \<open>Undefined Indeterminate\<close>; a copy of a whole object copies the absence of a
    member (\<open>visit_file\<close>). A model stops at undefined behaviour: what the program does after it is not said.
  \<^item> StdMap: \<open>std::map\<close> as an ascending association list, behind the locale
    \<open>ordered_map\<close>. Codec: the locale \<open>prefix_codec\<close> of a printer and a parser that reads one
    item from the front of its input; both bencode implementations and the wire framing
    interpret it. Transition: the locales \<open>invariant_system\<close> and \<open>simulation\<close>, interpreted by
    the queue, the piece manager and the threads, and \<open>rely_guarantee\<close> for threads over a shared state,
    interpreted by the handlers of the piece manager.

  Components, and the source each models.
  \<^item> Bencode: \<open>bencode/encode.cpp\<close>, \<open>bencode/decode.cpp\<close>, \<open>valueTypes.h\<close> (round trip,
    termination, well-formedness, what is lost and what is refused).
  \<^item> BItem: \<open>libs/bencode\<close> (Decoder, Encoder, Utils, the search of BDictionary and BList,
    PrettyPrinter) on values: the exact set of inputs its decoder accepts, agreement of the two
    encoders, the search against the list of all entries, the layout of the printer. Objects: the same items as
    mutable objects in a heap, shared through pointers, with every operation of BList, BDictionary, BString and BInteger;
    \<open>holds\<close> relates an object to the value it holds, and the operations, the encoder and the search are proved against the
    values as long as no object contains itself.
    FileParser: \<open>TorrentFileParser.cpp\<close> on top of it.
  \<^item> NetUtils: \<open>utils.cpp\<close> (URL and hexadecimal encoding, bit fields, time).
  \<^item> Sha1, Sha1_Spec: \<open>libs/crypto/sha1.cpp\<close> call by call, and its proof against FIPS 180-4.
  \<^item> SharedQueue: \<open>SharedQueue.h\<close>, its operations and all interleavings of several threads
    with the condition variable, \<open>front\<close> included. The operations return references (\<open>element_ref\<close>): that of \<open>pop_front\<close> is to a
    destroyed element, and the threads that read it are modelled with the value the element had (\<open>last_value\<close>).
  \<^item> Wire: \<open>BitTorrentMessage.cpp\<close>, \<open>connect.cpp\<close>: what the network delivers is a list of
    arrivals of any sizes, what the kernel accepts a list of answers.
  \<^item> Piece, PieceManager, Download: \<open>Piece.cpp\<close>, \<open>PieceManager.cpp\<close>. \<open>pmanager\<close> has the members
    of the class, with pieces referred to by index in \<open>store\<close>; its constructor takes whether the output file could be
    opened, which the code does not ask; one definition for each
    handler, with \<open>blockReceived\<close> cut where it releases its lock; \<open>pm_step\<close> is one handler
    call of some thread, as one step. Download has the properties of whole runs: the invariant, the
    refinement of the abstract download machine, the file, what is requested, and the runs
    that cannot finish. Concurrent: the same handlers with every critical section a step of its own
    (\<open>job_step\<close>, \<open>jobs_step\<close>); \<open>apart_step\<close> is the runs in which no two threads are in \<open>blockReceived\<close> for the same
    piece, in which the invariant and the refinement hold, and \<open>piece_counted_twice\<close> the others. FileWrites: the
    output file under the threads, which is right while one thread at a time is in \<open>write\<close> (\<open>serial_step\<close>), and \<open>writes_collide\<close> when two are.
  \<^item> PeerConnection, Session: \<open>PeerConnection.cpp\<close>: handshake, message loop and \<open>start\<close> over
    the peers of the queue, as one thread alone on its manager (Threads has it among others); \<open>pconn\<close> has the members of the class and the two directions of the
    socket. Session has the properties of whole conversations, and that a thread uses the
    manager only by the steps of \<open>pm_step\<close>, so that the results on runs apply to it.
  \<^item> TorrentFile, TorrentOps: \<open>torrentFile.h\<close>, \<open>models/torrentFile.cpp\<close> (reading metadata from
    a value, writing it, the info hash, creating a torrent). Hashing:
    \<open>hashing/createHash.cpp\<close>, \<open>utils/fileUtils.cpp\<close>.
  \<^item> Tracker: \<open>PeerRetriever.cpp\<close>. Client: \<open>TorrentClient.cpp\<close>: the set-up of a download from
    the bytes of a torrent to the piece manager, and the loop over the tracker. Threads: the main thread
    and any number of connection threads as one step relation in which every access to the queue and every critical section of the manager is a step,
    with the exceptions that end the program (\<open>calm_step\<close> is the runs with the threads on different pieces); the life of each connection thread refines it. CommandLine:
    \<open>network_part/main.cpp\<close>, from the arguments to the exit code.
  \<^item> Doubles: rounding of \<open>double\<close> and \<open>float\<close> values to 53 and 24 bits. Progress: the progress display of
    \<open>PieceManager.cpp\<close> and its thread next to the others.
  \<^item> Preview: \<open>bencode/prettyPrinter.cpp\<close> and \<open>showTorrentPreview\<close> of \<open>main.cpp\<close>, with the tree
    of the files and its scrolling. Dialog: \<open>fileDialog\<close>: its layout, the listing, the keys, over directories that may change
    at any \<open>moment\<close> (while the contents of files do not). Menu:
    \<open>main\<close> as a state machine over the keys (\<open>key_step\<close>). Screen: \<open>update_progress\<close> and \<open>renderWindows\<close>, the printed texts and their
    positions. Created: the torrent that the
    menu creates, through the writer, the encoder, the file, the decoder and the reader back to the preview.
  \<^item> Tests: the tests of the repository on the models, and \<open>ufo_torrent.cpp\<close>.

  Parameters. Code that is not part of the repository is an argument of the definitions:
  \<open>boost::lexical_cast\<close> (\<open>lexcast\<close>, law \<open>lexcast_ok\<close>), the SHA-1 of Boost (\<open>digest\<close>, law
  \<open>digest_ok\<close>), curl (\<open>curl_env\<close>), libtorrent (\<open>lt_info\<close>), cxxopts (\<open>parsed_options\<close>), the system calls of a connection
  (\<open>connect_env\<close>), the clock, the file system (\<open>disk\<close>, \<open>write_env\<close>, \<open>fs_node\<close>, \<open>fsys\<close>), and the order
  in which \<open>std::sort\<close> leaves equal names (\<open>sort_names\<close>, law \<open>sorts\<close>). The three laws
  are proved for reference functions, which the witnesses use.

  Bounds and fuel. The recursive decoders take fuel: \<open>2 * length s + 2\<close> for both, and
  \<open>decode_total\<close> and \<open>lib_decode_exact\<close> show that it is never used up, because every call
  consumes a byte. All other loops terminate by a measure on what is left of their input
  (bytes of a file, arrivals of a socket, lengths of lists). Lengths that are \<open>int\<close> in the
  decoder are natural numbers; the properties that depend on it assume inputs of at most
  \<open>INT_MAX\<close> bytes. The layout loops of the dialog may not end and are partial functions
  (\<open>path_height_returns\<close> says when they do); a dialog in one that does not is the value \<open>Diverges\<close>. A socket from which nothing more
  arrives, and a queue or keyboard that has nothing, is the value \<open>Blocks\<close>.

  What the properties show. The piece manager keeps its invariant under every sequence
  of its handlers, what it has is verified and written in place, and with its locks as they are the same holds of what it has
  when no two threads complete the same piece, and of the file when no two threads write at a time; SHA-1, the own bencode on what it can
  encode, the framing of messages and the tracker's compact form are correct. The queue is first-in first-out and, used as the program uses it, loses no
  wake-up, but \<open>pop_front\<close> returns a dangling reference. The properties also
  record where the code does not do what it means to: the metadata reader never sets the
  length of a file, so that a download set up by \<open>TorrentClient\<close> writes nothing and the
  interface cannot open the torrents it makes; the decoder
  of the library cannot return a string or an integer; downloads can stall in several ways;
  the hashes of created torrents have their bytes in the wrong order.

  The client exits with 0 in three cases only: after its help, after a torrent that libtorrent refuses, and after a download that
  went through a complete state, whose file is then empty all the same (\<open>client_exit\<close>).

  Not modelled. ncurses itself (borders, colours, refreshing, what a terminal makes of a printed text) and the
  messages on standard output; the release of memory but for the pieces that \<open>~PieceManager\<close> deletes, and what happens after undefined behaviour, which ends a model as an
  error value; floating-point values that are negative, subnormal or overflow; the visitor of the pretty printer on objects, which is modelled on values; the effect of weak memory and what is smaller
  than a critical section: a block is stored and its piece checked in one step (\<open>br_check\<close>), although the source does so without the
  mutex while \<open>nextRequest\<close> of another thread may read the same piece, each call on the output stream is one step, and the counter of the
  progress display is reset at once; signals (a write to a closed socket raises \<open>SIGPIPE\<close>, which ends the program). \<open>ncurses_utils.cpp\<close> is commented out.
\<close>

end
